(* ===== verification/Prelude.thy ===== *)
theory Prelude
  imports Main "HOL-Library.Word"
begin

text \<open>
  Shared vocabulary of the development: the machine integer types of the Rust
  crate, byte codecs (\<open>to_ne_bytes\<close>/\<open>from_ne_bytes\<close> on the little-endian targets
  the crate supports), buffer blits, the bit tricks the crate uses to walk a
  connection mask, and the wrapping comparison of ring cursors.
\<close>

unbundle bit_operations_syntax

named_theorems bitmask \<open>facts on connection masks\<close>
named_theorems bytes \<open>facts on byte codecs and blits\<close>

type_synonym u8 = "8 word"
type_synonym u16 = "16 word"
type_synonym u32 = "32 word"
type_synonym u64 = "64 word"
type_synonym i32 = "32 word"

section \<open>Byte codecs\<close>

definition le_bytes32 :: "u32 \<Rightarrow> u8 list" where
  "le_bytes32 w = [ucast w, ucast (drop_bit 8 w), ucast (drop_bit 16 w), ucast (drop_bit 24 w)]"

definition of_le_bytes32 :: "u8 list \<Rightarrow> u32" where
  "of_le_bytes32 bs = ucast (bs ! 0) OR push_bit 8 (ucast (bs ! 1))
     OR push_bit 16 (ucast (bs ! 2)) OR push_bit 24 (ucast (bs ! 3))"

lemma length_le_bytes32 [simp]: "length (le_bytes32 w) = 4"
  by (simp add: le_bytes32_def)

lemma of_le_bytes32_le_bytes32 [simp, bytes]: "of_le_bytes32 (le_bytes32 w) = w"
proof (rule bit_word_eqI)
  fix n assume "n < LENGTH(32)"
  then consider "n < 8" | "8 \<le> n" "n < 16" | "16 \<le> n" "n < 24" | "24 \<le> n" "n < 32"
    by fastforce
  then show "bit (of_le_bytes32 (le_bytes32 w)) n = bit w n"
    by cases (auto simp: of_le_bytes32_def le_bytes32_def bit_simps)
qed

lemma le_bytes32_inject [simp]: "le_bytes32 v = le_bytes32 w \<longleftrightarrow> v = w"
  by (metis of_le_bytes32_le_bytes32)

lemma sint_of_int_small: "- (2 ^ 31) \<le> z \<Longrightarrow> z < 2 ^ 31 \<Longrightarrow> sint (word_of_int z :: i32) = z"
  by (simp add: signed_of_int signed_take_bit_int_eq_self)

lemma sint_of_nat_small: "m < 2 ^ 31 \<Longrightarrow> sint (of_nat m :: i32) = int m"
  using sint_of_int_small [of "int m"] by simp

lemma unat_of_nat_small: "m < 2 ^ 32 \<Longrightarrow> unat (of_nat m :: u32) = m"
  by (simp add: unsigned_of_nat take_bit_nat_eq_self)

lemma unat_ucast_32_64: "unat (ucast (x :: u32) :: u64) = unat x"
  using unsigned_less [of x, where ?'a = nat]
  by (simp add: unsigned_ucast_eq take_bit_nat_eq_self)

section \<open>Blits into a byte buffer\<close>

text \<open>\<open>copy_nonoverlapping\<close> of \<open>bs\<close> to offset \<open>off\<close> of a buffer.\<close>

definition blit :: "nat \<Rightarrow> 'a list \<Rightarrow> 'a list \<Rightarrow> 'a list" where
  "blit off bs xs = take off xs @ bs @ drop (off + length bs) xs"

lemma length_blit [simp]: "off + length bs \<le> length xs \<Longrightarrow> length (blit off bs xs) = length xs"
  by (simp add: blit_def)

lemma take_drop_blit_same [bytes]:
  "off + length bs \<le> length xs \<Longrightarrow> n = length bs \<Longrightarrow> take n (drop off (blit off bs xs)) = bs"
  by (simp add: blit_def)

lemma take_drop_blit_after [bytes]:
  assumes "o1 + n \<le> o2" "o2 + length bs \<le> length xs"
  shows "take n (drop o1 (blit o2 bs xs)) = take n (drop o1 xs)"
proof -
  have "drop o1 (blit o2 bs xs) = drop o1 (take o2 xs) @ bs @ drop (o2 + length bs) xs"
    using assms by (simp add: blit_def)
  moreover have "take n (drop o1 (take o2 xs)) = take n (drop o1 xs)"
    using assms by (simp add: drop_take)
  ultimately show ?thesis
    using assms by simp
qed

lemma take_drop_blit_before [bytes]:
  assumes "o2 + length bs \<le> o1" "o2 + length bs \<le> length xs"
  shows "take n (drop o1 (blit o2 bs xs)) = take n (drop o1 xs)"
proof -
  have "drop o1 (blit o2 bs xs) = drop o1 xs"
    using assms by (simp add: blit_def)
  then show ?thesis by simp
qed

lemma nth_blit:
  assumes "off + length bs \<le> length xs" "i < length xs"
  shows "blit off bs xs ! i = (if off \<le> i \<and> i < off + length bs then bs ! (i - off) else xs ! i)"
  using assms by (auto simp: blit_def nth_append)

section \<open>Walking the set bits of a mask\<close>

text \<open>
  The crate walks a connection mask with \<open>bit = m & m.wrapping_neg(); m &= m - 1\<close>.
  The lowest set bit and the mask without it:
\<close>

definition low_bit :: "'a::len word \<Rightarrow> 'a word" where
  "low_bit m = m AND (- m)"

definition drop_low :: "'a::len word \<Rightarrow> 'a word" where
  "drop_low m = m AND (m - 1)"

lemma drop_low_less: "m \<noteq> 0 \<Longrightarrow> unat (drop_low m) < unat m"
proof -
  assume "m \<noteq> 0"
  then have "unat (m - 1) < unat m"
    using unat_minus_one [of m] unat_gt_0 [of m] by linarith
  moreover have "unat (drop_low m) \<le> unat (m - 1)"
    unfolding drop_low_def word_le_nat_alt [symmetric] by (rule word_and_le1)
  ultimately show ?thesis by simp
qed

text \<open>The index of the lowest set bit (\<open>trailing_zeros\<close> of a non-zero word).\<close>

definition low_index :: "'a::len word \<Rightarrow> nat" where
  "low_index m = (LEAST n. bit m n)"

lemma bit_low_index: "m \<noteq> 0 \<Longrightarrow> bit m (low_index m)"
  unfolding low_index_def by (metis LeastI bit_eqI bit_0_eq bot_apply bot_bool_def)

lemma not_bit_below: "n < low_index m \<Longrightarrow> \<not> bit m n"
  unfolding low_index_def by (rule not_less_Least)

lemma low_index_less: "m \<noteq> 0 \<Longrightarrow> low_index (m :: 'a::len word) < LENGTH('a)"
  using bit_low_index bit_imp_le_length by blast

lemma bit_pred:
  fixes m :: "'a::len word"
  assumes "m \<noteq> 0"
  shows "bit (m - 1) n \<longleftrightarrow> n < LENGTH('a) \<and>
    (if n < low_index m then True else if n = low_index m then False else bit m n)"
proof -
  let ?i = "low_index m" and ?q = "m AND NOT (mask (Suc (low_index m)))"
  have "?q OR 2 ^ ?i = m"
    using bit_low_index [OF assms] not_bit_below [of _ m]
    by (intro bit_word_eqI) (auto simp: bit_simps less_Suc_eq)
  moreover have "?q OR 2 ^ ?i = ?q + 2 ^ ?i"
    by (intro disjunctive_add [symmetric]) (auto simp: bit_simps)
  ultimately have "m - 1 = ?q + mask ?i"
    by (simp add: mask_eq_exp_minus_1 algebra_simps)
  also have "\<dots> = ?q OR mask ?i"
    by (intro disjunctive_add) (auto simp: bit_simps)
  finally show ?thesis
    by (auto simp: bit_simps dest: bit_imp_le_length)
qed

lemma low_bit_eq: "m \<noteq> 0 \<Longrightarrow> low_bit m = 2 ^ low_index m"
  unfolding low_bit_def minus_eq_not_minus_1
  by (rule bit_word_eqI)
    (auto simp: bit_simps bit_pred bit_low_index dest: not_bit_below)

lemma drop_low_eq: "m \<noteq> 0 \<Longrightarrow> drop_low m = unset_bit (low_index m) m"
  unfolding drop_low_def
  by (rule bit_word_eqI) (auto simp: bit_simps bit_pred dest: not_bit_below)

text \<open>The loop \<open>while m != 0 { bit = lowest; m &= m - 1; body }\<close>.\<close>

function for_each_bit :: "('a::len word \<Rightarrow> 's \<Rightarrow> 's) \<Rightarrow> 'a word \<Rightarrow> 's \<Rightarrow> 's" where
  "for_each_bit f m s = (if m = 0 then s else for_each_bit f (drop_low m) (f (low_bit m) s))"
  by pat_completeness auto
termination
  by (relation "measure (\<lambda>(f, m, s). unat m)") (auto simp: drop_low_less)

declare for_each_bit.simps [simp del]

lemma for_each_bit_0 [simp]: "for_each_bit f 0 s = s"
  by (simp add: for_each_bit.simps)

definition set_bits_of :: "'a::len word \<Rightarrow> nat set" where
  "set_bits_of m = {n. bit m n}"

lemma finite_set_bits_of [simp]: "finite (set_bits_of (m :: 'a::len word))"
  unfolding set_bits_of_def
  by (rule finite_subset [of _ "{..<LENGTH('a)}"]) (auto dest: bit_imp_le_length)

lemma set_bits_of_eq_empty [simp]: "set_bits_of m = {} \<longleftrightarrow> m = 0"
  unfolding set_bits_of_def by (auto intro: bit_eqI)

lemma set_bits_of_0 [simp]: "set_bits_of 0 = {}"
  by simp

lemma Min_set_bits_of: "m \<noteq> 0 \<Longrightarrow> Min (set_bits_of m) = low_index m"
  by (rule Min_eqI) (auto simp: set_bits_of_def bit_low_index dest: not_bit_below intro: leI)

lemma set_bits_of_drop_low: "m \<noteq> 0 \<Longrightarrow> set_bits_of (drop_low m) = set_bits_of m - {low_index m}"
  by (auto simp: set_bits_of_def drop_low_eq bit_simps dest: bit_imp_le_length)

text \<open>\<open>u32::trailing_zeros\<close>: the width for 0.\<close>

definition trailing_zeros :: "'a::len word \<Rightarrow> nat" where
  "trailing_zeros m = length (takeWhile (\<lambda>n. \<not> bit m n) [0..<LENGTH('a)])"

lemma trailing_zeros_eq:
  assumes "m \<noteq> 0"
  shows "trailing_zeros m = low_index (m :: 'a::len word)"
proof -
  let ?i = "low_index m"
  have i: "?i < LENGTH('a)" by (rule low_index_less [OF assms])
  have "[0..<LENGTH('a)] = [0..<?i] @ ?i # [Suc ?i..<LENGTH('a)]"
    using i upt_add_eq_append [of 0 ?i "LENGTH('a) - ?i"] upt_conv_Cons [OF i] by simp
  moreover have "\<forall>n \<in> set [0..<?i]. \<not> bit m n" by (auto dest: not_bit_below)
  ultimately show ?thesis
    using bit_low_index [OF assms] by (simp add: trailing_zeros_def takeWhile_append)
qed

lemma low_index_exp: "n < LENGTH('a) \<Longrightarrow> low_index (2 ^ n :: 'a::len word) = n"
  unfolding low_index_def by (intro Least_equality) (auto simp: bit_simps)

lemma trailing_zeros_exp [simp]: "n < LENGTH('a) \<Longrightarrow> trailing_zeros (2 ^ n :: 'a::len word) = n"
  by (simp add: trailing_zeros_eq low_index_exp exp_eq_zero_iff)

text \<open>The loop visits every set bit once, from the lowest up.\<close>

lemma for_each_bit_fold:
  "for_each_bit f m s = fold (\<lambda>n. f (2 ^ n)) (sorted_list_of_set (set_bits_of m)) s"
proof (induction f m s rule: for_each_bit.induct)
  case (1 f m s)
  show ?case
  proof (cases "m = 0")
    case True
    then show ?thesis by simp
  next
    case False
    then have "sorted_list_of_set (set_bits_of m)
        = low_index m # sorted_list_of_set (set_bits_of (drop_low m))"
      by (simp add: sorted_list_of_set_nonempty Min_set_bits_of set_bits_of_drop_low)
    with False 1 show ?thesis
      by (simp add: for_each_bit.simps [of f m s] low_bit_eq)
  qed
qed

text \<open>A loop that collects the bits satisfying a test.\<close>

lemma bit_for_each_collect:
  "bit (for_each_bit (\<lambda>b acc. if P b then acc OR b else acc) m acc) n
     \<longleftrightarrow> bit acc n \<or> (bit m n \<and> P (2 ^ n))"
proof (induction "\<lambda>b acc. if P b then acc OR b else acc" m acc rule: for_each_bit.induct)
  case (1 m acc)
  show ?case
  proof (cases "m = 0")
    case True
    then show ?thesis by simp
  next
    case False
    show ?thesis
      using 1 [OF False] bit_low_index [OF False]
      by (subst for_each_bit.simps)
        (auto simp: False low_bit_eq drop_low_eq bit_simps dest: bit_imp_le_length)
  qed
qed

section \<open>The lowest clear bit\<close>

text \<open>\<open>curr | curr.wrapping_add(1)\<close> sets the lowest clear bit of \<open>curr\<close>.\<close>

definition free_index :: "'a::len word \<Rightarrow> nat" where
  "free_index c = low_index (NOT c)"

lemma not_eq_0_iff: "NOT c = 0 \<longleftrightarrow> c = (- 1 :: 'a::len word)"
  by (metis bit.double_compl bit.compl_zero)

lemma free_index:
  fixes c :: "'a::len word"
  assumes "c \<noteq> - 1"
  shows "free_index c < LENGTH('a)" "\<not> bit c (free_index c)" "n < free_index c \<Longrightarrow> bit c n"
proof -
  have nz: "NOT c \<noteq> 0" using assms by (simp add: not_eq_0_iff)
  show l: "free_index c < LENGTH('a)"
    unfolding free_index_def by (rule low_index_less [OF nz])
  show "\<not> bit c (free_index c)"
    using bit_low_index [OF nz] l by (simp add: free_index_def bit_not_iff)
  assume "n < free_index c"
  then show "bit c n"
    using not_bit_below [of n "NOT c"] l by (simp add: free_index_def bit_not_iff)
qed

lemma bit_succ:
  fixes c :: "'a::len word"
  assumes "c \<noteq> - 1"
  shows "bit (c + 1) n \<longleftrightarrow> n < LENGTH('a) \<and>
    (if n < free_index c then False else if n = free_index c then True else bit c n)"
proof -
  have nz: "NOT c \<noteq> 0" using assms by (simp add: not_eq_0_iff)
  have "c + 1 = NOT (NOT c - 1)" by (simp add: not_eq_complement)
  then have "bit (c + 1) n \<longleftrightarrow> n < LENGTH('a) \<and> \<not> bit (NOT c - 1) n"
    by (simp add: bit_not_iff)
  then show ?thesis
    by (auto simp: bit_pred [OF nz] free_index_def bit_not_iff)
qed

lemma set_free_bit:
  fixes c :: "'a::len word"
  assumes "c \<noteq> - 1"
  shows "c OR (c + 1) = set_bit (free_index c) c"
    and "(c OR (c + 1)) XOR c = 2 ^ free_index c"
  by (rule bit_word_eqI; use free_index [OF assms] in \<open>auto simp: bit_simps bit_succ [OF assms]\<close>)+

lemma full_or_succ: "(c :: 'a::len word) OR (c + 1) = c \<longleftrightarrow> c = - 1"
proof
  assume *: "c OR (c + 1) = c"
  show "c = - 1"
  proof (rule ccontr)
    assume ne: "c \<noteq> - 1"
    have "bit (c OR (c + 1)) (free_index c)"
      using free_index(1) [OF ne] by (simp add: set_free_bit(1) [OF ne] bit_set_bit_iff)
    with * free_index(2) [OF ne] show False by simp
  qed
qed simp

section \<open>Compare-exchange loops\<close>

text \<open>
  A loop that loads a word, computes a new value and tries to swap it in. The
  schedule lists, for each attempt, the value the word has when the
  compare-exchange runs (other processes may have changed it since the load) and
  whether a weak compare-exchange fails spuriously; after a failure the loop
  loads that value. \<open>None\<close> is: the schedule ends with the loop still running.
  \<open>f v = Inr r\<close> is a return without a swap.
\<close>

fun cas_retry :: "('w \<Rightarrow> ('w \<times> 'r) + 'r) \<Rightarrow> ('w \<times> bool) list \<Rightarrow> 'w \<Rightarrow> ('w \<times> 'r) option" where
  "cas_retry f [] w = None"
| "cas_retry f ((w', spurious) # es) w =
     (case f w of
        Inr r \<Rightarrow> Some (w, r)
      | Inl (nw, r) \<Rightarrow> if w' = w \<and> \<not> spurious then Some (nw, r) else cas_retry f es w')"

lemma cas_retry_result:
  "cas_retry f es w = Some (w', r) \<Longrightarrow>
     (\<exists>v \<in> set (map fst es). f v = Inl (w', r)) \<or> w' \<in> set (w # map fst es) \<and> f w' = Inr r"
  by (induction f es w rule: cas_retry.induct) (fastforce split: sum.splits if_splits)+

text \<open>An attempt that nobody disturbs ends the loop.\<close>

lemma cas_retry_returns:
  "cas_retry f (es @ [(last (w # map fst es), False)]) w \<noteq> None"
proof (induction es arbitrary: w)
  case Nil
  then show ?case by (auto split: sum.splits)
next
  case (Cons e es)
  obtain w' sp where e: "e = (w', sp)" by fastforce
  have "last (w # map fst (e # es)) = last (w' # map fst es)" by (simp add: e)
  with Cons.IH [of w'] show ?case by (auto simp: e split: sum.splits)
qed

section \<open>Ring cursors\<close>

text \<open>\<open>(pos.wrapping_sub(since) as i32) >= 0\<close>: position \<open>pos\<close> is at or after \<open>since\<close>.\<close>

definition at_or_after :: "u32 \<Rightarrow> u32 \<Rightarrow> bool" where
  "at_or_after pos since \<longleftrightarrow> 0 \<le> sint (pos - since)"

lemma odd_div_iff: "(x::nat) < 2 * k \<Longrightarrow> odd (x div k) \<longleftrightarrow> k \<le> x"
proof (cases "k \<le> x")
  case True
  assume "x < 2 * k"
  with True have "x div k = 1"
    by (intro div_nat_eqI) auto
  with True show ?thesis by simp
qed simp

lemma at_or_after_iff: "at_or_after pos since \<longleftrightarrow> unat (pos - since) < 2 ^ 31"
proof -
  let ?d = "pos - since"
  have "0 \<le> sint ?d \<longleftrightarrow> \<not> bit ?d 31"
    by (simp add: sint_uint bit_unsigned_iff flip: not_less)
  also have "\<dots> \<longleftrightarrow> unat ?d < 2 ^ 31"
  proof -
    have "bit ?d 31 \<longleftrightarrow> bit (unat ?d) 31"
      by (simp only: bit_unsigned_iff) simp
    then have "bit ?d 31 \<longleftrightarrow> odd (unat ?d div 2 ^ 31)"
      by (simp only: bit_iff_odd)
    moreover have "unat ?d < 2 * 2 ^ 31"
      using unsigned_less [of ?d, where ?'a = nat] by simp
    ultimately show ?thesis by (simp only: odd_div_iff) (simp add: not_le)
  qed
  finally show ?thesis by (simp add: at_or_after_def)
qed

lemma at_or_after_of_nat:
  "S \<le> P \<Longrightarrow> at_or_after (of_nat P) (of_nat S) \<longleftrightarrow> (P - S) mod 2 ^ 32 < 2 ^ 31"
proof -
  assume "S \<le> P"
  then have "(of_nat P - of_nat S :: u32) = of_nat (P - S)" by (simp add: of_nat_diff)
  then show ?thesis
    unfolding at_or_after_iff by (simp only: unsigned_of_nat take_bit_eq_mod) simp
qed

lemma not_at_or_after_of_nat:
  assumes "P < S" "S \<le> P + 2 ^ 31"
  shows "\<not> at_or_after (of_nat P) (of_nat S)"
proof -
  have "(of_nat P - of_nat S :: u32) = - of_nat (S - P)" using assms(1) by (simp add: of_nat_diff)
  also have "\<dots> = of_nat (2 ^ 32 - (S - P))"
  proof -
    have "(of_nat (2 ^ 32) :: u32) = 0" by simp
    then show ?thesis using assms by (subst of_nat_diff) simp_all
  qed
  finally have "unat (of_nat P - of_nat S :: u32) = 2 ^ 32 - (S - P)"
    using assms by (simp only:) (intro unat_of_nat_small, simp)
  then show ?thesis unfolding at_or_after_iff using assms by simp
qed

section \<open>Step relations and their invariants\<close>

text \<open>
  The protocols of the crate are step relations over a shared state and the
  program counters of the threads. The contract of such a protocol is an
  invariant that holds at the start and that every step keeps; what every
  reachable state then satisfies is proved once here.
\<close>

locale invariant_system =
  fixes start :: 's
    and step :: "'s \<Rightarrow> 's \<Rightarrow> bool"
    and inv :: "'s \<Rightarrow> bool"
  assumes start_inv: "inv start"
    and step_inv: "inv s \<Longrightarrow> step s s' \<Longrightarrow> inv s'"
begin

lemma steps_inv: "rtranclp step s s' \<Longrightarrow> inv s \<Longrightarrow> inv s'"
  by (induction rule: rtranclp_induct) (auto intro: step_inv)

lemma reachable_inv: "rtranclp step start s \<Longrightarrow> inv s"
  using start_inv by (blast intro: steps_inv)

end

section \<open>Counting threads\<close>

text \<open>How many threads are at a program point of a kind, and how a move of one of them changes it.\<close>

definition threads_at :: "('p \<Rightarrow> bool) \<Rightarrow> (nat \<Rightarrow> 'p) \<Rightarrow> nat" where
  "threads_at P pcs = card {t. P (pcs t)}"

lemma threads_at_upd:
  assumes "finite {t. P (pcs t)}"
  shows "threads_at P (pcs(t := pc)) + (if P (pcs t) then 1 else 0) = threads_at P pcs + (if P pc then 1 else 0)"
proof -
  let ?A = "{u. P (pcs u)}"
  have f: "finite (?A - {t})" using assms by simp
  have new: "{u. P ((pcs(t := pc)) u)} = (if P pc then insert t (?A - {t}) else ?A - {t})" by auto
  have "card ?A = card (?A - {t}) + (if P (pcs t) then 1 else 0)"
  proof (cases "P (pcs t)")
    case True
    then show ?thesis using card_Suc_Diff1 [OF assms, of t] by simp
  qed simp
  moreover have "card {u. P ((pcs(t := pc)) u)} = card (?A - {t}) + (if P pc then 1 else 0)"
    unfolding new using f by (simp del: insert_Diff_single)
  ultimately show ?thesis unfolding threads_at_def by simp
qed

lemma finite_at_upd: "finite {t. P (pcs t)} \<Longrightarrow> finite {t. P ((pcs(u := pc)) t)}"
  by (rule finite_subset [of _ "insert u {t. P (pcs t)}"]) auto

lemma threads_at_pos: "finite {t. P (pcs t)} \<Longrightarrow> 0 < threads_at P pcs \<longleftrightarrow> (\<exists>t. P (pcs t))"
  by (auto simp: threads_at_def card_gt_0_iff)

section \<open>Components against an abstract specification\<close>

text \<open>
  A component that serves one request at a time is specified by an abstract
  state and what each request does to it and answers. When every request keeps
  the component's invariant and agrees with the specification, so does every
  sequence of requests.
\<close>

fun run_ops :: "('o \<Rightarrow> 's \<Rightarrow> 's \<times> 'r) \<Rightarrow> 'o list \<Rightarrow> 's \<Rightarrow> 's \<times> 'r list" where
  "run_ops step [] s = (s, [])"
| "run_ops step (x # xs) s =
     (case step x s of (s', r) \<Rightarrow> case run_ops step xs s' of (s'', rs) \<Rightarrow> (s'', r # rs))"

locale data_refinement =
  fixes ok :: "'s \<Rightarrow> bool"
    and abs :: "'s \<Rightarrow> 'a"
    and good :: "'o \<Rightarrow> bool"
    and cstep :: "'o \<Rightarrow> 's \<Rightarrow> 's \<times> 'r"
    and astep :: "'o \<Rightarrow> 'a \<Rightarrow> 'a \<times> 'r"
  assumes step_ok: "ok s \<Longrightarrow> good x \<Longrightarrow> ok (fst (cstep x s))"
    and step_abs: "ok s \<Longrightarrow> good x \<Longrightarrow> astep x (abs s) = (abs (fst (cstep x s)), snd (cstep x s))"
begin

lemma run_refines:
  "ok s \<Longrightarrow> list_all good xs \<Longrightarrow>
   ok (fst (run_ops cstep xs s))
   \<and> run_ops astep xs (abs s) = (abs (fst (run_ops cstep xs s)), snd (run_ops cstep xs s))"
proof (induction xs arbitrary: s)
  case (Cons x xs)
  obtain s' r where s': "cstep x s = (s', r)" by fastforce
  have "ok s'" "astep x (abs s) = (abs s', r)"
    using Cons.prems step_ok [of s x] step_abs [of s x] s' by simp_all
  then show ?case using Cons.IH [of s'] Cons.prems s' by (auto split: prod.splits)
qed simp

end

text \<open>The threads at a given program point after one thread moved.\<close>

lemma Collect_fun_upd_eq:
  "{u. (f(t := v)) u = c} = (if v = c then insert t {u. f u = c} else {u. f u = c} - {t})"
  by auto

lemma Collect_fun_upd_pred:
  "{u. P ((f(t := v)) u)} = (if P v then insert t {u. P (f u)} else {u. P (f u)} - {t})"
  by auto

end
