(* ===== verification/Locks.thy ===== *)
theory Locks
  imports Prelude
begin

text \<open>
  The in-memory locks of \<open>spin_lock.rs\<close> and \<open>rw_lock.rs\<close>, and the double-checked
  header construction of \<open>channel.rs\<close> (\<open>init_header\<close>) and \<open>circ.rs\<close>
  (\<open>BroadcastConnHead::init\<close>), which runs under the spin lock. Each is a step
  relation with one step per atomic access of one thread, so every interleaving
  of the threads is a run.
\<close>

section \<open>Adaptive back-off\<close>

datatype backoff = BusySpin | SpinHint | ThreadYield | SleepMs

definition adaptive_yield :: "u32 \<Rightarrow> backoff \<times> u32" where
  "adaptive_yield k =
     (if k < 4 then (BusySpin, k + 1)
      else if k < 16 then (SpinHint, k + 1)
      else if k < 32 then (ThreadYield, k + 1)
      else (SleepMs, k))"

primrec backoff_after :: "nat \<Rightarrow> u32 \<Rightarrow> u32" where
  "backoff_after 0 k = k"
| "backoff_after (Suc n) k = backoff_after n (snd (adaptive_yield k))"

lemma adaptive_yield_unat:
  "unat k \<le> 32 \<Longrightarrow> unat (snd (adaptive_yield k)) = min 32 (unat k + 1)"
  by (auto simp: adaptive_yield_def word_less_nat_alt unat_word_ariths)

lemma backoff_after_unat:
  "unat k \<le> 32 \<Longrightarrow> unat (backoff_after n k) = min 32 (unat k + n)"
  by (induction n arbitrary: k) (auto simp: adaptive_yield_unat)

section \<open>Spin lock\<close>

datatype spin_pc = SIdle | SSpin u32 | SHeld

record spin =
  spin_lc :: u32
  spin_pcs :: "nat \<Rightarrow> spin_pc"

definition spin_init :: spin where
  "spin_init = \<lparr>spin_lc = 0, spin_pcs = (\<lambda>_. SIdle)\<rparr>"

text \<open>
  \<open>SpinLock::lock\<close>: \<open>swap(1)\<close> until the old value is 0, backing off in between;
  \<open>SpinLock::unlock\<close>: store 0.
\<close>

inductive spin_step :: "spin \<Rightarrow> spin \<Rightarrow> bool" where
  spin_start: "spin_pcs s t = SIdle \<Longrightarrow>
     spin_step s (s\<lparr>spin_pcs := (spin_pcs s)(t := SSpin 0)\<rparr>)"
| spin_swap: "spin_pcs s t = SSpin k \<Longrightarrow>
     spin_step s (s\<lparr>spin_lc := 1,
       spin_pcs := (spin_pcs s)(t := (if spin_lc s \<noteq> 0 then SSpin (snd (adaptive_yield k)) else SHeld))\<rparr>)"
| spin_unlock: "spin_pcs s t = SHeld \<Longrightarrow>
     spin_step s (s\<lparr>spin_lc := 0, spin_pcs := (spin_pcs s)(t := SIdle)\<rparr>)"

definition spin_holders :: "spin \<Rightarrow> nat set" where
  "spin_holders s = {t. spin_pcs s t = SHeld}"

lemma spin_holders_simps [simp]:
  "spin_holders (s\<lparr>spin_lc := v\<rparr>) = spin_holders s"
  "spin_holders (s'\<lparr>spin_pcs := (spin_pcs s)(t := p)\<rparr>)
     = (if p = SHeld then insert t (spin_holders s) else spin_holders s - {t})"
  by (auto simp: spin_holders_def)

lemma spin_holders_minus: "spin_pcs s t \<noteq> SHeld \<Longrightarrow> spin_holders s - {t} = spin_holders s"
  by (auto simp: spin_holders_def)

definition spin_inv :: "spin \<Rightarrow> bool" where
  "spin_inv s \<longleftrightarrow> (spin_lc s = 0 \<and> spin_holders s = {}) \<or> (spin_lc s = 1 \<and> (\<exists>t. spin_holders s = {t}))"

lemma spin_inv_init: "spin_inv spin_init"
  by (simp add: spin_inv_def spin_init_def spin_holders_def)

lemma spin_step_inv: "spin_inv s \<Longrightarrow> spin_step s s' \<Longrightarrow> spin_inv s'"
proof (erule spin_step.cases, goal_cases)
  case (3 s t)
  then have "t \<in> spin_holders s" by (simp add: spin_holders_def)
  with 3 have "spin_holders s = {t}" by (auto simp: spin_inv_def)
  with 3 show ?case by (simp add: spin_inv_def)
qed (auto simp: spin_inv_def spin_holders_minus)

interpretation spin: invariant_system spin_init spin_step spin_inv
  by unfold_locales (blast intro: spin_inv_init spin_step_inv)+

lemma spin_free_swap_acquires:
  assumes "spin_inv s" "spin_holders s = {}" "spin_pcs s t = SSpin k"
  shows "\<exists>s'. spin_step s s' \<and> spin_holders s' = {t}"
proof -
  have "spin_lc s = 0" using assms by (auto simp: spin_inv_def)
  then have "spin_step s (s\<lparr>spin_lc := 1, spin_pcs := (spin_pcs s)(t := SHeld)\<rparr>)"
    using spin_swap [OF assms(3)] by simp
  moreover have "spin_holders (s\<lparr>spin_lc := 1, spin_pcs := (spin_pcs s)(t := SHeld)\<rparr>) = {t}"
    using assms(2) by simp
  ultimately show ?thesis by blast
qed

section \<open>Read-write lock\<close>

definition W_MASK :: u32 where "W_MASK = 0x7FFFFFFF"
definition W_FLAG :: u32 where "W_FLAG = W_MASK + 1"

datatype rw_pc = RwIdle | WTry u32 | WDrain u32 | WHeld | RTry u32 u32 | RHeld

record rw =
  rw_lc :: u32
  rw_pcs :: "nat \<Rightarrow> rw_pc"

definition rw_init :: rw where
  "rw_init = \<lparr>rw_lc = 0, rw_pcs = (\<lambda>_. RwIdle)\<rparr>"

text \<open>
  One step per atomic access of \<open>RwLock::lock\<close>, \<open>unlock\<close>, \<open>lock_shared\<close> and
  \<open>unlock_shared\<close>, by one of \<open>n\<close> threads. The state \<open>WTry\<close> is before the
  \<open>fetch_or\<close>, \<open>WDrain\<close> in the loop that waits for readers, \<open>RTry old\<close> in the
  reader loop with the value \<open>old\<close> last loaded. A weak compare-exchange may fail
  although the value matches.
\<close>

inductive rw_step :: "nat \<Rightarrow> rw \<Rightarrow> rw \<Rightarrow> bool" for n :: nat where
  rw_lock_start: "t < n \<Longrightarrow> rw_pcs s t = RwIdle \<Longrightarrow>
     rw_step n s (s\<lparr>rw_pcs := (rw_pcs s)(t := WTry 0)\<rparr>)"
| rw_fetch_or: "t < n \<Longrightarrow> rw_pcs s t = WTry k \<Longrightarrow> old = rw_lc s \<Longrightarrow>
     rw_step n s (s\<lparr>rw_lc := old OR W_FLAG,
       rw_pcs := (rw_pcs s)(t := (if old = 0 then WHeld
                                  else if old AND W_FLAG = 0 then WDrain 0
                                  else WTry (snd (adaptive_yield k))))\<rparr>)"
| rw_drain: "t < n \<Longrightarrow> rw_pcs s t = WDrain k \<Longrightarrow>
     rw_step n s (s\<lparr>rw_pcs := (rw_pcs s)(t :=
       (if rw_lc s AND W_MASK \<noteq> 0 then WDrain (snd (adaptive_yield k)) else WHeld))\<rparr>)"
| rw_unlock: "t < n \<Longrightarrow> rw_pcs s t = WHeld \<Longrightarrow>
     rw_step n s (s\<lparr>rw_lc := 0, rw_pcs := (rw_pcs s)(t := RwIdle)\<rparr>)"
| rw_shared_start: "t < n \<Longrightarrow> rw_pcs s t = RwIdle \<Longrightarrow>
     rw_step n s (s\<lparr>rw_pcs := (rw_pcs s)(t := RTry (rw_lc s) 0)\<rparr>)"
| rw_shared_spin: "t < n \<Longrightarrow> rw_pcs s t = RTry old k \<Longrightarrow> old AND W_FLAG \<noteq> 0 \<Longrightarrow>
     rw_step n s (s\<lparr>rw_pcs := (rw_pcs s)(t := RTry (rw_lc s) (snd (adaptive_yield k)))\<rparr>)"
| rw_shared_cas: "t < n \<Longrightarrow> rw_pcs s t = RTry old k \<Longrightarrow> old AND W_FLAG = 0 \<Longrightarrow> rw_lc s = old \<Longrightarrow>
     rw_step n s (s\<lparr>rw_lc := old + 1, rw_pcs := (rw_pcs s)(t := RHeld)\<rparr>)"
| rw_shared_fail: "t < n \<Longrightarrow> rw_pcs s t = RTry old k \<Longrightarrow> old AND W_FLAG = 0 \<Longrightarrow>
     rw_step n s (s\<lparr>rw_pcs := (rw_pcs s)(t := RTry (rw_lc s) k)\<rparr>)"
| rw_unlock_shared: "t < n \<Longrightarrow> rw_pcs s t = RHeld \<Longrightarrow>
     rw_step n s (s\<lparr>rw_lc := rw_lc s - 1, rw_pcs := (rw_pcs s)(t := RwIdle)\<rparr>)"

definition readers :: "rw \<Rightarrow> nat set" where
  "readers s = {t. rw_pcs s t = RHeld}"

definition writers :: "rw \<Rightarrow> nat set" where
  "writers s = {t. rw_pcs s t = WHeld \<or> (\<exists>k. rw_pcs s t = WDrain k)}"

text \<open>
  The word packs the reader count and the writer flag; at most one thread is
  past the \<open>fetch_or\<close>; a thread that holds the write lock excludes every reader.
\<close>

definition rw_inv :: "nat \<Rightarrow> rw \<Rightarrow> bool" where
  "rw_inv n s \<longleftrightarrow> readers s \<subseteq> {..<n}
     \<and> (\<forall>t u. t \<in> writers s \<longrightarrow> u \<in> writers s \<longrightarrow> t = u)
     \<and> (\<forall>t. rw_pcs s t = WHeld \<longrightarrow> readers s = {})
     \<and> rw_lc s = of_nat (card (readers s)) OR (if writers s = {} then 0 else W_FLAG)"

lemma bit_nat_small: "c < 2 ^ k \<Longrightarrow> bit (c::nat) n \<Longrightarrow> n < k"
proof (rule ccontr)
  assume c: "c < 2 ^ k" and b: "bit c n" and "\<not> n < k"
  then have "(2::nat) ^ k \<le> 2 ^ n" by (intro power_increasing) auto
  with c have "c < 2 ^ n" by linarith
  then have "c div 2 ^ n = 0" by simp
  with b show False by (simp add: bit_iff_odd)
qed

lemma W_FLAG_eq: "W_FLAG = 2 ^ 31" and W_MASK_eq: "W_MASK = mask 31"
  by (simp_all add: W_FLAG_def W_MASK_def mask_eq_exp_minus_1)

lemma W_bits: "bit W_FLAG n \<longleftrightarrow> n = 31" "bit W_MASK n \<longleftrightarrow> n < 31"
  unfolding W_FLAG_eq W_MASK_eq by (auto simp only: bit_exp_iff bit_mask_iff) auto

lemma rw_masks:
  assumes "c < 2 ^ 31"
  shows "(of_nat c OR (if b then 0 else W_FLAG)) AND W_MASK = (of_nat c :: u32)"
    and "((of_nat c :: u32) OR (if b then 0 else W_FLAG)) AND W_FLAG = (if b then 0 else W_FLAG)"
    and "(of_nat c :: u32) OR (if b then 0 else W_FLAG) = 0 \<longleftrightarrow> c = 0 \<and> b"
  subgoal
    by (rule bit_word_eqI) (auto simp: bit_simps W_bits dest: bit_nat_small [OF assms])
  subgoal
    by (rule bit_word_eqI) (auto simp: bit_simps W_bits dest: bit_nat_small [OF assms])
  subgoal
    using assms by (auto simp: or_eq_0_iff word_of_nat_eq_0_iff W_FLAG_def W_MASK_def dest: dvd_imp_le)
  done

lemma readers_simps [simp]:
  "readers (s\<lparr>rw_lc := v\<rparr>) = readers s"
  "readers (s'\<lparr>rw_pcs := (rw_pcs s)(t := p)\<rparr>)
     = (if p = RHeld then insert t (readers s) else readers s - {t})"
  by (auto simp: readers_def)

definition writer_pc :: "rw_pc \<Rightarrow> bool" where
  "writer_pc p \<longleftrightarrow> p = WHeld \<or> (\<exists>k. p = WDrain k)"

lemma writer_pc_simps [simp]:
  "writer_pc WHeld" "writer_pc (WDrain k)" "\<not> writer_pc RwIdle" "\<not> writer_pc (WTry k)"
  "\<not> writer_pc (RTry old k)" "\<not> writer_pc RHeld"
  by (auto simp: writer_pc_def)

lemma writers_simps [simp]:
  "writers (s\<lparr>rw_lc := v\<rparr>) = writers s"
  "writers (s'\<lparr>rw_pcs := (rw_pcs s)(t := p)\<rparr>)
     = (if writer_pc p then insert t (writers s) else writers s - {t})"
  by (auto simp: writers_def writer_pc_def)


lemma rw_word_plus: "c < 2 ^ 31 \<Longrightarrow> of_nat c OR W_FLAG = of_nat c + W_FLAG"
  using bit_nat_small [of c 31 31]
  by (intro disjunctive_add [symmetric]) (auto simp: bit_simps W_bits)

lemma rw_invD:
  assumes "rw_inv n s" "n < 2 ^ 31"
  shows "finite (readers s)" "card (readers s) < 2 ^ 31"
    "rw_lc s AND W_MASK = of_nat (card (readers s))"
    "rw_lc s AND W_FLAG = 0 \<longleftrightarrow> writers s = {}"
    "rw_lc s = 0 \<longleftrightarrow> readers s = {} \<and> writers s = {}"
    "rw_lc s AND W_MASK = 0 \<longleftrightarrow> readers s = {}"
proof -
  have sub: "readers s \<subseteq> {..<n}" and
    lc: "rw_lc s = of_nat (card (readers s)) OR (if writers s = {} then 0 else W_FLAG)"
    using assms(1) by (simp_all add: rw_inv_def)
  show fin: "finite (readers s)" using sub by (rule finite_subset) simp
  have "card (readers s) \<le> n" using card_mono [OF _ sub] by simp
  with assms(2) show c: "card (readers s) < 2 ^ 31" by simp
  show m: "rw_lc s AND W_MASK = of_nat (card (readers s))"
    unfolding lc by (rule rw_masks(1) [OF c])
  have "W_FLAG \<noteq> 0" by (simp add: W_FLAG_def W_MASK_def)
  then show "rw_lc s AND W_FLAG = 0 \<longleftrightarrow> writers s = {}"
    unfolding lc rw_masks(2) [OF c] by simp
  show "rw_lc s = 0 \<longleftrightarrow> readers s = {} \<and> writers s = {}"
    unfolding lc rw_masks(3) [OF c] using fin by simp
  have "(of_nat (card (readers s)) :: u32) = 0 \<longleftrightarrow> card (readers s) = 0"
    using rw_masks(3) [OF c, of True] by simp
  then show "rw_lc s AND W_MASK = 0 \<longleftrightarrow> readers s = {}"
    unfolding m using fin by simp
qed

lemma rw_minus: 
  "rw_pcs s t \<noteq> RHeld \<Longrightarrow> readers s - {t} = readers s"
  "\<not> writer_pc (rw_pcs s t) \<Longrightarrow> writers s - {t} = writers s"
  by (auto simp: readers_def writers_def writer_pc_def)

lemma rw_step_inv:
  assumes inv: "rw_inv n s" and n: "n < 2 ^ 31" and "rw_step n s s'"
  shows "rw_inv n s'"
  using \<open>rw_step n s s'\<close>
proof cases
  case (rw_fetch_or t k old)
  then show ?thesis
    using inv rw_invD(4,5) [OF inv n]
    by (auto simp: rw_inv_def rw_minus ac_simps split: if_splits)
next
  case (rw_drain t k)
  then have "t \<in> writers s" by (auto simp: writers_def)
  with rw_drain show ?thesis
    using inv rw_invD(6) [OF inv n] by (auto simp: rw_inv_def rw_minus insert_absorb)
next
  case (rw_unlock t)
  then have "writers s = {t}" using inv by (auto simp: rw_inv_def writers_def)
  with rw_unlock show ?thesis using inv by (auto simp: rw_inv_def)
next
  case (rw_shared_cas t old k)
  then have "writers s = {}" "t \<notin> readers s"
    using rw_invD(4) [OF inv n] by (auto simp: readers_def)
  with rw_shared_cas show ?thesis
    using inv rw_invD(1) [OF inv n]
    by (auto simp: rw_inv_def rw_minus writers_def)
next
  case (rw_unlock_shared t)
  let ?c = "card (readers s)"
  have t: "t \<in> readers s" "t \<notin> writers s"
    using rw_unlock_shared by (auto simp: readers_def writers_def)
  then have c: "card (readers s - {t}) = ?c - 1" "0 < ?c"
    using rw_invD(1) [OF inv n] by (auto simp: card_gt_0_iff)
  have one: "(of_nat (?c - 1) :: u32) = of_nat ?c - 1"
    using c(2) by (simp add: of_nat_diff)
  have small: "?c - 1 < 2 ^ 31" "?c < 2 ^ 31" using rw_invD(2) [OF inv n] by auto
  have "rw_lc s - 1 = of_nat (?c - 1) OR (if writers s = {} then 0 else W_FLAG)"
    using inv rw_word_plus [OF small(1)] rw_word_plus [OF small(2)] one
    by (simp add: rw_inv_def)
  with rw_unlock_shared t c(1) show ?thesis
    using inv by (auto simp: rw_inv_def)
qed (use inv in \<open>auto simp: rw_inv_def rw_minus\<close>)

lemma rw_inv_init: "rw_inv n rw_init"
  by (simp add: rw_inv_def rw_init_def readers_def writers_def)

interpretation rw: invariant_system rw_init "\<lambda>s s'. n < 2 ^ 31 \<and> rw_step n s s'" "rw_inv n" for n
  by unfold_locales (auto intro: rw_inv_init rw_step_inv)

section \<open>Double-checked header construction\<close>

text \<open>
  \<open>init_header\<close> runs in every process that opens a ring; \<open>BroadcastConnHead::init\<close>
  is the same protocol. A thread first looks at \<open>constructed\<close>; if it is unset the
  thread takes the spin lock, looks again, zeroes the connection mask, publishes
  \<open>constructed\<close> and unlocks. A thread that has returned may change the mask
  (connect and disconnect), here to any value.
\<close>

datatype init_pc = IStart | ISpin u32 | ICheck | IZero | IPublish | IUnlock | IDone

record header_init =
  hi_connections :: u32
  hi_lc :: u32
  hi_constructed :: u8
  hi_pcs :: "nat \<Rightarrow> init_pc"

definition header_zero :: header_init where
  "header_zero = \<lparr>hi_connections = 0, hi_lc = 0, hi_constructed = 0, hi_pcs = (\<lambda>_. IStart)\<rparr>"

definition init_header_step :: "header_init \<Rightarrow> nat \<Rightarrow> header_init" where
  "init_header_step s t = (case hi_pcs s t of
     IStart \<Rightarrow> s\<lparr>hi_pcs := (hi_pcs s)(t := (if hi_constructed s \<noteq> 0 then IDone else ISpin 0))\<rparr>
   | ISpin k \<Rightarrow> s\<lparr>hi_lc := 1, hi_pcs := (hi_pcs s)(t :=
       (if hi_lc s \<noteq> 0 then ISpin (snd (adaptive_yield k)) else ICheck))\<rparr>
   | ICheck \<Rightarrow> s\<lparr>hi_pcs := (hi_pcs s)(t := (if hi_constructed s = 0 then IZero else IUnlock))\<rparr>
   | IZero \<Rightarrow> s\<lparr>hi_connections := 0, hi_pcs := (hi_pcs s)(t := IPublish)\<rparr>
   | IPublish \<Rightarrow> s\<lparr>hi_constructed := 1, hi_pcs := (hi_pcs s)(t := IUnlock)\<rparr>
   | IUnlock \<Rightarrow> s\<lparr>hi_lc := 0, hi_pcs := (hi_pcs s)(t := IDone)\<rparr>
   | IDone \<Rightarrow> s)"

inductive header_step :: "header_init \<Rightarrow> header_init \<Rightarrow> bool" where
  header_init_move: "header_step s (init_header_step s t)"
| header_connect: "hi_pcs s t = IDone \<Longrightarrow> header_step s (s\<lparr>hi_connections := cc\<rparr>)"

definition init_holder_pc :: "init_pc \<Rightarrow> bool" where
  "init_holder_pc p \<longleftrightarrow> p \<in> {ICheck, IZero, IPublish, IUnlock}"

definition init_holders :: "header_init \<Rightarrow> nat set" where
  "init_holders s = {t. init_holder_pc (hi_pcs s t)}"

lemma init_holder_pc_simps [simp]:
  "init_holder_pc ICheck" "init_holder_pc IZero" "init_holder_pc IPublish" "init_holder_pc IUnlock"
  "\<not> init_holder_pc IStart" "\<not> init_holder_pc (ISpin k)" "\<not> init_holder_pc IDone"
  by (simp_all add: init_holder_pc_def)

lemma init_holders_simps [simp]:
  "init_holders (s\<lparr>hi_lc := v\<rparr>) = init_holders s"
  "init_holders (s\<lparr>hi_connections := v\<rparr>) = init_holders s"
  "init_holders (s\<lparr>hi_constructed := c\<rparr>) = init_holders s"
  "init_holders (s'\<lparr>hi_pcs := (hi_pcs s)(t := p)\<rparr>)
     = (if init_holder_pc p then insert t (init_holders s) else init_holders s - {t})"
  by (auto simp: init_holders_def)

definition header_inv :: "header_init \<Rightarrow> bool" where
  "header_inv s \<longleftrightarrow>
     (if hi_lc s = 0 then init_holders s = {} else \<exists>t. init_holders s = {t})
   \<and> (\<forall>t. hi_pcs s t = IZero \<or> hi_pcs s t = IPublish \<longrightarrow> hi_constructed s = 0)
   \<and> (\<forall>t. hi_pcs s t = IUnlock \<or> hi_pcs s t = IDone \<longrightarrow> hi_constructed s \<noteq> 0)"

lemma header_inv_zero: "header_inv header_zero"
  by (simp add: header_inv_def header_zero_def init_holders_def)

lemma init_holders_sole:
  assumes "header_inv s" "init_holder_pc (hi_pcs s t)"
  shows "init_holders s = {t} \<and> hi_lc s \<noteq> 0"
proof -
  have "t \<in> init_holders s" using assms(2) by (simp add: init_holders_def)
  then show ?thesis using assms(1) by (auto simp: header_inv_def split: if_splits)
qed

lemma init_header_step_inv:
  assumes inv: "header_inv s"
  shows "header_inv (init_header_step s t)"
proof (cases "init_holder_pc (hi_pcs s t)")
  case True
  then have sole: "init_holders s = {t}" "hi_lc s \<noteq> 0"
    using init_holders_sole [OF inv] by auto
  then have others: "u \<noteq> t \<Longrightarrow> \<not> init_holder_pc (hi_pcs s u)" for u
    by (auto simp: init_holders_def)
  have others': "u \<noteq> t \<Longrightarrow> hi_pcs s u \<noteq> IZero \<and> hi_pcs s u \<noteq> IPublish \<and> hi_pcs s u \<noteq> IUnlock" for u
    using others [of u] by auto
  show ?thesis
    using True inv sole others'
    by (cases "hi_pcs s t") (auto simp: header_inv_def init_header_step_def)
next
  case False
  then have out: "init_holders s - {t} = init_holders s" by (auto simp: init_holders_def)
  show ?thesis
    using False inv out
    by (cases "hi_pcs s t") (auto simp: header_inv_def init_header_step_def split: if_splits)
qed

lemma header_step_inv: "header_inv s \<Longrightarrow> header_step s s' \<Longrightarrow> header_inv s'"
  by (erule header_step.cases) (simp_all add: init_header_step_inv, auto simp: header_inv_def)

interpretation header: invariant_system header_zero header_step header_inv
  by unfold_locales (blast intro: header_inv_zero header_step_inv)+

text \<open>
  Spin lock: in every state reachable by any interleaving of \<open>lock\<close> and
  \<open>unlock\<close> calls, at most one thread is between its \<open>lock\<close> and its \<open>unlock\<close>.
\<close>

theorem spin_lock_mutual_exclusion:
  assumes "rtranclp spin_step spin_init s" "spin_pcs s t = SHeld" "spin_pcs s u = SHeld"
  shows "t = u"
proof -
  have "t \<in> spin_holders s" "u \<in> spin_holders s"
    using assms by (simp_all add: spin_holders_def)
  then show ?thesis
    using spin.reachable_inv [OF assms(1)] by (auto simp: spin_inv_def)
qed

theorem spin_lock_mutual_exclusion_witness:
  "\<exists>s. rtranclp spin_step spin_init s \<and> spin_pcs s 0 = SHeld \<and> spin_holders s = {0}"
proof -
  let ?s1 = "spin_init\<lparr>spin_pcs := (spin_pcs spin_init)(0 := SSpin 0)\<rparr>"
  let ?s2 = "?s1\<lparr>spin_lc := 1, spin_pcs := (spin_pcs ?s1)(0 := SHeld)\<rparr>"
  have "spin_step spin_init ?s1" by (rule spin_start) (simp add: spin_init_def)
  moreover have "spin_step ?s1 ?s2"
    using spin_swap [of ?s1 0 0] by (simp add: spin_init_def)
  ultimately have run: "rtranclp spin_step spin_init ?s2" by (rule rtranclp.rtrancl_into_rtrancl [OF r_into_rtranclp])
  have held: "spin_pcs ?s2 0 = SHeld" by simp
  have "u = 0" if "spin_pcs ?s2 u = SHeld" for u
    using spin_lock_mutual_exclusion [OF run held that] by (rule sym)
  then have "spin_holders ?s2 = {0}" using held unfolding spin_holders_def by blast
  with run held show ?thesis by (intro exI [of _ ?s2] conjI)
qed

text \<open>
  Read-write lock: with fewer than \<open>2^31\<close> threads, in every reachable state a
  thread that holds the write lock is the only holder: no other writer holds it
  and no reader does. The lock word is then exactly the writer flag.
\<close>

theorem rw_lock_exclusion:
  assumes "n < 2 ^ 31" "rtranclp (rw_step n) rw_init s" "rw_pcs s t = WHeld"
  shows "rw_lc s = W_FLAG \<and> (\<forall>u. u \<noteq> t \<longrightarrow> rw_pcs s u \<noteq> WHeld \<and> rw_pcs s u \<noteq> RHeld)"
proof -
  have "rtranclp (\<lambda>s s'. n < 2 ^ 31 \<and> rw_step n s s') rw_init s"
    using assms(1,2) by (simp add: rtranclp_mono [THEN predicate2D])
  then have inv: "rw_inv n s" by (rule rw.reachable_inv)
  have "t \<in> writers s" "readers s = {}"
    using assms(3) inv by (auto simp: writers_def rw_inv_def)
  then show ?thesis
    using inv by (auto simp: rw_inv_def writers_def readers_def)
qed

theorem rw_lock_exclusion_witness:
  "\<exists>s. rtranclp (rw_step 2) rw_init s \<and> rw_pcs s 0 = WHeld \<and> rw_lc s = W_FLAG \<and> rw_pcs s 1 \<noteq> RHeld"
proof -
  let ?s1 = "rw_init\<lparr>rw_pcs := (rw_pcs rw_init)(0 := WTry 0)\<rparr>"
  let ?s2 = "?s1\<lparr>rw_lc := 0 OR W_FLAG, rw_pcs := (rw_pcs ?s1)(0 := WHeld)\<rparr>"
  have "rw_step 2 rw_init ?s1" by (rule rw_lock_start) (simp_all add: rw_init_def)
  moreover have "rw_step 2 ?s1 ?s2"
    using rw_fetch_or [of 0 2 ?s1 0 0] by (simp add: rw_init_def)
  ultimately have run: "rtranclp (rw_step 2) rw_init ?s2" by (rule rtranclp.rtrancl_into_rtrancl [OF r_into_rtranclp])
  have held: "rw_pcs ?s2 0 = WHeld" by simp
  show ?thesis
    using run held rw_lock_exclusion [OF _ run held] by (intro exI [of _ ?s2]) auto
qed

text \<open>
  Header construction: once some process has returned from \<open>init_header\<close>, no
  step of \<open>init_header\<close> by any process changes the connection mask, so a bit that
  a connected receiver has set is never wiped by a late constructor.
\<close>

theorem init_header_keeps_connections:
  assumes "rtranclp header_step header_zero s" "hi_pcs s u = IDone"
  shows "hi_connections (init_header_step s t) = hi_connections s
    \<and> hi_constructed (init_header_step s t) \<noteq> 0"
proof -
  have "header_inv s" using assms(1) by (rule header.reachable_inv)
  with assms(2) show ?thesis
    by (cases "hi_pcs s t") (auto simp: header_inv_def init_header_step_def)
qed

lemma header_run: "rtranclp header_step s (foldl init_header_step s ts)"
proof (induction ts arbitrary: s)
  case (Cons t ts)
  show ?case
    using converse_rtranclp_into_rtranclp [of header_step, OF header_init_move Cons.IH] by simp
qed simp

theorem init_header_keeps_connections_witness:
  "let s = (foldl init_header_step header_zero [0, 1, 0, 0, 0, 0, 0])\<lparr>hi_connections := 5\<rparr>
   in rtranclp header_step header_zero s \<and> hi_pcs s 0 = IDone \<and> hi_pcs s 1 = ISpin 0
      \<and> hi_connections (init_header_step s 1) = 5"
proof -
  let ?r = "foldl init_header_step header_zero [0, 1, 0, 0, 0, 0, 0]"
  have pcs: "hi_pcs ?r 0 = IDone" "hi_pcs ?r 1 = ISpin 0"
    by (simp_all add: header_zero_def init_header_step_def)
  have run: "rtranclp header_step header_zero (?r\<lparr>hi_connections := 5\<rparr>)"
    using header_run [of header_zero "[0, 1, 0, 0, 0, 0, 0]"] header_connect [OF pcs(1)]
    by (rule rtranclp.rtrancl_into_rtrancl)
  have d: "hi_pcs (?r\<lparr>hi_connections := 5\<rparr>) 0 = IDone" using pcs by simp
  show ?thesis
    using run d pcs init_header_keeps_connections [OF run d, of 1]
    by (simp add: Let_def)
qed

end
