(* ===== verification/Abi.thy ===== *)
theory Abi
  imports Prelude
begin

text \<open>
  The generated ABI constants of \<open>abi_generated.rs\<close> that the transport uses. Some
  of them depend on the alignment class of the target: 8 bytes on Apple arm64
  and MSVC, 16 bytes on x86-64 and Linux aarch64.
\<close>

datatype align_class = Align8 | Align16

definition data_length :: nat where "data_length = 64"
definition ring_size :: nat where "ring_size = 256"
definition large_msg_align :: nat where "large_msg_align = 1024"
definition large_msg_cache :: nat where "large_msg_cache = 32"

fun chunk_header_size :: "align_class \<Rightarrow> nat" where
  "chunk_header_size Align8 = 8"
| "chunk_header_size Align16 = 16"

definition route_ep_mask :: u64 where "route_ep_mask = 0x00000000ffffffff"
definition route_ep_incr :: u64 where "route_ep_incr = 0x0000000100000000"
definition chan_rc_mask :: u64 where "chan_rc_mask = 0x00000000ffffffff"
definition chan_ep_mask :: u64 where "chan_ep_mask = 0x00ffffffffffffff"
definition chan_ep_incr :: u64 where "chan_ep_incr = 0x0100000000000000"
definition chan_ic_mask :: u64 where "chan_ic_mask = 0xff000000ffffffff"
definition chan_ic_incr :: u64 where "chan_ic_incr = 0x0000000100000000"

definition msg_t_size :: nat where "msg_t_size = 80"
definition msg_t_cc_id_off :: nat where "msg_t_cc_id_off = 0"
definition msg_t_id_off :: nat where "msg_t_id_off = 4"
definition msg_t_remain_off :: nat where "msg_t_remain_off = 8"
definition msg_t_storage_off :: nat where "msg_t_storage_off = 12"
definition msg_t_payload_off :: nat where "msg_t_payload_off = 16"

lemmas msg_t_layout = msg_t_size_def msg_t_cc_id_off_def msg_t_id_off_def msg_t_remain_off_def
  msg_t_storage_off_def msg_t_payload_off_def

definition ring_header_size :: nat where "ring_header_size = 192"

fun route_elem_size :: "align_class \<Rightarrow> nat" where
  "route_elem_size Align8 = 88"
| "route_elem_size Align16 = 96"

definition channel_elem_size :: nat where "channel_elem_size = 96"

fun route_ring_size :: "align_class \<Rightarrow> nat" where
  "route_ring_size Align8 = 22784"
| "route_ring_size Align16 = 24832"

fun route_ring_sender_owner_off :: "align_class \<Rightarrow> nat" where
  "route_ring_sender_owner_off Align8 = 22720"
| "route_ring_sender_owner_off Align16 = 24768"

definition channel_ring_size :: nat where "channel_ring_size = 24832"
definition chunk_info_size :: nat where "chunk_info_size = 40"
definition liveness_slot_size :: nat where "liveness_slot_size = 16"

definition sipc_version :: u8 where "sipc_version = 1"
definition sipc_header_size :: nat where "sipc_header_size = 19"
definition sipc_header_version_off :: nat where "sipc_header_version_off = 4"
definition sipc_header_alg_id_off :: nat where "sipc_header_alg_id_off = 5"
definition sipc_header_key_id_off :: nat where "sipc_header_key_id_off = 7"
definition sipc_header_nonce_size_off :: nat where "sipc_header_nonce_size_off = 11"
definition sipc_header_tag_size_off :: nat where "sipc_header_tag_size_off = 13"
definition sipc_header_ct_size_off :: nat where "sipc_header_ct_size_off = 15"

lemmas sipc_layout = sipc_version_def sipc_header_size_def sipc_header_version_off_def
  sipc_header_alg_id_off_def sipc_header_key_id_off_def sipc_header_nonce_size_off_def
  sipc_header_tag_size_off_def sipc_header_ct_size_off_def

definition syncabi_magic :: u32 where "syncabi_magic = 1279873857"
definition syncabi_backend_linux_a0 :: u32 where "syncabi_backend_linux_a0 = 5"
definition syncabi_backend_ulock :: u32 where "syncabi_backend_ulock = 2"
definition syncabi_backend_win32 :: u32 where "syncabi_backend_win32 = 4"
definition syncabi_backend_posix_pthread :: u32 where "syncabi_backend_posix_pthread = 1"

definition syncabi_backend_apple_mach :: u32 where "syncabi_backend_apple_mach = 3"
definition sync_abi_suffix_mutex :: string where
  "sync_abi_suffix_mutex = ''__thoth_ipc_sync_abi_mutex''"
definition sync_abi_suffix_condition :: string where
  "sync_abi_suffix_condition = ''__thoth_ipc_sync_abi_condition''"
definition syncabi_stamp_size :: nat where "syncabi_stamp_size = 24"
definition ulock_mutex_size :: nat where "ulock_mutex_size = 8"
definition ulock_cond_size :: nat where "ulock_cond_size = 8"
definition a0_mtx_size :: nat where "a0_mtx_size = 24"
definition a0_cnd_size :: nat where "a0_cnd_size = 4"

definition sipc_magic :: string where "sipc_magic = ''SIPC''"

text \<open>The object names every port must build for prefix \<open>""\<close> and channel \<open>"xchan"\<close>.\<close>

fun name_golden_ring :: "align_class \<Rightarrow> string" where
  "name_golden_ring Align8 = ''__THOTH_SHM__QU_CONN__xchan__64__8''"
| "name_golden_ring Align16 = ''__THOTH_SHM__QU_CONN__xchan__64__16''"

fun name_golden_ring_posix :: "align_class \<Rightarrow> string" where
  "name_golden_ring_posix Align8 = ''/__THOTH_SHM___7d090bf7fa85c547''"
| "name_golden_ring_posix Align16 = ''/__THOTH_SHM__QU_CONN__xchan__64__16''"

definition name_golden_cc_id :: string where "name_golden_cc_id = ''__THOTH_SHM__CA_CONN__''"
definition name_golden_msg_id :: string where "name_golden_msg_id = ''__THOTH_SHM__AC_CONN__xchan''"
definition name_golden_liveness :: string where "name_golden_liveness = ''__THOTH_SHM__LV_CONN__xchan''"
definition name_golden_chunk :: string where "name_golden_chunk = ''__THOTH_SHM__CHUNK_INFO__1024''"
definition notify_hash_xchan :: string where "notify_hash_xchan = ''098e889ce378ae04''"
definition name_golden_notify_key :: string where "name_golden_notify_key = ''thoth.ntf.098e889ce378ae04''"

text \<open>
  The fixed layout leaves every field of a ring its own bytes: the slots follow
  the header, the sender's owner record follows the slots, and both rings fit
  their segments.
\<close>

lemma ring_layout:
  "ring_header_size + ring_size * route_elem_size a \<le> route_ring_sender_owner_off a"
  "route_ring_sender_owner_off a + liveness_slot_size \<le> route_ring_size a"
  "ring_header_size + ring_size * channel_elem_size \<le> channel_ring_size"
  "msg_t_payload_off + data_length = msg_t_size"
  by (cases a; simp add: ring_header_size_def ring_size_def liveness_slot_size_def channel_elem_size_def
      channel_ring_size_def msg_t_layout data_length_def)+

end
