(* ===== verification/Conn_Head.thy ===== *)
theory Conn_Head
  imports Abi Locks
begin

text \<open>
  \<open>circ.rs\<close>: ring indices and the connection heads. A broadcast head is a 32-bit
  mask with one bit per receiver; a unicast head is a counter. The same mask
  update is the receiver part of \<open>ChanInner::open\<close> in \<open>channel.rs\<close>.
\<close>

definition index_of :: "u32 \<Rightarrow> u8" where
  "index_of cursor = ucast cursor"

section \<open>Broadcast head\<close>

text \<open>One attempt of \<open>connect\<close> on the mask value it loaded: 0 when every bit is set.\<close>

definition connect_attempt :: "u32 \<Rightarrow> (u32 \<times> u32) + u32" where
  "connect_attempt cur =
     (let next = cur OR (cur + 1)
      in if next = cur then Inr 0 else Inl (next, next XOR cur))"

definition connect :: "(u32 \<times> bool) list \<Rightarrow> u32 \<Rightarrow> (u32 \<times> u32) option" where
  "connect es cc = cas_retry connect_attempt es cc"

definition disconnect :: "u32 \<Rightarrow> u32 \<Rightarrow> u32 \<times> u32" where
  "disconnect cc cc_id = (cc AND NOT cc_id, (cc AND NOT cc_id))"

definition connected :: "u32 \<Rightarrow> u32 \<Rightarrow> bool" where
  "connected cc cc_id \<longleftrightarrow> cc AND cc_id \<noteq> 0"

definition count_ones :: "'a::len word \<Rightarrow> nat" where
  "count_ones w = length (filter (bit w) [0..<LENGTH('a)])"

definition conn_count :: "u32 \<Rightarrow> nat" where
  "conn_count cc = count_ones cc"

lemma count_ones_card: "count_ones w = card (set_bits_of w)"
proof -
  have "set (filter (bit w) [0..<LENGTH('a)]) = set_bits_of (w :: 'a::len word)"
    by (auto simp: set_bits_of_def dest: bit_imp_le_length)
  moreover have "distinct (filter (bit w) [0..<LENGTH('a)])" by simp
  ultimately show ?thesis
    unfolding count_ones_def by (metis distinct_card)
qed

lemma set_bits_of_set: "n < LENGTH('a) \<Longrightarrow> set_bits_of (set_bit n w) = insert n (set_bits_of (w :: 'a::len word))"
  by (auto simp: set_bits_of_def bit_set_bit_iff dest: bit_imp_le_length)

lemma set_bits_of_and_not: "set_bits_of (w AND NOT (2 ^ n)) = set_bits_of (w :: 'a::len word) - {n}"
  by (auto simp: set_bits_of_def bit_simps dest: bit_imp_le_length)

lemma single_bit_unset: "n < LENGTH('a) \<Longrightarrow> \<not> bit w n \<Longrightarrow> set_bit n w AND NOT (2 ^ n) = (w :: 'a::len word)"
  by (rule bit_word_eqI) (auto simp: bit_simps)

text \<open>The specification: the least unused index below 32 joins the connected set.\<close>

definition abs_connect :: "nat set \<Rightarrow> (nat set \<times> nat option)" where
  "abs_connect S = (if {..<32} \<subseteq> S then (S, None)
     else let n = (LEAST n. n \<notin> S) in (insert n S, Some n))"

lemma connect_attempt_full: "connect_attempt cur = Inr r \<longleftrightarrow> cur = - 1 \<and> r = 0"
  by (auto simp: connect_attempt_def Let_def full_or_succ)

lemma connect_attempt_free:
  "cur \<noteq> - 1 \<Longrightarrow> connect_attempt cur = Inl (set_bit (free_index cur) cur, 2 ^ free_index cur)"
  using set_free_bit [of cur] full_or_succ [of cur] by (simp add: connect_attempt_def Let_def)

lemma connect_attempt_cases:
  obtains (full) "cur = - 1" "connect_attempt cur = Inr 0"
  | (free) "cur \<noteq> - 1" "connect_attempt cur = Inl (set_bit (free_index cur) cur, 2 ^ free_index cur)"
  using connect_attempt_free [of cur] connect_attempt_full [of cur 0] by blast

lemma LEAST_free: "cur \<noteq> - 1 \<Longrightarrow> (LEAST n. n \<notin> set_bits_of cur) = free_index (cur :: u32)"
  using free_index [of cur]
  by (intro Least_equality) (auto simp: set_bits_of_def intro: leI)

text \<open>
  Connecting a receiver: whatever other processes do to the mask between the
  load and the compare-exchange, when \<open>connect\<close> returns it has done to the mask
  value it swapped exactly what the specification does to the set of connected
  receivers: the lowest free index joins and its bit is returned, and 0 is
  returned only when all 32 are taken.
\<close>

theorem connect_refines:
  assumes "connect es cc = Some (cc', cid)"
  shows "\<exists>v \<in> set (cc # map fst es).
           (set_bits_of cc', if cid = 0 then None else Some (low_index cid)) = abs_connect (set_bits_of v)
           \<and> (cid = 0 \<longrightarrow> v = - 1)
           \<and> (cid \<noteq> 0 \<longrightarrow> cid = 2 ^ low_index cid \<and> low_index cid < 32 \<and> v AND cid = 0)"
proof -
  from assms consider v where "v \<in> set (map fst es)" "connect_attempt v = Inl (cc', cid)"
    | "cc' \<in> set (cc # map fst es)" "connect_attempt cc' = Inr cid"
    unfolding connect_def by (blast dest: cas_retry_result)
  then show ?thesis
  proof cases
    case 1
    then have ne: "v \<noteq> - 1" using connect_attempt_full [of v 0] connect_attempt_cases by force
    let ?n = "free_index v"
    have n: "?n < 32" "\<not> bit v ?n" using free_index [OF ne] by auto
    have c: "cc' = set_bit ?n v" "cid = 2 ^ ?n" using 1 connect_attempt_free [OF ne] by auto
    have nz: "(2::u32) ^ ?n \<noteq> 0" using n(1) by (simp add: exp_eq_zero_iff)
    have "\<not> {..<32} \<subseteq> set_bits_of v" using n by (auto simp: set_bits_of_def)
    moreover have "v AND 2 ^ ?n = 0" by (rule bit_word_eqI) (use n in \<open>auto simp: bit_simps\<close>)
    ultimately show ?thesis
      using n c nz LEAST_free [OF ne] low_index_exp [of ?n, where ?'a = 32]
      by (intro bexI [of _ v]) (use 1 in \<open>auto simp: abs_connect_def Let_def set_bits_of_set\<close>)
  next
    case 2
    then have "cc' = - 1" "cid = 0" by (auto simp: connect_attempt_full)
    then show ?thesis
      by (intro bexI [of _ "- 1"]) (use 2 in \<open>auto simp: abs_connect_def set_bits_of_def\<close>)
  qed
qed

theorem connect_refines_witness:
  "connect [(5, False), (5, False)] 1 = Some (7, 2) \<and>
   (\<exists>v \<in> {1 :: u32, 5}. (set_bits_of (7::u32), Some (low_index (2::u32))) = abs_connect (set_bits_of v))"
proof -
  have h: "connect [(5, False), (5, False)] 1 = Some (7, 2)"
    by (simp add: connect_def connect_attempt_def)
  show ?thesis using h connect_refines [OF h] by simp blast
qed

text \<open>
  Disconnecting exactly the bit a receiver was given leaves every other
  receiver connected, lowers the count by one, and undoes a connect.
\<close>

theorem disconnect_only_own:
  assumes "n < 32" "bit cc n"
  shows "set_bits_of (fst (disconnect cc (2 ^ n))) = set_bits_of cc - {n}
    \<and> conn_count (fst (disconnect cc (2 ^ n))) = conn_count cc - 1
    \<and> \<not> connected (fst (disconnect cc (2 ^ n))) (2 ^ n)
    \<and> (m \<noteq> n \<longrightarrow> m < 32 \<longrightarrow> connected (fst (disconnect cc (2 ^ n))) (2 ^ m) = connected cc (2 ^ m))"
proof -
  have conn: "connected c (2 ^ k) \<longleftrightarrow> k \<in> set_bits_of c" if "k < 32" for c k
  proof -
    have "c AND 2 ^ k = (if bit c k then 2 ^ k else 0)"
      by (rule bit_word_eqI) (auto simp: bit_simps)
    with that show ?thesis by (simp add: connected_def set_bits_of_def exp_eq_zero_iff)
  qed
  have "finite (set_bits_of cc)" by simp
  then show ?thesis
    using assms conn
    by (auto simp: disconnect_def set_bits_of_and_not conn_count_def count_ones_card)
       (auto simp: set_bits_of_def)
qed

theorem disconnect_only_own_witness:
  "bit (7 :: u32) 1 \<and> set_bits_of (fst (disconnect 7 (2 ^ 1))) = set_bits_of (7 :: u32) - {1}
    \<and> conn_count (fst (disconnect 7 (2 ^ 1))) = conn_count 7 - 1"
proof -
  have "bit (7 :: u32) 1" by (simp add: bit_numeral_rec)
  then show ?thesis using disconnect_only_own [of 1 7 0] by simp
qed

section \<open>Unicast head\<close>

text \<open>
  The counter of a unicast head; \<open>fetch_add\<close> and \<open>fetch_sub\<close> wrap, while the plain
  \<open>+ 1\<close> and \<open>- 1\<close> on their result panic on overflow in a checked build. The value
  is the new counter and the returned id, \<open>None\<close> the panic.
\<close>

definition unicast_connect :: "u32 \<Rightarrow> u32 \<times> u32 option" where
  "unicast_connect cc = (cc + 1, if cc = - 1 then None else Some (cc + 1))"

definition unicast_disconnect :: "u32 \<Rightarrow> u32 \<Rightarrow> u32 \<times> u32 option" where
  "unicast_disconnect cc cc_id =
     (if cc_id = NOT 0 then (0, Some 0)
      else (cc - 1, if cc = 0 then None else Some (cc - 1)))"

definition unicast_connected :: "u32 \<Rightarrow> u32 \<Rightarrow> bool" where
  "unicast_connected cc cc_id \<longleftrightarrow> cc \<noteq> 0 \<and> cc_id \<noteq> 0"

definition unicast_conn_count :: "u32 \<Rightarrow> nat" where
  "unicast_conn_count cc = unat cc"

lemma unicast_balanced:
  assumes "unicast_connect cc = (cc', Some cid)" "cid \<noteq> - 1"
  shows "unicast_connected cc' cid" "unicast_disconnect cc' cid = (cc, Some cc)"
    "unicast_conn_count cc' = unicast_conn_count cc + 1"
proof -
  have c: "cc \<noteq> - 1" "cc' = cc + 1" "cid = cc + 1"
    using assms(1) by (auto simp: unicast_connect_def split: if_splits)
  have nz: "cc + 1 \<noteq> 0" using c(1) by (metis add_eq_0_iff2)
  show "unicast_connected cc' cid" "unicast_disconnect cc' cid = (cc, Some cc)"
    using c nz assms(2) by (simp_all add: unicast_connected_def unicast_disconnect_def)
  show "unicast_conn_count cc' = unicast_conn_count cc + 1"
    using nz c(2) unsigned_less [of cc, where ?'a = nat] mod_Suc [of "unat cc" "2 ^ 32"]
    by (auto simp: unicast_conn_count_def unat_word_ariths unat_eq_0 [symmetric])
qed

end
