(* ===== verification/Message.thy ===== *)
theory Message
  imports Abi
begin

text \<open>
  The \<open>msg_t\<close> record of a ring slot and the fragmentation of a message into such
  records, from \<open>channel.rs\<close>: \<open>write_msg\<close>, \<open>read_header\<close>, \<open>read_payload\<close> and
  \<open>read_storage_id\<close> (the same on \<open>ElemT\<close> and \<open>ChannelElemT\<close>), the fragment loop of
  \<open>send\<close>, the slot decoding that \<open>recv\<close> and \<open>recv_multi\<close> share, and the inline part
  of \<open>assemble_message\<close>. A slot's \<open>data_\<close> is a list of 80 bytes.
\<close>

section \<open>The record\<close>

definition write_msg :: "u8 list \<Rightarrow> u32 \<Rightarrow> u32 \<Rightarrow> i32 \<Rightarrow> bool \<Rightarrow> u8 list \<Rightarrow> u8 list" where
  "write_msg d cc_id mid remain storage payload =
     (let d = blit msg_t_cc_id_off (le_bytes32 cc_id) d;
          d = blit msg_t_id_off (le_bytes32 mid) d;
          d = blit msg_t_remain_off (le_bytes32 remain) d;
          d = blit msg_t_storage_off [if storage then 1 else 0] d
      in blit msg_t_payload_off payload d)"

definition bytes_at :: "nat \<Rightarrow> nat \<Rightarrow> u8 list \<Rightarrow> u8 list" where
  "bytes_at off n d = take n (drop off d)"

definition read_header :: "u8 list \<Rightarrow> u32 \<times> u32 \<times> i32 \<times> bool" where
  "read_header d =
     (of_le_bytes32 (bytes_at msg_t_cc_id_off 4 d),
      of_le_bytes32 (bytes_at msg_t_id_off 4 d),
      of_le_bytes32 (bytes_at msg_t_remain_off 4 d),
      d ! msg_t_storage_off \<noteq> 0)"

definition read_payload :: "u8 list \<Rightarrow> nat \<Rightarrow> u8 list" where
  "read_payload d n = bytes_at msg_t_payload_off n d"

definition read_storage_id :: "u8 list \<Rightarrow> i32" where
  "read_storage_id d = of_le_bytes32 (bytes_at msg_t_payload_off 4 d)"

lemma length_write_msg [simp]:
  "length d = msg_t_size \<Longrightarrow> length payload \<le> data_length \<Longrightarrow>
   length (write_msg d cc_id mid remain storage payload) = msg_t_size"
  by (simp add: write_msg_def Let_def msg_t_layout data_length_def)

lemma bytes_at_blit:
  "off + length bs \<le> length d \<Longrightarrow> n = length bs \<Longrightarrow> bytes_at off n (blit off bs d) = bs"
  "o1 + n \<le> o2 \<Longrightarrow> o2 + length bs \<le> length d \<Longrightarrow> bytes_at o1 n (blit o2 bs d) = bytes_at o1 n d"
  "o2 + length bs \<le> o1 \<Longrightarrow> o2 + length bs \<le> length d \<Longrightarrow> bytes_at o1 n (blit o2 bs d) = bytes_at o1 n d"
  by (simp_all add: bytes_at_def take_drop_blit_same take_drop_blit_after take_drop_blit_before)

lemma nth_bytes_at: "i < length d \<Longrightarrow> d ! i = hd (bytes_at i 1 d)"
  by (simp add: bytes_at_def hd_drop_conv_nth take_Suc)

lemma read_header_write_msg:
  assumes "length d = msg_t_size" "length payload \<le> data_length"
  shows "read_header (write_msg d cc_id mid remain storage payload) = (cc_id, mid, remain, storage)"
proof -
  have "write_msg d cc_id mid remain storage payload ! msg_t_storage_off
      = hd (bytes_at msg_t_storage_off 1 (write_msg d cc_id mid remain storage payload))"
    using assms by (intro nth_bytes_at) (simp add: msg_t_layout)
  then show ?thesis
    using assms
    by (simp add: read_header_def write_msg_def Let_def bytes_at_blit msg_t_layout data_length_def)
qed

lemma read_payload_write_msg:
  assumes "length d = msg_t_size" "length payload \<le> data_length"
  shows "read_payload (write_msg d cc_id mid remain storage payload) (length payload) = payload"
  using assms
  by (simp add: read_payload_def write_msg_def Let_def bytes_at_blit msg_t_layout data_length_def)

lemma read_storage_id_write_msg:
  assumes "length d = msg_t_size"
  shows "read_storage_id (write_msg d cc_id mid remain storage (le_bytes32 sid)) = sid"
  using assms
  by (simp add: read_storage_id_def write_msg_def Let_def bytes_at_blit msg_t_layout)

section \<open>Fragmentation\<close>

text \<open>
  The \<open>push_fragment\<close> calls of \<open>send\<close>, as pairs of \<open>remain\<close> and payload: \<open>full\<close>
  fragments of 64 bytes, then the tail. \<open>remain\<close> is computed in \<open>i32\<close>.
\<close>

fun full_fragments :: "u8 list \<Rightarrow> nat \<Rightarrow> nat \<Rightarrow> (i32 \<times> u8 list) list" where
  "full_fragments data 0 offset = []"
| "full_fragments data (Suc k) offset =
     (of_nat (length data) - of_nat offset - of_nat data_length,
      take data_length (drop offset data))
     # full_fragments data k (offset + data_length)"

definition fragments :: "u8 list \<Rightarrow> (i32 \<times> u8 list) list" where
  "fragments data =
     (let full = length data div data_length;
          offset = full * data_length;
          tail = length data - offset
      in full_fragments data full 0
         @ (if tail > 0 then [(of_nat tail - of_nat data_length, drop offset data)] else []))"

section \<open>Decoding and reassembly\<close>

record decoded =
  dec_keep :: bool
  dec_id :: u32
  dec_remain :: i32
  dec_r_size :: i32
  dec_storage_id :: "i32 option"
  dec_frag :: "u8 list option"

text \<open>What \<open>recv\<close> and \<open>recv_multi\<close> read out of a slot before they release it.\<close>

definition decode_slot :: "u32 \<Rightarrow> u8 list \<Rightarrow> decoded" where
  "decode_slot my_cc_id d =
     (case read_header d of (cc_id, mid, remain, storage) \<Rightarrow>
        let is_self = (cc_id = my_cc_id);
            r_size = of_nat data_length + remain;
            keep = (\<not> is_self \<and> 0 < sint r_size);
            storage_id = (if keep \<and> storage then Some (read_storage_id d) else None);
            frag = (if keep \<and> \<not> storage
                    then Some (read_payload d (if sint remain \<le> 0 then unat r_size else data_length))
                    else None)
        in \<lparr>dec_keep = keep, dec_id = mid, dec_remain = remain, dec_r_size = r_size,
            dec_storage_id = storage_id, dec_frag = frag\<rparr>)"

type_synonym recv_cache = "u32 \<rightharpoonup> nat \<times> u8 list"

datatype panic = SliceOutOfRange

text \<open>
  The inline branch of \<open>assemble_message\<close>. The value is the new cache and the
  completed message, if any; copying a fragment past the end of the buffer is
  Rust's slice panic.
\<close>

definition assemble_inline ::
  "recv_cache \<Rightarrow> u32 \<Rightarrow> i32 \<Rightarrow> i32 \<Rightarrow> u8 list \<Rightarrow> panic + (recv_cache \<times> u8 list option)" where
  "assemble_inline cache mid remain r_size frag =
     (case cache mid of
        Some (off, buf) \<Rightarrow>
          if length buf < off + length frag then Inl SliceOutOfRange
          else let buf = blit off frag buf; cache = cache(mid := None)
               in if sint remain \<le> 0 then Inr (cache, Some buf)
                  else Inr (cache(mid \<mapsto> (off + length frag, buf)), None)
      | None \<Rightarrow>
          if sint remain \<le> 0 then Inr (cache, Some frag)
          else if unat r_size < length frag then Inl SliceOutOfRange
          else Inr (cache(mid \<mapsto> (length frag, blit 0 frag (replicate (unat r_size) 0))), None))"

text \<open>One inline slot, and a sequence of them: the completed messages with their ids.\<close>

definition recv_slot :: "u32 \<Rightarrow> recv_cache \<Rightarrow> u8 list \<Rightarrow> panic + (recv_cache \<times> (u32 \<times> u8 list) list)" where
  "recv_slot my_cc_id cache d =
     (let r = decode_slot my_cc_id d in
      case dec_frag r of
        None \<Rightarrow> Inr (cache, [])
      | Some frag \<Rightarrow>
          (case assemble_inline cache (dec_id r) (dec_remain r) (dec_r_size r) frag of
             Inl p \<Rightarrow> Inl p
           | Inr (cache', None) \<Rightarrow> Inr (cache', [])
           | Inr (cache', Some buf) \<Rightarrow> Inr (cache', [(dec_id r, buf)])))"

fun recv_slots :: "u32 \<Rightarrow> recv_cache \<Rightarrow> u8 list list \<Rightarrow> panic + (recv_cache \<times> (u32 \<times> u8 list) list)" where
  "recv_slots my_cc_id cache [] = Inr (cache, [])"
| "recv_slots my_cc_id cache (d # ds) =
     (case recv_slot my_cc_id cache d of
        Inl p \<Rightarrow> Inl p
      | Inr (cache', out) \<Rightarrow>
          (case recv_slots my_cc_id cache' ds of
             Inl p \<Rightarrow> Inl p
           | Inr (cache'', outs) \<Rightarrow> Inr (cache'', out @ outs)))"

section \<open>Reassembly inverts fragmentation\<close>

lemma length_full_fragments [simp]: "length (full_fragments data k off) = k"
  by (induction k arbitrary: off) auto

lemma nth_full_fragments:
  "j < k \<Longrightarrow> full_fragments data k off ! j =
     (of_nat (length data) - of_nat (off + data_length * j) - of_nat data_length,
      take data_length (drop (off + data_length * j) data))"
proof (induction k arbitrary: off j)
  case (Suc k)
  then show ?case by (cases j) (simp_all add: algebra_simps)
qed simp

definition n_fragments :: "nat \<Rightarrow> nat" where
  "n_fragments n = (n + (data_length - 1)) div data_length"

lemma n_fragments_eq: "n_fragments n = n div data_length + (if n mod data_length = 0 then 0 else 1)"
proof -
  have "n + 63 = (n div 64) * 64 + (n mod 64 + 63)" by simp
  then have "(n + 63) div 64 = n div 64 + (n mod 64 + 63) div 64" by (metis div_mult_self3 zero_neq_numeral add.commute)
  moreover have "n mod 64 < 64" by simp
  ultimately show ?thesis by (auto simp: n_fragments_def data_length_def div_if)
qed

lemma tail_fragment: "length data - length data div data_length * data_length = length data mod data_length"
  by (simp add: minus_div_mult_eq_mod)

lemma tail_pos: "length data div data_length * data_length < length data \<longleftrightarrow> 0 < length data mod data_length"
  by (simp add: tail_fragment [symmetric])

lemma length_fragments [simp]: "length (fragments data) = n_fragments (length data)"
  by (auto simp: fragments_def Let_def n_fragments_eq tail_pos)

lemma n_fragments_bound:
  "k < n_fragments n \<Longrightarrow> data_length * k < n"
  "k < n_fragments n \<Longrightarrow> Suc k = n_fragments n \<longleftrightarrow> n \<le> data_length * k + data_length"
  by (auto simp: n_fragments_def data_length_def)

lemma nth_fragments:
  assumes k: "k < n_fragments (length data)"
  shows "fragments data ! k =
    (word_of_int (int (length data) - int (data_length * k) - int data_length),
     take data_length (drop (data_length * k) data))"
proof (cases "k < length data div data_length")
  case True
  then have "fragments data ! k = full_fragments data (length data div data_length) 0 ! k"
    by (simp add: fragments_def Let_def nth_append)
  also have "\<dots> = (of_nat (length data) - of_nat (data_length * k) - of_nat data_length,
      take data_length (drop (data_length * k) data))"
    using nth_full_fragments [OF True, of data 0] by simp
  finally show ?thesis by simp
next
  case False
  with k have t: "k = length data div data_length" "length data mod data_length > 0"
    by (auto simp: n_fragments_eq split: if_splits)
  let ?t = "length data mod data_length"
  have len: "data_length * k + ?t = length data" by (simp add: t(1))
  have "fragments data ! k = (of_nat ?t - of_nat data_length, drop (k * data_length) data)"
    using t by (simp add: fragments_def Let_def nth_append tail_pos tail_fragment)
  moreover have "(of_nat ?t :: i32) = word_of_int (int (length data) - int (data_length * k))"
  proof -
    have "int (length data) - int (data_length * k) = int ?t" using len by linarith
    then show ?thesis by simp
  qed
  moreover have "length (drop (k * data_length) data) \<le> data_length"
    using len t mod_less_divisor [of data_length "length data"]
    by (simp add: mult.commute data_length_def)
  ultimately show ?thesis by (simp add: mult.commute)
qed

text \<open>Where the cache stands after the first \<open>k\<close> fragments of \<open>data\<close>.\<close>

definition progress :: "u8 list \<Rightarrow> nat \<Rightarrow> (nat \<times> u8 list) option" where
  "progress data k =
     (if k = 0 \<or> n_fragments (length data) \<le> k then None
      else Some (data_length * k,
                 take (data_length * k) data @ replicate (length data - data_length * k) 0))"

lemma sint_remain:
  "n < 2 ^ 31 \<Longrightarrow> m \<le> n + 64 \<Longrightarrow> sint (word_of_int (int n - int m) :: i32) = int n - int m"
  by (rule sint_of_int_small) simp_all

lemma decode_fragment:
  assumes d: "length d = msg_t_size" and cc: "cc_id \<noteq> my_cc_id"
    and n: "length data < 2 ^ 31" and k: "k < n_fragments (length data)"
    and f: "fragments data ! k = (remain, payload)"
  shows "decode_slot my_cc_id (write_msg d cc_id mid remain False payload) =
    \<lparr>dec_keep = True, dec_id = mid, dec_remain = remain,
     dec_r_size = of_nat (length data - data_length * k), dec_storage_id = None,
     dec_frag = Some payload\<rparr>"
    and "length payload = min data_length (length data - data_length * k)"
    and "sint remain \<le> 0 \<longleftrightarrow> Suc k = n_fragments (length data)"
proof -
  let ?n = "length data"
  have kn: "data_length * k < ?n" by (rule n_fragments_bound(1) [OF k])
  have remain: "remain = word_of_int (int ?n - int (data_length * k + data_length))"
    and payload: "payload = take data_length (drop (data_length * k) data)"
    using f nth_fragments [OF k] by (simp_all add: algebra_simps)
  show len: "length payload = min data_length (?n - data_length * k)"
    by (simp add: payload min.commute)
  have r: "sint remain = int ?n - int (data_length * k + data_length)"
    unfolding remain using n kn by (intro sint_remain) (simp_all add: data_length_def)
  then show last: "sint remain \<le> 0 \<longleftrightarrow> Suc k = n_fragments ?n"
    using n_fragments_bound(2) [OF k]
      of_nat_le_iff [where ?'a = int, of ?n "data_length * k + data_length"] by simp
  have rs: "of_nat data_length + remain = (of_nat (?n - data_length * k) :: i32)"
    using kn unfolding remain by (simp add: of_nat_diff)
  have pos: "0 < sint (of_nat (?n - data_length * k) :: i32)"
  proof -
    have "sint (of_nat (?n - data_length * k) :: i32) = int (?n - data_length * k)"
      using n by (intro sint_of_nat_small) simp
    with kn show ?thesis by (simp only: of_nat_0_less_iff zero_less_diff)
  qed
  have un: "unat (of_nat (?n - data_length * k) :: i32) = ?n - data_length * k"
    using n by (intro unat_of_nat_small) simp
  have "sint remain \<le> 0 \<longleftrightarrow> ?n \<le> data_length * k + data_length"
    using last n_fragments_bound(2) [OF k] by blast
  then have sz: "(if sint remain \<le> 0 then ?n - data_length * k else data_length) = length payload"
    using len by auto
  have pl: "length payload \<le> data_length" using len by simp
  show "decode_slot my_cc_id (write_msg d cc_id mid remain False payload) =
    \<lparr>dec_keep = True, dec_id = mid, dec_remain = remain,
     dec_r_size = of_nat (?n - data_length * k), dec_storage_id = None, dec_frag = Some payload\<rparr>"
    using cc pos un sz read_payload_write_msg [OF d pl]
    by (auto simp: decode_slot_def read_header_write_msg [OF d pl] rs Let_def split: if_splits)
qed

lemma blit_progress:
  assumes "off \<le> length data" "length f = min m (length data - off)" "f = take m (drop off data)"
  shows "blit off f (take off data @ replicate (length data - off) 0)
    = take (off + m) data @ replicate (length data - (off + m)) (0 :: u8)"
  using assms by (auto simp: blit_def take_add)

lemma recv_fragment:
  assumes d: "length d = msg_t_size" and cc: "cc_id \<noteq> my_cc_id"
    and n: "length data < 2 ^ 31" and k: "k < n_fragments (length data)"
    and f: "fragments data ! k = (remain, payload)"
    and c: "cache mid = progress data k"
  shows "recv_slot my_cc_id cache (write_msg d cc_id mid remain False payload) =
    Inr (cache(mid := progress data (Suc k)),
         if Suc k = n_fragments (length data) then [(mid, data)] else [])"
proof -
  let ?n = "length data" and ?last = "Suc k = n_fragments (length data)"
  note dec = decode_fragment [OF d cc n k f]
  have kn: "data_length * k < ?n" by (rule n_fragments_bound(1) [OF k])
  have p: "payload = take data_length (drop (data_length * k) data)"
    using f nth_fragments [OF k] by simp
  have un: "unat (of_nat (?n - data_length * k) :: i32) = ?n - data_length * k"
    using n by (intro unat_of_nat_small) simp
  have bl: "blit (data_length * k) payload (take (data_length * k) data @ replicate (?n - data_length * k) 0)
      = take (data_length * Suc k) data @ replicate (?n - data_length * Suc k) 0"
    using blit_progress [of "data_length * k" data payload data_length] kn dec(2) p
    by (simp add: algebra_simps)
  have all: "?n \<le> data_length + data_length * k" if ?last
    using n_fragments_bound(2) [OF k] that by linarith
  have full: "length payload = data_length" if "\<not> ?last"
    using n_fragments_bound(2) [OF k] that dec(2) by simp
  have "assemble_inline cache mid remain (of_nat (?n - data_length * k)) payload =
    Inr (cache(mid := progress data (Suc k)), if ?last then Some data else None)"
  proof (cases "k = 0")
    case True
    then have "cache mid = None" using c by (simp add: progress_def)
    moreover have "payload = data" if ?last
      using all that True p by simp
    moreover have "\<not> n_fragments ?n \<le> Suc k" if "\<not> ?last" using that k by simp
    ultimately show ?thesis
      using dec(2,3) un bl full True kn
      by (auto simp: assemble_inline_def progress_def fun_upd_idem)
  next
    case False
    then have "cache mid = Some (data_length * k,
        take (data_length * k) data @ replicate (?n - data_length * k) 0)"
      using c k by (simp add: progress_def)
    moreover have "\<not> n_fragments ?n \<le> Suc k" if "\<not> ?last" using that k by simp
    ultimately show ?thesis
      using dec(2,3) bl full all kn
      by (auto simp: assemble_inline_def progress_def Let_def algebra_simps)
  qed
  then show ?thesis
    by (simp add: recv_slot_def dec(1) Let_def)
qed

text \<open>
  A stream is a list of slots a receiver drains: each one the old content of the
  slot, and the sender's \<open>cc_id\<close>, the message id, \<open>remain\<close> and payload written
  over it.
\<close>

type_synonym frag_record = "u8 list \<times> u32 \<times> u32 \<times> i32 \<times> u8 list"

fun slot_bytes :: "frag_record \<Rightarrow> u8 list" where
  "slot_bytes (d, cc_id, mid, remain, payload) = write_msg d cc_id mid remain False payload"

fun record_ok :: "u32 \<Rightarrow> frag_record \<Rightarrow> bool" where
  "record_ok my_cc_id (d, cc_id, mid, remain, payload) \<longleftrightarrow> length d = msg_t_size \<and> cc_id \<noteq> my_cc_id"

definition of_message :: "u32 \<Rightarrow> frag_record list \<Rightarrow> (i32 \<times> u8 list) list" where
  "of_message i stream = [(remain, payload). (d, cc_id, mid, remain, payload) \<leftarrow> stream, mid = i]"

lemma of_message_simps [simp]:
  "of_message i [] = []"
  "of_message i ((d, cc_id, mid, remain, payload) # stream) =
     (if mid = i then (remain, payload) # of_message i stream else of_message i stream)"
  by (simp_all add: of_message_def)

lemma recv_slots_interleaved:
  assumes "\<forall>r \<in> set stream. record_ok my_cc_id r"
    and "\<forall>i. length (data i) < 2 ^ 31"
    and "\<forall>i. of_message i stream = drop (k i) (fragments (data i))"
  shows "\<exists>cache outs. recv_slots my_cc_id (\<lambda>i. progress (data i) (k i)) (map slot_bytes stream) = Inr (cache, outs)
    \<and> cache = Map.empty
    \<and> (\<forall>i. filter (\<lambda>(j, _). j = i) outs
           = (if k i < n_fragments (length (data i)) then [(i, data i)] else []))"
  using assms
proof (induction stream arbitrary: k)
  case Nil
  then have done_all: "n_fragments (length (data i)) \<le> k i" for i by (metis drop_eq_Nil2 length_fragments of_message_simps(1))
  then show ?case by (auto simp: progress_def fun_eq_iff leD)
next
  case (Cons r stream)
  obtain d cc_id mid remain payload where r: "r = (d, cc_id, mid, remain, payload)" by (cases r)
  let ?N = "n_fragments (length (data mid))"
  have hd: "(remain, payload) # of_message mid stream = drop (k mid) (fragments (data mid))"
    using Cons.prems(3) r by (metis of_message_simps(2))
  then have k: "k mid < ?N" by (metis drop_eq_Nil2 length_fragments linorder_not_le list.distinct(1))
  then have f: "fragments (data mid) ! k mid = (remain, payload)"
    and rest: "of_message mid stream = drop (Suc (k mid)) (fragments (data mid))"
    using hd Cons_nth_drop_Suc [of "k mid" "fragments (data mid)"]
    by (metis length_fragments list.inject)+
  let ?k = "k(mid := Suc (k mid))"
  have slot: "recv_slot my_cc_id (\<lambda>i. progress (data i) (k i)) (slot_bytes r) =
      Inr (\<lambda>i. progress (data i) (?k i), if Suc (k mid) = ?N then [(mid, data mid)] else [])"
    using recv_fragment [of d cc_id my_cc_id "data mid" "k mid" remain payload
        "\<lambda>i. progress (data i) (k i)" mid] Cons.prems(1,2) k f r
    by (simp add: fun_upd_def if_distrib [of "progress _"] cong: if_cong)
  have "\<forall>i. of_message i stream = drop (?k i) (fragments (data i))"
    using Cons.prems(3) rest r by (metis fun_upd_apply of_message_simps(2))
  then obtain cache outs where
    run: "recv_slots my_cc_id (\<lambda>i. progress (data i) (?k i)) (map slot_bytes stream) = Inr (cache, outs)"
    "cache = Map.empty"
    "\<forall>i. filter (\<lambda>(j, _). j = i) outs = (if ?k i < n_fragments (length (data i)) then [(i, data i)] else [])"
    using Cons.IH [of ?k] Cons.prems(1,2) by auto
  show ?case
    using slot run k by auto
qed

text \<open>
  C4. Framing round trip under interleaving: take any stream of inline slots, sent
  by endpoints other than the receiver, in which the slots of every message id
  are the fragments of one message (shorter than \<open>2^31\<close> bytes) in order, however
  the messages interleave. Draining it into an empty reassembly cache never
  panics, leaves the cache empty and yields every message exactly once and
  byte for byte; an id with no slot stands for the empty message.
\<close>

theorem reassembly_round_trip:
  assumes "\<forall>r \<in> set stream. record_ok my_cc_id r"
    and "\<forall>i. length (data i) < 2 ^ 31"
    and "\<forall>i. of_message i stream = fragments (data i)"
  shows "\<exists>outs. recv_slots my_cc_id Map.empty (map slot_bytes stream) = Inr (Map.empty, outs)
    \<and> (\<forall>i. filter (\<lambda>(j, _). j = i) outs = (if data i = [] then [] else [(i, data i)]))"
proof -
  have "(\<lambda>i. progress (data i) 0) = Map.empty" by (simp add: progress_def)
  moreover have "0 < n_fragments (length (data i)) \<longleftrightarrow> data i \<noteq> []" for i
    by (auto simp: n_fragments_def data_length_def div_greater_zero_iff Suc_le_eq)
  ultimately show ?thesis
    using recv_slots_interleaved [of stream my_cc_id data "\<lambda>_. 0"] assms by auto
qed

definition two_messages :: "u32 \<Rightarrow> u8 list" where
  "two_messages = (\<lambda>_. [])(1 := replicate 70 7, 2 := [1, 2, 3])"

definition two_messages_stream :: "frag_record list" where
  "two_messages_stream =
     [(replicate 80 0, 5, 1, 6, replicate 64 7), (replicate 80 9, 6, 2, - 61, [1, 2, 3]),
      (replicate 80 0, 5, 1, - 58, replicate 6 7)]"

theorem reassembly_round_trip_witness:
  "\<exists>outs. recv_slots 4 Map.empty (map slot_bytes two_messages_stream) = Inr (Map.empty, outs)
    \<and> filter (\<lambda>(j, _). j = 1) outs = [(1, replicate 70 7)]
    \<and> filter (\<lambda>(j, _). j = 2) outs = [(2, [1, 2, 3])]"
proof -
  have frags: "fragments (replicate 70 7) = [(6, replicate 64 7), (- 58, replicate 6 7)]"
    "fragments [1, 2, 3] = [(- 61, [1, 2, 3])]" "fragments [] = []"
    by code_simp+
  have ok: "\<forall>r \<in> set two_messages_stream. record_ok 4 r"
    by (simp add: two_messages_stream_def msg_t_size_def)
  have len: "\<forall>i. length (two_messages i) < 2 ^ 31"
    by (simp add: two_messages_def)
  have str: "\<forall>i. of_message i two_messages_stream = fragments (two_messages i)"
    unfolding two_messages_stream_def two_messages_def by (simp only: of_message_simps) (simp add: frags)
  obtain outs where
    out: "recv_slots 4 Map.empty (map slot_bytes two_messages_stream) = Inr (Map.empty, outs)"
    and each: "\<And>i. filter (\<lambda>(j, _). j = i) outs = (if two_messages i = [] then [] else [(i, two_messages i)])"
    using reassembly_round_trip [OF ok len str] by blast
  have "two_messages 1 = replicate 70 7" "two_messages 2 = [1, 2, 3]"
    by (simp_all add: two_messages_def)
  with each [of 1] each [of 2] out show ?thesis by (intro exI [of _ outs]) simp
qed

text \<open>
  What a leftover partial message does: when the cache still holds the first
  \<open>k\<close> fragments of a message whose sender died, and the next sender of the route
  reuses its id (every sender numbers its messages from 0), a new message of one
  fragment is not delivered. The receiver either panics on the slice or
  delivers a buffer of the old length with the new bytes spliced in.
\<close>

theorem stale_partial_splices:
  assumes d: "length d = msg_t_size" and cc: "cc_id \<noteq> my_cc_id"
    and new: "data' \<noteq> []" "length data' < data_length"
    and k: "0 < k" "k < n_fragments (length data)"
    and c: "cache mid = progress data k"
    and f: "fragments data' = [(remain, payload)]"
  shows "recv_slot my_cc_id cache (write_msg d cc_id mid remain False payload) =
    (if length data < data_length * k + length data' then Inl SliceOutOfRange
     else Inr (cache(mid := None),
       [(mid, blit (data_length * k) data'
                (take (data_length * k) data @ replicate (length data - data_length * k) 0))]))"
proof -
  have N: "n_fragments (length data') = 1"
    using f by (metis One_nat_def length_fragments list.size(3,4) plus_1_eq_Suc add.commute)
  have l: "length data' < 2 ^ 31" using new(2) by (simp add: data_length_def)
  have f0: "fragments data' ! 0 = (remain, payload)" by (simp add: f)
  note dec = decode_fragment [OF d cc l, of 0, unfolded N, OF zero_less_one f0]
  have "payload = data'"
    using nth_fragments [of 0 data'] f0 N new(2) by simp
  moreover have "cache mid = Some (data_length * k,
      take (data_length * k) data @ replicate (length data - data_length * k) 0)"
    using c k by (simp add: progress_def)
  moreover have "data_length * k < length data" by (rule n_fragments_bound(1) [OF k(2)])
  ultimately show ?thesis
    using dec by (simp add: recv_slot_def assemble_inline_def Let_def fun_upd_def cong: if_cong)
qed

theorem stale_partial_splices_witness:
  "recv_slot 4 [0 \<mapsto> (64, replicate 64 7 @ replicate 36 0)]
     (write_msg (replicate 80 0) 6 0 (- 62) False [1, 2])
   = Inr (Map.empty, [(0, blit 64 [1, 2] (replicate 64 7 @ replicate 36 0))])"
proof -
  have f: "fragments [1, 2] = [(- 62, [1, 2])]" by code_simp
  have p: "progress (replicate 100 7) 1 = Some (64, replicate 64 7 @ replicate 36 0)"
    by (simp add: progress_def n_fragments_def data_length_def)
  show ?thesis
    using stale_partial_splices [of "replicate 80 0" 6 4 "[1, 2]" 1 "replicate 100 7"
        "[0 \<mapsto> (64, replicate 64 7 @ replicate 36 0)]" 0 "- 62" "[1, 2]"] f p
    by (simp add: msg_t_size_def data_length_def n_fragments_def)
qed

end
