(* ===== verification/Liveness.thy ===== *)
theory Liveness
  imports Conn_Head
begin

text \<open>
  \<open>liveness.rs\<close>: who owns a connection bit (or a route's sender slot), whether that
  process is still alive, and what may be reclaimed from a dead one. The
  operating system is a parameter: which pids exist, and the text of
  \<open>/proc/<pid>/stat\<close> (the Linux back end is the one modelled).
\<close>

section \<open>Process identity\<close>

record os =
  os_self :: i32
  os_exists :: "i32 \<Rightarrow> bool"
  os_stat :: "i32 \<Rightarrow> string option"

fun rfind :: "char \<Rightarrow> string \<Rightarrow> nat option" where
  "rfind c [] = None"
| "rfind c (x # xs) =
     (case rfind c xs of Some i \<Rightarrow> Some (Suc i) | None \<Rightarrow> if x = c then Some 0 else None)"

definition is_whitespace :: "char \<Rightarrow> bool" where
  "is_whitespace c \<longleftrightarrow> c = CHR '' '' \<or> (9 \<le> (of_char c :: nat) \<and> (of_char c :: nat) \<le> 13)"

fun split_ws :: "string \<Rightarrow> string \<Rightarrow> string list" where
  "split_ws w [] = (if w = [] then [] else [w])"
| "split_ws w (c # cs) =
     (if is_whitespace c then (if w = [] then split_ws [] cs else w # split_ws [] cs)
      else split_ws (w @ [c]) cs)"

definition split_whitespace :: "string \<Rightarrow> string list" where
  "split_whitespace s = split_ws [] s"

definition is_digit :: "char \<Rightarrow> bool" where
  "is_digit c \<longleftrightarrow> 48 \<le> (of_char c :: nat) \<and> (of_char c :: nat) \<le> 57"

text \<open>\<open>str::parse::<u64>\<close>: an optional \<open>+\<close>, at least one digit, no overflow.\<close>

definition parse_u64 :: "string \<Rightarrow> u64 option" where
  "parse_u64 s =
     (let ds = (case s of CHR ''+'' # r \<Rightarrow> r | _ \<Rightarrow> s);
          v = foldl (\<lambda>a c. 10 * a + (of_char c - 48)) (0::nat) ds
      in if ds \<noteq> [] \<and> list_all is_digit ds \<and> v < 2 ^ 64 then Some (of_nat v) else None)"

definition is_zombie :: "os \<Rightarrow> i32 \<Rightarrow> bool" where
  "is_zombie os pid =
     (if sint pid \<le> 0 then False
      else case os_stat os pid of
        None \<Rightarrow> False
      | Some stat \<Rightarrow>
          (case rfind CHR '')'' stat of
             None \<Rightarrow> False
           | Some e \<Rightarrow> e + 2 < length stat \<and> stat ! (e + 2) \<in> {CHR ''Z'', CHR ''X''}))"

definition start_token :: "os \<Rightarrow> i32 \<Rightarrow> u64" where
  "start_token os pid =
     (if sint pid \<le> 0 then 0
      else case os_stat os pid of
        None \<Rightarrow> 0
      | Some stat \<Rightarrow>
          (case rfind CHR '')'' stat of
             None \<Rightarrow> 0
           | Some i \<Rightarrow>
               let fields = split_whitespace (drop (i + 1) stat)
               in if 19 < length fields
                  then (case parse_u64 (fields ! 19) of Some t \<Rightarrow> t | None \<Rightarrow> 0) else 0))"

definition is_process_alive :: "os \<Rightarrow> i32 \<Rightarrow> u64 \<Rightarrow> bool" where
  "is_process_alive os pid tok =
     (if sint pid \<le> 0 then False
      else if \<not> os_exists os pid then False
      else if is_zombie os pid then False
      else if tok = 0 then True
      else let cur = start_token os pid in if cur = 0 then True else cur = tok)"

section \<open>The owner table\<close>

record slot_owner =
  so_pid :: i32
  so_since :: u32
  so_start_tok :: u64

type_synonym conn_liveness = "nat \<Rightarrow> slot_owner"

definition slot_index :: "u32 \<Rightarrow> nat" where
  "slot_index b = trailing_zeros b"

text \<open>A table pointer may be null: \<open>None\<close>.\<close>

definition set_owner :: "os \<Rightarrow> conn_liveness option \<Rightarrow> u32 \<Rightarrow> conn_liveness option" where
  "set_owner os lv b =
     (case lv of None \<Rightarrow> None
      | Some t \<Rightarrow>
          if b = 0 then Some t
          else Some (t(slot_index b := (t (slot_index b))
                 \<lparr>so_start_tok := start_token os (os_self os), so_pid := os_self os\<rparr>)))"

definition set_since :: "conn_liveness option \<Rightarrow> u32 \<Rightarrow> u32 \<Rightarrow> conn_liveness option" where
  "set_since lv b since =
     (case lv of None \<Rightarrow> None
      | Some t \<Rightarrow>
          if b = 0 then Some t
          else Some (t(slot_index b := (t (slot_index b))\<lparr>so_since := since\<rparr>)))"

definition clear_owner :: "conn_liveness option \<Rightarrow> u32 \<Rightarrow> conn_liveness option" where
  "clear_owner lv b =
     (case lv of None \<Rightarrow> None
      | Some t \<Rightarrow>
          if b = 0 then Some t
          else Some (t(slot_index b := (t (slot_index b))\<lparr>so_pid := 0, so_start_tok := 0\<rparr>)))"

definition live_marks :: "conn_liveness option \<Rightarrow> u32 \<Rightarrow> u32 \<Rightarrow> u32" where
  "live_marks lv bits pos =
     (case lv of None \<Rightarrow> bits
      | Some t \<Rightarrow> for_each_bit
          (\<lambda>b live. if at_or_after pos (so_since (t (slot_index b))) then live OR b else live) bits 0)"

text \<open>
  One iteration of \<open>reap_dead_receivers\<close> on the lowest remaining bit; \<open>env\<close> is
  what another process does to the record between the liveness test and the
  compare-exchange. The state is the table, the connection mask the callback of
  \<open>open\<close> clears, and the reaped mask.
\<close>

definition reap_one ::
  "os \<Rightarrow> (nat \<Rightarrow> slot_owner \<Rightarrow> slot_owner) \<Rightarrow> u32 \<Rightarrow> conn_liveness \<times> u32 \<times> u32 \<Rightarrow> conn_liveness \<times> u32 \<times> u32" where
  "reap_one os env b s = (case s of (t, connections, reaped) \<Rightarrow>
     let i = slot_index b; p = so_pid (t i); tok = so_start_tok (t i)
     in if p = 0 then s
        else if is_process_alive os p tok then s
        else let o' = env i (t i)
             in if so_pid o' = p
                then (t(i := o'\<lparr>so_pid := 0, so_start_tok := 0\<rparr>), connections AND NOT b, reaped OR b)
                else (t(i := o'), connections, reaped))"

definition reap_dead_receivers ::
  "os \<Rightarrow> (nat \<Rightarrow> slot_owner \<Rightarrow> slot_owner) \<Rightarrow> conn_liveness option \<Rightarrow> u32 \<Rightarrow> u32
     \<Rightarrow> conn_liveness option \<times> u32 \<times> u32" where
  "reap_dead_receivers os env lv live connections =
     (case lv of None \<Rightarrow> (None, connections, 0)
      | Some t \<Rightarrow>
          (case for_each_bit (reap_one os env) live (t, connections, 0) of
             (t', connections', reaped) \<Rightarrow> (Some t', connections', reaped)))"

section \<open>Marks and their owners\<close>

lemma bit_live_marks:
  "n < 32 \<Longrightarrow> bit (live_marks (Some t) bits pos) n \<longleftrightarrow> bit bits n \<and> at_or_after pos (so_since (t n))"
  by (simp add: live_marks_def bit_for_each_collect slot_index_def)

text \<open>
  Which marks hold up a writer: for a receiver that recorded the position \<open>S\<close>
  when it connected and a slot that held position \<open>P \<ge> S\<close>, the mark counts as
  live exactly when the distance modulo \<open>2^32\<close> is below \<open>2^31\<close>: for the first
  \<open>2^31\<close> positions after the connect, and then no longer for the next \<open>2^31\<close>,
  although the receiver still owes the read. A mark from before the connect (less
  than \<open>2^31\<close> earlier) is never live.
\<close>

theorem live_marks_exact:
  assumes "n < 32" "so_since (t n) = of_nat S"
  shows "(S \<le> P \<longrightarrow> bit (live_marks (Some t) bits (of_nat P)) n = (bit bits n \<and> (P - S) mod 2 ^ 32 < 2 ^ 31))
    \<and> (P < S \<and> S \<le> P + 2 ^ 31 \<longrightarrow> \<not> bit (live_marks (Some t) bits (of_nat P)) n)"
  using assms at_or_after_of_nat [of S P] not_at_or_after_of_nat [of P S]
  by (auto simp: bit_live_marks)

theorem live_marks_exact_witness:
  "let t = (\<lambda>_. \<lparr>so_pid = 7, so_since = 10, so_start_tok = 0\<rparr>)
   in bit (live_marks (Some t) 1 (of_nat (9 + 2 ^ 31))) 0
      \<and> \<not> bit (live_marks (Some t) 1 (of_nat (10 + 2 ^ 31))) 0"
proof -
  let ?t = "\<lambda>_. \<lparr>so_pid = 7, so_since = 10, so_start_tok = 0\<rparr>"
  have s: "so_since (?t 0) = of_nat 10" by simp
  show ?thesis
    using live_marks_exact [of 0 ?t 10 "9 + 2 ^ 31" 1] live_marks_exact [of 0 ?t 10 "10 + 2 ^ 31" 1]
    by (simp add: Let_def)
qed

section \<open>Reaping\<close>

definition reapable :: "os \<Rightarrow> (nat \<Rightarrow> slot_owner \<Rightarrow> slot_owner) \<Rightarrow> conn_liveness \<Rightarrow> nat \<Rightarrow> bool" where
  "reapable os env t n \<longleftrightarrow>
     so_pid (t n) \<noteq> 0 \<and> \<not> is_process_alive os (so_pid (t n)) (so_start_tok (t n))
     \<and> so_pid (env n (t n)) = so_pid (t n)"

text \<open>The record of slot \<open>n\<close> after its iteration.\<close>

definition reap_slot :: "os \<Rightarrow> (nat \<Rightarrow> slot_owner \<Rightarrow> slot_owner) \<Rightarrow> conn_liveness \<Rightarrow> nat \<Rightarrow> slot_owner" where
  "reap_slot os env t n =
     (if reapable os env t n then (env n (t n))\<lparr>so_pid := 0, so_start_tok := 0\<rparr>
      else if so_pid (t n) \<noteq> 0 \<and> \<not> is_process_alive os (so_pid (t n)) (so_start_tok (t n))
      then env n (t n) else t n)"

lemma reap_one_slot:
  assumes "reap_one os env (2 ^ n) (t, cc, r) = (t1, cc1, r1)" "n < 32"
  shows "t1 = t(n := reap_slot os env t n)"
    and "bit cc1 m \<longleftrightarrow> bit cc m \<and> \<not> (m = n \<and> reapable os env t m)"
    and "bit r1 m \<longleftrightarrow> bit r m \<or> (m = n \<and> reapable os env t m)"
  using assms bit_imp_le_length [of cc m]
  by (auto simp: reap_one_def slot_index_def reapable_def reap_slot_def Let_def bit_simps
      split: if_splits dest: bit_imp_le_length)

lemma reap_fold:
  assumes "distinct ns" "set ns \<subseteq> {..<32}"
    and "fold (\<lambda>n. reap_one os env (2 ^ n)) ns (t, cc, r) = (t', cc', r')"
  shows "t' m = (if m \<in> set ns then reap_slot os env t m else t m)
    \<and> (bit cc' m \<longleftrightarrow> bit cc m \<and> \<not> (m \<in> set ns \<and> reapable os env t m))
    \<and> (bit r' m \<longleftrightarrow> bit r m \<or> (m \<in> set ns \<and> reapable os env t m))"
  using assms
proof (induction ns arbitrary: t cc r)
  case (Cons n ns)
  obtain t1 cc1 r1 where step: "reap_one os env (2 ^ n) (t, cc, r) = (t1, cc1, r1)"
    by (cases "reap_one os env (2 ^ n) (t, cc, r)")
  have n: "n < 32" "n \<notin> set ns" using Cons.prems by auto
  note one = reap_one_slot [OF step n(1)]
  have "m \<noteq> n \<Longrightarrow> reapable os env t1 m = reapable os env t m \<and> reap_slot os env t1 m = reap_slot os env t m"
    by (simp add: one(1) reapable_def reap_slot_def)
  moreover have "t' m = (if m \<in> set ns then reap_slot os env t1 m else t1 m)
    \<and> (bit cc' m \<longleftrightarrow> bit cc1 m \<and> \<not> (m \<in> set ns \<and> reapable os env t1 m))
    \<and> (bit r' m \<longleftrightarrow> bit r1 m \<or> (m \<in> set ns \<and> reapable os env t1 m))"
    using Cons.IH [of t1 cc1 r1] Cons.prems step by simp
  ultimately show ?case
    using one(2,3) [of m] n(2) by (cases "m = n") (auto simp: one(1))
qed simp

lemma reap_effect:
  assumes "reap_dead_receivers os env (Some t) live cc = (Some t', cc', reaped)"
  shows "(bit reaped m \<longleftrightarrow> bit live m \<and> reapable os env t m)
    \<and> cc' = cc AND NOT reaped
    \<and> (\<not> bit live m \<longrightarrow> t' m = t m)
    \<and> (bit reaped m \<longrightarrow> so_pid (t' m) = 0)
    \<and> (bit live m \<and> is_process_alive os (so_pid (t m)) (so_start_tok (t m)) \<longrightarrow> t' m = t m)"
proof -
  let ?ns = "sorted_list_of_set (set_bits_of live)"
  have f: "fold (\<lambda>n. reap_one os env (2 ^ n)) ?ns (t, cc, 0) = (t', cc', reaped)"
    using assms by (simp add: reap_dead_receivers_def for_each_bit_fold split: prod.splits)
  have ns: "distinct ?ns" "set ?ns \<subseteq> {..<32}"
    by (auto simp: set_bits_of_def dest: bit_imp_le_length)
  note fold = reap_fold [OF ns f]
  have "cc' = cc AND NOT reaped"
    by (rule bit_word_eqI) (use fold in \<open>auto simp: bit_simps\<close>)
  then show ?thesis
    using fold [of m] by (auto simp: set_bits_of_def reap_slot_def reapable_def)
qed

text \<open>
  Reaping: for a connected mask \<open>live\<close>, \<open>reap_dead_receivers\<close> disconnects
  exactly the receivers of \<open>live\<close> whose recorded process is not alive and whose
  record no other process changed meanwhile. No other connection bit is
  touched, a slot with an unknown owner (pid 0) or a live one is never reaped,
  and a record that is not reaped is left to its new owner.
\<close>

theorem reap_exact:
  assumes "reap_dead_receivers os env (Some t) live cc = (Some t', cc', reaped)"
  shows "(bit reaped m \<longleftrightarrow> bit live m \<and> reapable os env t m)
    \<and> cc' = cc AND NOT reaped
    \<and> (\<not> bit live m \<longrightarrow> t' m = t m)
    \<and> (bit reaped m \<longrightarrow> so_pid (t' m) = 0)
    \<and> (bit live m \<and> is_process_alive os (so_pid (t m)) (so_start_tok (t m)) \<longrightarrow> t' m = t m)"
  by (rule reap_effect [OF assms])

definition demo_os :: os where
  "demo_os = \<lparr>os_self = 5, os_exists = (\<lambda>p. p = 5), os_stat = (\<lambda>_. None)\<rparr>"

definition demo_table :: conn_liveness where
  "demo_table = (\<lambda>n. \<lparr>so_pid = (if n = 0 then 9 else 5), so_since = 0, so_start_tok = 1\<rparr>)"

theorem reap_exact_witness:
  "\<exists>t' cc' reaped. reap_dead_receivers demo_os (\<lambda>_ r. r) (Some demo_table) 3 3 = (Some t', cc', reaped)
     \<and> bit reaped 0 \<and> \<not> bit reaped 1 \<and> cc' = 3 AND NOT reaped \<and> t' 1 = demo_table 1"
proof -
  obtain t' cc' reaped where
    r: "reap_dead_receivers demo_os (\<lambda>_ r. r) (Some demo_table) 3 3 = (Some t', cc', reaped)"
    by (cases "for_each_bit (reap_one demo_os (\<lambda>_ r. r)) 3 (demo_table, 3, 0)")
       (auto simp: reap_dead_receivers_def)
  have "reapable demo_os (\<lambda>_ r. r) demo_table 0" "\<not> reapable demo_os (\<lambda>_ r. r) demo_table 1"
    "is_process_alive demo_os (so_pid (demo_table 1)) (so_start_tok (demo_table 1))"
    by (simp_all add: reapable_def demo_os_def demo_table_def is_process_alive_def is_zombie_def start_token_def)
  then show ?thesis
    using r reap_exact [OF r, of 0] reap_exact [OF r, of 1]
    by (intro exI [of _ t'] exI [of _ cc'] exI [of _ reaped]) (simp add: bit_numeral_rec)
qed

section \<open>The sole-owner claim\<close>

definition OWNER_CLAIMING :: i32 where "OWNER_CLAIMING = - 1"

text \<open>
  \<open>claim_sole_owner\<close> and \<open>release_sole_owner\<close> as their callers see them when no
  other process touches the record meanwhile.
\<close>

definition claim_sole_owner :: "os \<Rightarrow> slot_owner \<Rightarrow> slot_owner \<times> bool" where
  "claim_sole_owner os r =
     (let cur = so_pid r in
      if cur = OWNER_CLAIMING then (r, False)
      else if cur \<noteq> 0 \<and> is_process_alive os cur (so_start_tok r) then (r, False)
      else (r\<lparr>so_start_tok := start_token os (os_self os), so_pid := os_self os\<rparr>, True))"

definition release_sole_owner :: "os \<Rightarrow> slot_owner \<Rightarrow> slot_owner" where
  "release_sole_owner os r =
     (if so_pid r \<noteq> os_self os then r else r\<lparr>so_start_tok := 0, so_pid := 0\<rparr>)"

text \<open>
  The same two operations one atomic access at a time, run by any number of
  processes on one record. A process is its pid; \<open>ow_dead\<close> are the processes
  that have died, wherever they were. \<open>alive p tok\<close> is the liveness test of
  \<open>is_process_alive\<close> for a process that exists until it dies and whose start
  token is \<open>token p\<close>. A claim goes from \<open>CIdle\<close> over the load of the pid, the
  liveness test, the swap of \<open>OWNER_CLAIMING\<close> and the two stores to \<open>CHolds\<close>
  (\<open>claim_sole_owner\<close> returned true), or back to \<open>CIdle\<close> (it returned false); a
  release from there over the load and the two stores to \<open>CReleased\<close>.
\<close>

datatype claim_pc =
    CIdle
  | CLoaded i32
  | CChecked i32
  | CClaiming
  | CTokenStored
  | CHolds
  | CReleasing
  | CTokenCleared
  | CReleased

record owner_sys =
  ow_pid :: i32
  ow_tok :: u64
  ow_dead :: "i32 set"
  ow_pcs :: "i32 \<Rightarrow> claim_pc"

definition owner_init :: owner_sys where
  "owner_init = \<lparr>ow_pid = 0, ow_tok = 0, ow_dead = {}, ow_pcs = (\<lambda>_. CIdle)\<rparr>"

definition test_alive :: "(i32 \<Rightarrow> u64) \<Rightarrow> owner_sys \<Rightarrow> i32 \<Rightarrow> u64 \<Rightarrow> bool" where
  "test_alive token s p tok \<longleftrightarrow>
     0 < sint p \<and> p \<notin> ow_dead s \<and> (tok = 0 \<or> token p = 0 \<or> token p = tok)"

definition goto :: "owner_sys \<Rightarrow> i32 \<Rightarrow> claim_pc \<Rightarrow> owner_sys" where
  "goto s p pc = s\<lparr>ow_pcs := (ow_pcs s)(p := pc)\<rparr>"

text \<open>
  One access of process \<open>p\<close> in \<open>claim_sole_owner\<close> (from \<open>CIdle\<close>) or \<open>release_sole_owner\<close> (from \<open>CHolds\<close>). The process id of a dead process is not
  given to another one; the start tokens are there for that case.
\<close>

definition owner_access :: "(i32 \<Rightarrow> u64) \<Rightarrow> owner_sys \<Rightarrow> i32 \<Rightarrow> owner_sys" where
  "owner_access token s p = (case ow_pcs s p of
     CIdle \<Rightarrow> goto s p (if ow_pid s = OWNER_CLAIMING then CIdle else CLoaded (ow_pid s))
   | CLoaded cur \<Rightarrow> goto s p (if cur \<noteq> 0 \<and> test_alive token s cur (ow_tok s) then CIdle else CChecked cur)
   | CChecked cur \<Rightarrow> if ow_pid s = cur then goto (s\<lparr>ow_pid := OWNER_CLAIMING\<rparr>) p CClaiming else goto s p CIdle
   | CClaiming \<Rightarrow> goto (s\<lparr>ow_tok := token p\<rparr>) p CTokenStored
   | CTokenStored \<Rightarrow> goto (s\<lparr>ow_pid := p\<rparr>) p CHolds
   | CHolds \<Rightarrow> goto s p (if ow_pid s = p then CReleasing else CReleased)
   | CReleasing \<Rightarrow> goto (s\<lparr>ow_tok := 0\<rparr>) p CTokenCleared
   | CTokenCleared \<Rightarrow> goto (if ow_pid s = p then s\<lparr>ow_pid := 0\<rparr> else s) p CReleased
   | CReleased \<Rightarrow> s)"

text \<open>\<open>reclaim\<close> says whether a process that released its claim may claim again.\<close>

inductive owner_step :: "(i32 \<Rightarrow> u64) \<Rightarrow> bool \<Rightarrow> owner_sys \<Rightarrow> owner_sys \<Rightarrow> bool" for token reclaim where
  owner_move: "0 < sint p \<Longrightarrow> p \<notin> ow_dead s \<Longrightarrow> owner_step token reclaim s (owner_access token s p)"
| owner_again: "reclaim \<Longrightarrow> ow_pcs s p = CReleased \<Longrightarrow> owner_step token reclaim s (goto s p CIdle)"
| owner_die: "owner_step token reclaim s (s\<lparr>ow_dead := insert p (ow_dead s)\<rparr>)"

definition active_pc :: "claim_pc \<Rightarrow> bool" where
  "active_pc pc \<longleftrightarrow> pc \<in> {CClaiming, CTokenStored, CHolds, CReleasing, CTokenCleared}"

definition live_owners :: "owner_sys \<Rightarrow> i32 set" where
  "live_owners s = {p. p \<notin> ow_dead s \<and> active_pc (ow_pcs s p)}"

definition held_pc :: "claim_pc \<Rightarrow> bool" where
  "held_pc pc \<longleftrightarrow> pc \<in> {CHolds, CReleasing, CTokenCleared}"

lemma claim_pc_simps [simp]:
  "active_pc CClaiming" "active_pc CTokenStored" "active_pc CHolds" "active_pc CReleasing"
  "active_pc CTokenCleared" "\<not> active_pc CIdle" "\<not> active_pc (CLoaded c)" "\<not> active_pc (CChecked c)"
  "\<not> active_pc CReleased"
  "held_pc CHolds" "held_pc CReleasing" "held_pc CTokenCleared" "\<not> held_pc CIdle"
  "\<not> held_pc (CLoaded c)" "\<not> held_pc (CChecked c)" "\<not> held_pc CClaiming" "\<not> held_pc CTokenStored"
  "\<not> held_pc CReleased"
  by (simp_all add: active_pc_def held_pc_def)

lemma goto_simps [simp]:
  "ow_pid (goto s p pc) = ow_pid s" "ow_tok (goto s p pc) = ow_tok s" "ow_dead (goto s p pc) = ow_dead s"
  "ow_pcs (goto s p pc) = (ow_pcs s)(p := pc)"
  by (simp_all add: goto_def)

text \<open>
  The pid tells who may be active: the process that is claiming, nobody, or the
  holder. The token is the holder's until it clears it. Whoever loaded a pid
  loaded the pid of a process that holds, has released or is dead, and a test
  that found it dead was right.
\<close>

definition owner_word :: "owner_sys \<Rightarrow> bool" where
  "owner_word s \<longleftrightarrow>
     (if ow_pid s = OWNER_CLAIMING
      then \<exists>c. ow_pcs s c \<in> {CClaiming, CTokenStored} \<and> live_owners s \<subseteq> {c}
      else if ow_pid s = 0 then live_owners s = {}
      else 0 < sint (ow_pid s) \<and> held_pc (ow_pcs s (ow_pid s)) \<and> live_owners s \<subseteq> {ow_pid s})"

definition owner_tok :: "(i32 \<Rightarrow> u64) \<Rightarrow> owner_sys \<Rightarrow> bool" where
  "owner_tok token s \<longleftrightarrow>
     (\<forall>p \<in> live_owners s. (ow_pcs s p \<in> {CTokenStored, CHolds, CReleasing} \<longrightarrow> ow_tok s = token p)
                        \<and> (ow_pcs s p = CTokenCleared \<longrightarrow> ow_tok s = 0))"

definition owner_seen :: "owner_sys \<Rightarrow> bool" where
  "owner_seen s \<longleftrightarrow>
     (\<forall>p cur. ow_pcs s p = CLoaded cur \<longrightarrow> cur \<noteq> 0 \<longrightarrow>
        0 < sint cur \<and> (cur \<in> ow_dead s \<or> held_pc (ow_pcs s cur) \<or> ow_pcs s cur = CReleased))
   \<and> (\<forall>p cur. ow_pcs s p = CChecked cur \<longrightarrow> cur \<noteq> 0 \<longrightarrow>
        0 < sint cur \<and> (cur \<in> ow_dead s \<or> ow_pcs s cur = CReleased))"

definition owner_inv :: "(i32 \<Rightarrow> u64) \<Rightarrow> owner_sys \<Rightarrow> bool" where
  "owner_inv token s \<longleftrightarrow> owner_word s \<and> owner_tok token s \<and> owner_seen s"

lemma live_owners_goto:
  "p \<notin> ow_dead s \<Longrightarrow> live_owners (goto s p pc) =
     (if active_pc pc then insert p (live_owners s) else live_owners s - {p})"
  "live_owners (s\<lparr>ow_pid := q\<rparr>) = live_owners s"
  "live_owners (s\<lparr>ow_tok := k\<rparr>) = live_owners s"
  "live_owners (s\<lparr>ow_dead := insert p (ow_dead s)\<rparr>) = live_owners s - {p}"
  by (auto simp: live_owners_def)

lemma sint_pid_simps [simp]: "0 < sint p \<Longrightarrow> p \<noteq> OWNER_CLAIMING" "0 < sint p \<Longrightarrow> p \<noteq> 0" for p :: i32
  by (auto simp: OWNER_CLAIMING_def)

lemma OWNER_CLAIMING_nz [simp]: "OWNER_CLAIMING \<noteq> 0" "0 \<noteq> OWNER_CLAIMING"
  by (simp_all add: OWNER_CLAIMING_def)

lemma live_owner_sole:
  assumes "owner_word s" "p \<notin> ow_dead s" "active_pc (ow_pcs s p)"
  shows "live_owners s = {p}"
    and "held_pc (ow_pcs s p) \<Longrightarrow> ow_pid s = p"
    and "\<not> held_pc (ow_pcs s p) \<Longrightarrow> ow_pid s = OWNER_CLAIMING"
proof -
  have p: "p \<in> live_owners s" using assms by (simp add: live_owners_def)
  moreover have "\<exists>c. live_owners s \<subseteq> {c}"
    using assms(1) by (auto simp: owner_word_def split: if_splits)
  ultimately show "live_owners s = {p}" by blast
  show "held_pc (ow_pcs s p) \<Longrightarrow> ow_pid s = p" "\<not> held_pc (ow_pcs s p) \<Longrightarrow> ow_pid s = OWNER_CLAIMING"
    using p assms(1) by (auto simp: owner_word_def split: if_splits)
qed

text \<open>A process that saw the record free, or its holder dead, finds no live owner when it swaps.\<close>

lemma checked_no_owner:
  assumes "owner_inv token s" "ow_pcs s p = CChecked (ow_pid s)"
  shows "live_owners s = {}"
proof (cases "ow_pid s = 0")
  case True
  then show ?thesis using assms(1) by (simp add: owner_inv_def owner_word_def)
next
  case False
  then have "0 < sint (ow_pid s)" "ow_pid s \<in> ow_dead s \<or> ow_pcs s (ow_pid s) = CReleased"
    using assms by (auto simp: owner_inv_def owner_seen_def)
  then have "ow_pid s \<notin> live_owners s" "live_owners s \<subseteq> {ow_pid s}"
    using assms(1) by (auto simp: owner_inv_def owner_word_def live_owners_def)
  then show ?thesis by blast
qed

lemma test_dead_right:
  assumes "owner_inv token s" "ow_pcs s p = CLoaded cur" "cur \<noteq> 0" "\<not> test_alive token s cur (ow_tok s)"
  shows "0 < sint cur \<and> (cur \<in> ow_dead s \<or> ow_pcs s cur = CReleased)"
proof -
  have c: "0 < sint cur" "cur \<in> ow_dead s \<or> held_pc (ow_pcs s cur) \<or> ow_pcs s cur = CReleased"
    using assms(1-3) by (auto simp: owner_inv_def owner_seen_def)
  have False if "held_pc (ow_pcs s cur)" "cur \<notin> ow_dead s"
  proof -
    have "cur \<in> live_owners s" using that by (auto simp: live_owners_def held_pc_def)
    then have "ow_tok s = token cur \<or> ow_tok s = 0"
      using assms(1) that(1) by (auto simp: owner_inv_def owner_tok_def held_pc_def)
    then show False using assms(4) c(1) that(2) by (auto simp: test_alive_def)
  qed
  with c show ?thesis by blast
qed

lemma owner_seen_mono:
  assumes "owner_seen s" "ow_dead s \<subseteq> ow_dead s'"
    and "\<And>q. held_pc (ow_pcs s q) \<or> ow_pcs s q = CReleased \<Longrightarrow>
              held_pc (ow_pcs s' q) \<or> ow_pcs s' q = CReleased"
    and "\<And>q. ow_pcs s q = CReleased \<Longrightarrow> ow_pcs s' q = CReleased"
    and "\<And>q c. ow_pcs s' q = CLoaded c \<Longrightarrow> ow_pcs s q = CLoaded c \<or> c = 0
              \<or> 0 < sint c \<and> (c \<in> ow_dead s' \<or> held_pc (ow_pcs s' c) \<or> ow_pcs s' c = CReleased)"
    and "\<And>q c. ow_pcs s' q = CChecked c \<Longrightarrow> ow_pcs s q = CChecked c \<or> c = 0
              \<or> 0 < sint c \<and> (c \<in> ow_dead s' \<or> ow_pcs s' c = CReleased)"
  shows "owner_seen s'"
proof -
  have "0 < sint c \<and> (c \<in> ow_dead s' \<or> held_pc (ow_pcs s' c) \<or> ow_pcs s' c = CReleased)"
    if "ow_pcs s' q = CLoaded c" "c \<noteq> 0" for q c
    using assms(5) [OF that(1)] that(2) assms(1) assms(2) assms(3) [of c]
    unfolding owner_seen_def by blast
  moreover have "0 < sint c \<and> (c \<in> ow_dead s' \<or> ow_pcs s' c = CReleased)"
    if "ow_pcs s' q = CChecked c" "c \<noteq> 0" for q c
    using assms(6) [OF that(1)] that(2) assms(1) assms(2) assms(4) [of c]
    unfolding owner_seen_def by blast
  ultimately show ?thesis unfolding owner_seen_def by blast
qed

lemma owner_access_seen:
  assumes inv: "owner_inv token s" and p: "0 < sint p" "p \<notin> ow_dead s"
  shows "owner_seen (owner_access token s p)"
proof -
  have seen: "owner_seen s" and word: "owner_word s" using inv by (simp_all add: owner_inv_def)
  have idle: "ow_pid s = OWNER_CLAIMING \<or> ow_pid s = 0 \<or>
      0 < sint (ow_pid s) \<and> held_pc (ow_pcs s (ow_pid s))"
    using word by (simp add: owner_word_def split: if_splits)
  show ?thesis
  proof (cases "ow_pcs s p")
    case CIdle
    have "ow_pid s \<noteq> p \<or> \<not> held_pc (ow_pcs s (ow_pid s))" using CIdle by auto
    with CIdle show ?thesis
      by (intro owner_seen_mono [OF seen]) (use idle in \<open>auto simp: owner_access_def split: if_splits\<close>)
  next
    case (CLoaded cur)
    then show ?thesis
      by (intro owner_seen_mono [OF seen])
         (use test_dead_right [OF inv CLoaded] in \<open>auto simp: owner_access_def split: if_splits\<close>)
  qed (intro owner_seen_mono [OF seen]; auto simp: owner_access_def split: if_splits)+
qed

lemma live_minus: "\<not> active_pc (ow_pcs s p) \<Longrightarrow> live_owners s - {p} = live_owners s"
  by (auto simp: live_owners_def)

lemma owner_word_goto:
  assumes word: "owner_word s" and p: "p \<notin> ow_dead s" "\<not> active_pc (ow_pcs s p)" "\<not> active_pc pc"
  shows "owner_word (goto s p pc)"
proof -
  have live: "live_owners (goto s p pc) = live_owners s"
    using p by (simp add: live_owners_goto live_minus)
  have "c \<noteq> p" if "ow_pcs s c \<in> {CClaiming, CTokenStored} \<or> held_pc (ow_pcs s c)" for c
    using that p(2) by (auto simp: active_pc_def held_pc_def)
  then show ?thesis
    using word unfolding owner_word_def live goto_simps by (metis fun_upd_apply)
qed

lemma owner_access_word:
  assumes inv: "owner_inv token s" and p: "0 < sint p" "p \<notin> ow_dead s"
  shows "owner_word (owner_access token s p)"
proof (cases "active_pc (ow_pcs s p)")
  case True
  have word: "owner_word s" using inv by (simp add: owner_inv_def)
  note sole = live_owner_sole [OF word p(2) True]
  show ?thesis
    using True sole p word
    by (cases "ow_pcs s p")
      (auto simp: owner_access_def owner_word_def live_owners_goto split: if_splits)
next
  case False
  have word: "owner_word s" using inv by (simp add: owner_inv_def)
  show ?thesis
  proof (cases "\<exists>cur. ow_pcs s p = CChecked cur \<and> ow_pid s = cur")
    case True
    then have "ow_pcs s p = CChecked (ow_pid s)" by blast
    then show ?thesis
      using checked_no_owner [OF inv] p(2)
      by (auto simp: owner_access_def owner_word_def live_owners_goto)
  next
    case ch: False
    show ?thesis
      using False ch word owner_word_goto [OF word p(2) False]
      by (cases "ow_pcs s p") (auto simp: owner_access_def)
  qed
qed

lemma owner_access_tok:
  assumes inv: "owner_inv token s" and p: "0 < sint p" "p \<notin> ow_dead s"
  shows "owner_tok token (owner_access token s p)"
proof (cases "active_pc (ow_pcs s p)")
  case True
  have word: "owner_word s" and tok: "owner_tok token s" using inv by (simp_all add: owner_inv_def)
  note sole = live_owner_sole [OF word p(2) True]
  have "ow_pcs s p \<in> {CTokenStored, CHolds, CReleasing} \<longrightarrow> ow_tok s = token p"
    using tok sole(1) by (simp add: owner_tok_def)
  then show ?thesis
    using True sole(1) p(2)
    by (cases "ow_pcs s p") (auto simp: owner_access_def owner_tok_def live_owners_goto)
next
  case False
  have tok: "owner_tok token s" using inv by (simp add: owner_inv_def)
  have keep: "owner_tok token (goto s p pc)" if "\<not> active_pc pc" for pc
    using tok False p(2) that by (auto simp: owner_tok_def live_owners_goto)
  have claim: "owner_tok token (goto (s\<lparr>ow_pid := OWNER_CLAIMING\<rparr>) p CClaiming)"
    if "ow_pcs s p = CChecked (ow_pid s)"
    using checked_no_owner [OF inv that] p(2) by (simp add: owner_tok_def live_owners_goto)
  show ?thesis
    using False keep claim tok by (cases "ow_pcs s p") (auto simp: owner_access_def)
qed

lemma owner_die_inv:
  assumes "owner_inv token s"
  shows "owner_inv token (s\<lparr>ow_dead := insert p (ow_dead s)\<rparr>)"
proof -
  have "owner_word (s\<lparr>ow_dead := insert p (ow_dead s)\<rparr>)"
    using assms unfolding owner_inv_def owner_word_def live_owners_goto(4)
    by (simp split: if_splits) (blast, blast)
  moreover have "owner_tok token (s\<lparr>ow_dead := insert p (ow_dead s)\<rparr>)"
    using assms unfolding owner_inv_def owner_tok_def live_owners_goto(4) by simp blast
  moreover have "owner_seen (s\<lparr>ow_dead := insert p (ow_dead s)\<rparr>)"
    by (rule owner_seen_mono [of s]) (use assms in \<open>simp_all add: owner_inv_def subset_insertI\<close>)
  ultimately show ?thesis by (simp add: owner_inv_def)
qed

lemma owner_step_inv: "owner_inv token s \<Longrightarrow> owner_step token False s s' \<Longrightarrow> owner_inv token s'"
  by (erule owner_step.cases)
     (simp_all add: owner_inv_def [of _ "owner_access _ _ _"] owner_access_word owner_access_tok
       owner_access_seen owner_die_inv)

lemma owner_inv_init: "owner_inv token owner_init"
  by (simp add: owner_inv_def owner_word_def owner_tok_def owner_seen_def owner_init_def live_owners_def)

interpretation owner: invariant_system owner_init "owner_step token False" "owner_inv token" for token
  by unfold_locales (blast intro: owner_inv_init owner_step_inv)+

text \<open>Schedules: \<open>Move p\<close> is an access of \<open>p\<close>, \<open>Again p\<close> a new claim after a release.\<close>

datatype owner_event = Move i32 | Again i32 | Die i32

fun owner_apply :: "(i32 \<Rightarrow> u64) \<Rightarrow> owner_sys \<Rightarrow> owner_event \<Rightarrow> owner_sys" where
  "owner_apply token s (Move p) = owner_access token s p"
| "owner_apply token s (Again p) = goto s p CIdle"
| "owner_apply token s (Die p) = s\<lparr>ow_dead := insert p (ow_dead s)\<rparr>"

fun owner_enabled :: "bool \<Rightarrow> owner_sys \<Rightarrow> owner_event \<Rightarrow> bool" where
  "owner_enabled reclaim s (Move p) \<longleftrightarrow> 0 < sint p \<and> p \<notin> ow_dead s"
| "owner_enabled reclaim s (Again p) \<longleftrightarrow> reclaim \<and> ow_pcs s p = CReleased"
| "owner_enabled reclaim s (Die p) \<longleftrightarrow> True"

fun owner_run :: "(i32 \<Rightarrow> u64) \<Rightarrow> bool \<Rightarrow> owner_sys \<Rightarrow> owner_event list \<Rightarrow> owner_sys option" where
  "owner_run token reclaim s [] = Some s"
| "owner_run token reclaim s (e # es) =
     (if owner_enabled reclaim s e then owner_run token reclaim (owner_apply token s e) es else None)"

lemma owner_run_steps:
  "owner_run token reclaim s es = Some s' \<Longrightarrow> rtranclp (owner_step token reclaim) s s'"
proof (induction es arbitrary: s)
  case (Cons e es)
  then have en: "owner_enabled reclaim s e" and
    run: "owner_run token reclaim (owner_apply token s e) es = Some s'"
    by (auto split: if_splits)
  have "owner_step token reclaim s (owner_apply token s e)"
    using en by (cases e) (auto intro: owner_step.intros)
  with Cons.IH [OF run] show ?case by (rule converse_rtranclp_into_rtranclp [rotated])
qed simp

text \<open>
  C14. Sole sender: as long as no process claims again after it released, at most
  one live process holds a route's sender record, whatever claims, releases and
  deaths interleave; a dead holder may be replaced, a live one never is.
\<close>

theorem sole_owner_exclusive:
  assumes "rtranclp (owner_step token False) owner_init s"
    and "ow_pcs s p = CHolds" "p \<notin> ow_dead s" "ow_pcs s q = CHolds" "q \<notin> ow_dead s"
  shows "p = q \<and> ow_pid s = p"
proof -
  have word: "owner_word s" using owner.reachable_inv [OF assms(1)] by (simp add: owner_inv_def)
  show ?thesis
    using live_owner_sole [OF word, of p] live_owner_sole [OF word, of q] assms by simp
qed

definition takeover_events :: "owner_event list" where
  "takeover_events = replicate 5 (Move 1) @ [Die 1] @ replicate 5 (Move 2)"

theorem sole_owner_exclusive_witness:
  "\<exists>s. owner_run (\<lambda>p. ucast p) False owner_init takeover_events = Some s
     \<and> ow_pcs s 1 = CHolds \<and> ow_pcs s 2 = CHolds \<and> ow_dead s = {1} \<and> ow_pid s = 2"
proof -
  have "case owner_run (\<lambda>p. ucast p) False owner_init takeover_events of None \<Rightarrow> False
      | Some s \<Rightarrow> ow_pcs s 1 = CHolds \<and> ow_pcs s 2 = CHolds \<and> ow_dead s = {1}"
    by code_simp
  then obtain s where r: "owner_run (\<lambda>p. ucast p) False owner_init takeover_events = Some s"
    and pcs: "ow_pcs s 1 = CHolds" "ow_pcs s 2 = CHolds" and d: "ow_dead s = {1}"
    by (auto split: option.splits)
  have "2 \<notin> ow_dead s" using d by simp
  then show ?thesis
    using r pcs d sole_owner_exclusive [OF owner_run_steps [OF r], of 2 2] by blast
qed

definition aba_events :: "owner_event list" where
  "aba_events =
     replicate 5 (Move 1) @ [Move 3] @ replicate 3 (Move 1)
     @ replicate 4 (Move 2) @ [Move 3] @ replicate 4 (Move 2)
     @ [Again 1] @ replicate 5 (Move 1) @ replicate 3 (Move 3)"

text \<open>
  The claim is not safe when a process may claim again: there is a run of
  three live processes in which the first holds, releases and claims again while
  a third tests it against the token a second one stored in between. The third
  takes it for dead, its compare-exchange meets the first one's pid again, and
  both hold the sender record.
\<close>

theorem sole_owner_reclaim_unsafe:
  "\<exists>s. rtranclp (owner_step (\<lambda>p. ucast p) True) owner_init s \<and> ow_dead s = {}
     \<and> ow_pcs s 1 = CHolds \<and> ow_pcs s 3 = CHolds"
proof -
  have "case owner_run (\<lambda>p. ucast p) True owner_init aba_events of None \<Rightarrow> False
      | Some s \<Rightarrow> ow_pcs s 1 = CHolds \<and> ow_pcs s 3 = CHolds \<and> ow_dead s = {}"
    by code_simp
  then obtain s where r: "owner_run (\<lambda>p. ucast p) True owner_init aba_events = Some s"
    and "ow_pcs s 1 = CHolds" "ow_pcs s 3 = CHolds" "ow_dead s = {}"
    by (auto split: option.splits)
  then show ?thesis using owner_run_steps [OF r] by blast
qed

lemma wedged_step:
  assumes inv: "owner_inv token s" and w: "ow_pid s = OWNER_CLAIMING" "live_owners s = {}"
    and step: "owner_step token False s s'"
  shows "ow_pid s' = OWNER_CLAIMING \<and> live_owners s' = {}"
  using step
proof cases
  case (owner_move p)
  then have na: "\<not> active_pc (ow_pcs s p)" using w(2) by (auto simp: live_owners_def)
  have "cur \<noteq> OWNER_CLAIMING" if "ow_pcs s p = CChecked cur" for cur
    using inv that sint_pid_simps(1) [of cur] OWNER_CLAIMING_nz
    unfolding owner_inv_def owner_seen_def by metis
  then show ?thesis
    using owner_move na w
    by (cases "ow_pcs s p") (auto simp: owner_access_def live_owners_goto)
qed (use w in \<open>auto simp: live_owners_goto\<close>)

lemma wedged_steps:
  assumes "rtranclp (owner_step token False) s s'"
    and "owner_inv token s" "ow_pid s = OWNER_CLAIMING" "live_owners s = {}"
  shows "ow_pid s' = OWNER_CLAIMING \<and> live_owners s' = {}"
  using assms
proof (induction rule: converse_rtranclp_induct)
  case (step y z)
  then show ?case using wedged_step [of token y z] owner_step_inv [of token y z] by blast
qed simp

text \<open>
  A claimant that dies between its compare-exchange and its pid store leaves
  the record claiming for good: from such a state, with no live process in the
  middle of a claim, no process ever holds the sender record again.
\<close>

theorem dead_claimant_wedges:
  assumes "rtranclp (owner_step token False) owner_init s"
    and "ow_pid s = OWNER_CLAIMING" "live_owners s = {}"
    and "rtranclp (owner_step token False) s s'"
  shows "ow_pid s' = OWNER_CLAIMING \<and> (\<forall>p. p \<notin> ow_dead s' \<longrightarrow> ow_pcs s' p \<noteq> CHolds)"
  using wedged_steps [OF assms(4) owner.reachable_inv [OF assms(1)] assms(2,3)]
  by (auto simp: live_owners_def)

theorem dead_claimant_wedges_witness:
  "\<exists>s. owner_run (\<lambda>p. ucast p) False owner_init [Move 1, Move 1, Move 1, Die 1] = Some s
     \<and> ow_pid s = OWNER_CLAIMING \<and> live_owners s = {}
     \<and> ow_pid (owner_access (\<lambda>p. ucast p) s 2) = OWNER_CLAIMING"
proof -
  let ?token = "\<lambda>p. ucast p :: u64"
  let ?s = "\<lparr>ow_pid = OWNER_CLAIMING, ow_tok = 0, ow_dead = {1}, ow_pcs = (\<lambda>_. CIdle)(1 := CClaiming)\<rparr>"
  have r: "owner_run ?token False owner_init [Move 1, Move 1, Move 1, Die 1] = Some ?s"
    by (simp add: owner_init_def owner_access_def goto_def OWNER_CLAIMING_def)
  have l: "live_owners ?s = {}" by (auto simp: live_owners_def)
  have "owner_step ?token False ?s (owner_access ?token ?s 2)"
    by (rule owner_move) simp_all
  then have "rtranclp (owner_step ?token False) ?s (owner_access ?token ?s 2)" by (rule r_into_rtranclp)
  then show ?thesis
    using r l dead_claimant_wedges [OF owner_run_steps [OF r]] by simp
qed

end
