(* ===== verification/Route.thy ===== *)
theory Route
  imports Message Liveness
begin

text \<open>
  The single-writer ring of a route (\<open>channel.rs\<close>): the shared ring, the sender's
  \<open>push_fragment\<close> and the receiver's slot loop of \<open>recv\<close> with \<open>release_slot\<close>, one
  step per access to shared memory. A predicate that reads several words (the
  busy test with its owner-table loads) and the copy of a slot's bytes are one
  step each.
\<close>

section \<open>The ring\<close>

record relem =
  re_data :: "u8 list"
  re_rc :: u64

record ring =
  rg_connections :: u32
  rg_write_cursor :: u32
  rg_epoch :: u64
  rg_slots :: "u8 \<Rightarrow> relem"
  rg_live :: conn_liveness

definition EP_MASK :: u64 where "EP_MASK = route_ep_mask"
definition EP_INCR :: u64 where "EP_INCR = route_ep_incr"
definition RING_LAP :: u32 where "RING_LAP = of_nat ring_size"

text \<open>\<open>ChanInner::live_marks\<close> widens and narrows around \<open>liveness::live_marks\<close>.\<close>

definition chan_live_marks :: "conn_liveness \<Rightarrow> u64 \<Rightarrow> u32 \<Rightarrow> u64" where
  "chan_live_marks lv bits pos = ucast (live_marks (Some lv) (ucast bits) pos)"

text \<open>The test of \<open>push_fragment\<close>: a live reader still owes a read of the slot in this epoch.\<close>

definition route_busy :: "conn_liveness \<Rightarrow> u64 \<Rightarrow> u64 \<Rightarrow> u64 \<Rightarrow> u32 \<Rightarrow> bool" where
  "route_busy lv cc rc epoch prev \<longleftrightarrow>
     cc AND (rc AND EP_MASK) \<noteq> 0 \<and> rc AND NOT EP_MASK = epoch
     \<and> chan_live_marks lv (cc AND (rc AND EP_MASK)) prev \<noteq> 0"

abbreviation set_rc :: "ring \<Rightarrow> u8 \<Rightarrow> u64 \<Rightarrow> ring" where
  "set_rc g i v \<equiv> g\<lparr>rg_slots := (rg_slots g)(i := (rg_slots g i)\<lparr>re_rc := v\<rparr>)\<rparr>"

abbreviation set_data :: "ring \<Rightarrow> u8 \<Rightarrow> u8 list \<Rightarrow> ring" where
  "set_data g i d \<equiv> g\<lparr>rg_slots := (rg_slots g)(i := (rg_slots g i)\<lparr>re_data := d\<rparr>)\<rparr>"

section \<open>The sender\<close>

text \<open>
  Where \<open>push_fragment\<close> is, with the local variables it still needs: the loads
  of the claim loop, the wait for room, the three writes of a forced push, the
  compare-exchange on \<open>rc_\<close>, the write of the record, the cursor.
\<close>

datatype push_pc =
    PConn
  | PEpoch u64
  | PCursor u64 u64
  | PRc u64 u64 u32
  | PWait u64 u32
  | PBump u64 u32
  | PRem u64 u32
  | PEvict u32 u64
  | PUnmark u32 u64
  | PCas u64 u64 u32 u64
  | PWrite u32
  | PAdvance
  | PReturn bool
  | PError

text \<open>What the environment decides at a step: a weak compare-exchange may fail, a wait may time out or fail.\<close>

datatype choice = Proceed | Spurious | Timeout | WaitError

definition push_access ::
  "u32 \<Rightarrow> u32 \<times> i32 \<times> u8 list \<Rightarrow> choice \<Rightarrow> ring \<Rightarrow> push_pc \<Rightarrow> ring \<times> push_pc" where
  "push_access cc_id frag ch g pc = (case pc of
     PConn \<Rightarrow>
       let cc = ucast (rg_connections g) in (g, if cc = 0 then PReturn False else PEpoch cc)
   | PEpoch cc \<Rightarrow> (g, PCursor cc (rg_epoch g))
   | PCursor cc epoch \<Rightarrow> (g, PRc cc epoch (rg_write_cursor g))
   | PRc cc epoch wt \<Rightarrow>
       let cur_rc = re_rc (rg_slots g (index_of wt)); prev = wt - RING_LAP
       in (g, if route_busy (rg_live g) cc cur_rc epoch prev then PWait cc wt
              else PCas cc epoch wt cur_rc)
   | PWait cc wt \<Rightarrow>
       let rc = re_rc (rg_slots g (index_of wt)); prev = wt - RING_LAP
       in (g, if \<not> route_busy (rg_live g) cc rc (rg_epoch g) prev then PConn
              else case ch of Timeout \<Rightarrow> PBump cc wt | WaitError \<Rightarrow> PError | _ \<Rightarrow> PWait cc wt)
   | PBump cc wt \<Rightarrow> (g\<lparr>rg_epoch := rg_epoch g + EP_INCR\<rparr>, PRem cc wt)
   | PRem cc wt \<Rightarrow>
       let rem2 = chan_live_marks (rg_live g) (re_rc (rg_slots g (index_of wt)) AND EP_MASK AND cc) (wt - RING_LAP)
       in (g, if rem2 = 0 then PConn else PEvict wt rem2)
   | PEvict wt rem2 \<Rightarrow>
       let new_cc = rg_connections g AND NOT (ucast rem2)
       in (g\<lparr>rg_connections := new_cc\<rparr>, if new_cc = 0 then PReturn False else PUnmark wt rem2)
   | PUnmark wt rem2 \<Rightarrow>
       (set_rc g (index_of wt) (re_rc (rg_slots g (index_of wt)) AND NOT rem2), PConn)
   | PCas cc epoch wt cur_rc \<Rightarrow>
       if re_rc (rg_slots g (index_of wt)) = cur_rc \<and> ch \<noteq> Spurious
       then (set_rc g (index_of wt) (epoch OR cc), PWrite wt)
       else (g, PConn)
   | PWrite wt \<Rightarrow>
       (case frag of (mid, remain, payload) \<Rightarrow>
          (set_data g (index_of wt)
             (write_msg (re_data (rg_slots g (index_of wt))) cc_id mid remain False payload), PAdvance))
   | PAdvance \<Rightarrow> (g\<lparr>rg_write_cursor := rg_write_cursor g + 1\<rparr>, PReturn True)
   | PReturn b \<Rightarrow> (g, PReturn b)
   | PError \<Rightarrow> (g, PError))"

section \<open>A receiver\<close>

text \<open>
  Where the slot loop of \<open>recv\<close> is: the emptiness test, the read of the slot, and
  \<open>release_slot\<close> with the bytes it read, then the cursor. \<open>RTimeout\<close> is a return
  with an empty buffer.
\<close>

datatype recv_pc =
    RCheck
  | RRead
  | RLoadRc "u8 list"
  | RCasRc "u8 list" u64
  | RAdvance "u8 list"
  | RTimeout

definition recv_access ::
  "u32 \<Rightarrow> choice \<Rightarrow> ring \<Rightarrow> u32 \<Rightarrow> recv_pc \<Rightarrow> ring \<times> u32 \<times> recv_pc" where
  "recv_access conn_id ch g read_cursor pc = (case pc of
     RCheck \<Rightarrow>
       (g, read_cursor,
        if rg_write_cursor g = read_cursor then (if ch = Timeout then RTimeout else RCheck) else RRead)
   | RRead \<Rightarrow> (g, read_cursor, RLoadRc (re_data (rg_slots g (index_of read_cursor))))
   | RLoadRc d \<Rightarrow>
       let cur_rc = re_rc (rg_slots g (index_of read_cursor))
       in (g, read_cursor, if cur_rc AND EP_MASK = 0 then RAdvance d else RCasRc d cur_rc)
   | RCasRc d cur_rc \<Rightarrow>
       if re_rc (rg_slots g (index_of read_cursor)) = cur_rc \<and> ch \<noteq> Spurious
       then (set_rc g (index_of read_cursor) (cur_rc AND NOT (ucast conn_id)), read_cursor, RAdvance d)
       else (g, read_cursor, RLoadRc d)
   | RAdvance d \<Rightarrow> (g, read_cursor + 1, RCheck)
   | RTimeout \<Rightarrow> (g, read_cursor, RCheck))"

section \<open>Sender and receivers together\<close>

text \<open>
  Receiver \<open>r\<close> owns connection bit \<open>r\<close>. Two histories are kept beside the
  program's state: the slot contents published so far, and those each receiver
  has read.
\<close>

record receiver =
  rv_cursor :: u32
  rv_pc :: recv_pc
  rv_log :: "u8 list list"

record route_sys =
  rs_ring :: ring
  rs_pc :: push_pc
  rs_frag :: "u32 \<times> i32 \<times> u8 list"
  rs_hist :: "u8 list list"
  rs_recv :: "nat \<Rightarrow> receiver"

definition sender_step :: "u32 \<Rightarrow> choice \<Rightarrow> route_sys \<Rightarrow> route_sys" where
  "sender_step cc_id ch s =
     (case push_access cc_id (rs_frag s) ch (rs_ring s) (rs_pc s) of (g, pc) \<Rightarrow>
        s\<lparr>rs_ring := g, rs_pc := pc,
          rs_hist := (if rs_pc s = PAdvance
                      then rs_hist s @ [re_data (rg_slots (rs_ring s) (index_of (rg_write_cursor (rs_ring s))))]
                      else rs_hist s)\<rparr>)"

definition receiver_step :: "choice \<Rightarrow> nat \<Rightarrow> route_sys \<Rightarrow> route_sys" where
  "receiver_step ch r s =
     (let v = rs_recv s r in
      case recv_access (2 ^ r) ch (rs_ring s) (rv_cursor v) (rv_pc v) of (g, cur, pc) \<Rightarrow>
        s\<lparr>rs_ring := g,
          rs_recv := (rs_recv s)(r := \<lparr>rv_cursor = cur, rv_pc = pc,
            rv_log = (case rv_pc v of RAdvance d \<Rightarrow> rv_log v @ [d] | _ \<Rightarrow> rv_log v)\<rparr>)\<rparr>)"

text \<open>
  Runs of one sender, with receivers \<open>R\<close> that stay connected and a sender whose
  waits do not time out; \<open>push_fragment\<close> is called again, with any fragment,
  after it returned.
\<close>

inductive route_step :: "u32 \<Rightarrow> nat set \<Rightarrow> route_sys \<Rightarrow> route_sys \<Rightarrow> bool" for cc_id R where
  route_send: "ch \<noteq> Timeout \<Longrightarrow> route_step cc_id R s (sender_step cc_id ch s)"
| route_call: "rs_pc s = PReturn b \<Longrightarrow> route_step cc_id R s (s\<lparr>rs_pc := PConn, rs_frag := f\<rparr>)"
| route_recv: "r \<in> R \<Longrightarrow> route_step cc_id R s (receiver_step ch r s)"

text \<open>A fresh ring on which the receivers \<open>R\<close> connected at position 0.\<close>

definition fresh_ring :: "u32 \<Rightarrow> ring" where
  "fresh_ring cc = \<lparr>rg_connections = cc, rg_write_cursor = 0, rg_epoch = 0,
     rg_slots = (\<lambda>_. \<lparr>re_data = replicate msg_t_size 0, re_rc = 0\<rparr>),
     rg_live = (\<lambda>_. \<lparr>so_pid = 1, so_since = 0, so_start_tok = 0\<rparr>)\<rparr>"

definition route_init :: "u32 \<Rightarrow> route_sys" where
  "route_init cc = \<lparr>rs_ring = fresh_ring cc, rs_pc = PReturn True, rs_frag = (0, 0, []), rs_hist = [],
     rs_recv = (\<lambda>_. \<lparr>rv_cursor = 0, rv_pc = RCheck, rv_log = []\<rparr>)\<rparr>"

section \<open>The ring invariant\<close>

abbreviation slot_ix :: "nat \<Rightarrow> u8" where
  "slot_ix p \<equiv> of_nat p"

lemma index_of_of_nat [simp]: "index_of (of_nat p) = slot_ix p"
  unfolding index_of_def by (rule bit_word_eqI) (auto simp: bit_simps)

lemma slot_ix_eq_iff: "slot_ix p = slot_ix q \<longleftrightarrow> p mod 256 = q mod 256"
  by (simp add: word_of_nat_eq_iff take_bit_eq_mod)

lemma slot_ix_window: "slot_ix p = slot_ix q \<Longrightarrow> a \<le> p \<Longrightarrow> p < a + 256 \<Longrightarrow> a \<le> q \<Longrightarrow> q < a + 256 \<Longrightarrow> p = q"
  unfolding slot_ix_eq_iff
proof (induction p q rule: linorder_wlog)
  case (le p q)
  then have "256 dvd q - p" by (metis mod_eq_dvd_iff_nat)
  moreover have "q - p < 256" using le by simp
  ultimately have "q - p = 0" by (metis dvd_imp_le not_less zero_less_iff_neq_zero)
  with le show ?case by simp
qed auto

lemma slot_ix_lap: "256 \<le> p \<Longrightarrow> slot_ix (p - 256) = slot_ix p"
  by (simp add: slot_ix_eq_iff mod_if)

text \<open>
  \<open>hist\<close> are the published slots, \<open>w\<close> is one past the last position claimed and
  \<open>e r\<close> the first position receiver \<open>r\<close> has not released. A slot carries the mark
  of \<open>r\<close> exactly when a claimed position of that slot is not released by \<open>r\<close>.
\<close>

definition ring_ok :: "u32 \<Rightarrow> u8 list list \<Rightarrow> nat \<Rightarrow> (nat \<Rightarrow> nat) \<Rightarrow> ring \<Rightarrow> bool" where
  "ring_ok cc hist w e g \<longleftrightarrow>
     rg_connections g = cc \<and> rg_epoch g = 0 \<and> rg_write_cursor g = of_nat (length hist)
   \<and> (\<forall>r. so_since (rg_live g r) = 0)
   \<and> length hist \<le> w
   \<and> (\<forall>i n. bit (re_rc (rg_slots g i)) n \<longrightarrow> n < 32 \<and> bit cc n)
   \<and> (\<forall>i r. bit cc r \<longrightarrow>
        (bit (re_rc (rg_slots g i)) r \<longleftrightarrow> (\<exists>p. e r \<le> p \<and> p < w \<and> slot_ix p = i)))
   \<and> (\<forall>p < length hist. w \<le> p + 256 \<longrightarrow> re_data (rg_slots g (slot_ix p)) = hist ! p)
   \<and> (\<forall>r. bit cc r \<longrightarrow> e r \<le> length hist \<and> w \<le> e r + 256)"

lemma ring_okD:
  assumes "ring_ok cc hist w e g"
  shows "rg_connections g = cc" "rg_epoch g = 0" "rg_write_cursor g = of_nat (length hist)"
    "so_since (rg_live g r) = 0" "length hist \<le> w"
    "bit (re_rc (rg_slots g i)) n \<Longrightarrow> n < 32" "bit (re_rc (rg_slots g i)) n \<Longrightarrow> bit cc n"
    "bit cc r \<Longrightarrow> bit (re_rc (rg_slots g i)) r \<longleftrightarrow> (\<exists>p. e r \<le> p \<and> p < w \<and> slot_ix p = i)"
    "p < length hist \<Longrightarrow> w \<le> p + 256 \<Longrightarrow> re_data (rg_slots g (slot_ix p)) = hist ! p"
    "bit cc r \<Longrightarrow> e r \<le> length hist" "bit cc r \<Longrightarrow> w \<le> e r + 256"
  using assms unfolding ring_ok_def by blast+

lemma ring_okI:
  assumes "rg_connections g = cc" "rg_epoch g = 0" "rg_write_cursor g = of_nat (length hist)"
    "\<And>r. so_since (rg_live g r) = 0" "length hist \<le> w"
    "\<And>i n. bit (re_rc (rg_slots g i)) n \<Longrightarrow> n < 32 \<and> bit cc n"
    "\<And>i r. bit cc r \<Longrightarrow> bit (re_rc (rg_slots g i)) r \<longleftrightarrow> (\<exists>p. e r \<le> p \<and> p < w \<and> slot_ix p = i)"
    "\<And>p. p < length hist \<Longrightarrow> w \<le> p + 256 \<Longrightarrow> re_data (rg_slots g (slot_ix p)) = hist ! p"
    "\<And>r. bit cc r \<Longrightarrow> e r \<le> length hist \<and> w \<le> e r + 256"
  shows "ring_ok cc hist w e g"
  using assms unfolding ring_ok_def by blast

text \<open>The slot at the cursor is marked by \<open>r\<close> exactly when \<open>r\<close> is a whole ring behind.\<close>

lemma ring_ok_lapped:
  assumes ok: "ring_ok cc hist (length hist) e g" and r: "bit cc r"
  shows "bit (re_rc (rg_slots g (slot_ix (length hist)))) r \<longleftrightarrow> e r + 256 = length hist"
proof
  assume "bit (re_rc (rg_slots g (slot_ix (length hist)))) r"
  then obtain p where p: "e r \<le> p" "p < length hist" "slot_ix p = slot_ix (length hist)"
    using ring_okD(8) [OF ok r] by blast
  have b: "length hist \<le> e r + 256" by (rule ring_okD(11) [OF ok r])
  show "e r + 256 = length hist"
  proof (rule ccontr)
    assume "e r + 256 \<noteq> length hist"
    with b have "p = length hist" using p by (intro slot_ix_window [of _ _ "e r"]) auto
    with p(2) show False by simp
  qed
next
  assume *: "e r + 256 = length hist"
  then have "slot_ix (e r) = slot_ix (length hist)" by (metis slot_ix_lap add_diff_cancel_right' le_add2)
  with * show "bit (re_rc (rg_slots g (slot_ix (length hist)))) r"
    unfolding ring_okD(8) [OF ok r] by (intro exI [of _ "e r"]) simp
qed
text \<open>
  For the first \<open>2^31 + 256\<close> fragments the busy test of \<open>push_fragment\<close> is exact:
  the sender waits if and only if some receiver is a whole ring behind.
\<close>

lemma bit_ucast_cc: "bit (ucast (cc :: u32) :: u64) n \<longleftrightarrow> bit cc n"
  by (auto simp: bit_simps dest: bit_imp_le_length)

lemma bit_EP_MASK: "bit EP_MASK n \<longleftrightarrow> n < 32"
proof -
  have m: "EP_MASK = mask 32" by (simp add: EP_MASK_def route_ep_mask_def mask_eq_exp_minus_1)
  show ?thesis unfolding m bit_mask_iff by auto
qed

lemma route_busy_iff:
  assumes ok: "ring_ok cc hist (length hist) e g" and W: "length hist < 2 ^ 31 + 256"
  shows "route_busy (rg_live g) (ucast cc) (re_rc (rg_slots g (slot_ix (length hist)))) 0
      (of_nat (length hist) - RING_LAP) \<longleftrightarrow> (\<exists>r. bit cc r \<and> e r + 256 = length hist)"
proof -
  let ?W = "length hist"
  let ?rc = "re_rc (rg_slots g (slot_ix ?W))"
  let ?m = "(ucast cc :: u64) AND (?rc AND EP_MASK)"
  have m: "bit ?m n \<longleftrightarrow> bit ?rc n" for n
    using ring_okD(6,7) [OF ok, of "slot_ix ?W" n]
    by (auto simp: bit_and_iff bit_ucast_cc bit_EP_MASK)
  have hi: "?rc AND NOT EP_MASK = 0"
  proof (rule bit_word_eqI)
    fix n show "bit (?rc AND NOT EP_MASK) n = bit 0 n"
      using ring_okD(6) [OF ok, of "slot_ix ?W" n] by (auto simp: bit_simps bit_EP_MASK)
  qed
  show ?thesis
  proof
    assume "route_busy (rg_live g) (ucast cc) ?rc 0 (of_nat ?W - RING_LAP)"
    then have "?m \<noteq> 0" by (simp add: route_busy_def)
    then obtain n where "bit ?m n" by (metis bit_eqI bit_0_eq bot_apply bot_bool_def)
    then have "bit ?rc n" by (simp add: m)
    then show "\<exists>r. bit cc r \<and> e r + 256 = ?W"
      using ring_okD(7) [OF ok] ring_ok_lapped [OF ok] by blast
  next
    assume "\<exists>r. bit cc r \<and> e r + 256 = ?W"
    then obtain r where r: "bit cc r" "e r + 256 = ?W" by blast
    have b: "bit ?rc r" using ring_ok_lapped [OF ok r(1)] r(2) by simp
    then have r32: "r < 32" by (rule ring_okD(6) [OF ok])
    have prev: "(of_nat ?W - RING_LAP :: u32) = of_nat (e r)"
      by (simp flip: r(2) add: RING_LAP_def ring_size_def)
    have "at_or_after (of_nat (e r)) (of_nat 0)"
      using W r(2) by (subst at_or_after_of_nat) simp_all
    then have "bit (chan_live_marks (rg_live g) ?m (of_nat ?W - RING_LAP)) r"
      using b r32 m [of r] unfolding prev
      by (simp add: chan_live_marks_def bit_ucast_cc bit_live_marks ring_okD(4) [OF ok] bit_unsigned_iff)
    then show "route_busy (rg_live g) (ucast cc) ?rc 0 (of_nat ?W - RING_LAP)"
      using b m [of r] hi by (auto simp: route_busy_def)
  qed
qed

lemma ring_ok_claim:
  assumes ok: "ring_ok cc hist (length hist) e g"
    and free: "\<And>r. bit cc r \<Longrightarrow> \<not> bit (re_rc (rg_slots g (slot_ix (length hist)))) r"
  shows "ring_ok cc hist (Suc (length hist)) e (set_rc g (slot_ix (length hist)) (ucast cc))"
proof (rule ring_okI)
  let ?W = "length hist"
  fix i r assume r: "bit cc r"
  have e: "e r \<le> ?W" by (rule ring_okD(10) [OF ok r])
  show "bit (re_rc (rg_slots (set_rc g (slot_ix ?W) (ucast cc)) i)) r
      \<longleftrightarrow> (\<exists>p. e r \<le> p \<and> p < Suc ?W \<and> slot_ix p = i)"
    using ring_okD(8) [OF ok r, of i] r e by (auto simp: bit_ucast_cc less_Suc_eq)
next
  fix r assume r: "bit cc r"
  have "e r + 256 \<noteq> length hist" using free [OF r] ring_ok_lapped [OF ok r] by simp
  then show "e r \<le> length hist \<and> Suc (length hist) \<le> e r + 256"
    using ring_okD(10,11) [OF ok r] by simp
next
  fix i n assume "bit (re_rc (rg_slots (set_rc g (slot_ix (length hist)) (ucast cc)) i)) n"
  then have "bit (re_rc (rg_slots g i)) n \<or> bit cc n" by (auto simp: bit_ucast_cc split: if_splits)
  then show "n < 32 \<and> bit cc n"
    using ring_okD(6,7) [OF ok, of i n] bit_imp_le_length [of cc n] by auto
next
  fix p assume "p < length hist" "Suc (length hist) \<le> p + 256"
  then show "re_data (rg_slots (set_rc g (slot_ix (length hist)) (ucast cc)) (slot_ix p)) = hist ! p"
    using ring_okD(9) [OF ok, of p] by auto
qed (use ring_okD(1-5) [OF ok] in auto)

lemma ring_ok_write:
  assumes ok: "ring_ok cc hist (Suc (length hist)) e g"
  shows "ring_ok cc hist (Suc (length hist)) e (set_data g (slot_ix (length hist)) d)"
proof (rule ring_okI)
  let ?W = "length hist"
  fix p assume p: "p < ?W" "Suc ?W \<le> p + 256"
  have "slot_ix p \<noteq> slot_ix ?W"
    using p slot_ix_window [of p ?W p] by auto
  then show "re_data (rg_slots (set_data g (slot_ix ?W) d) (slot_ix p)) = hist ! p"
    using ring_okD(9) [OF ok p] by simp
next
  fix i r assume "bit cc r"
  from ring_okD(8) [OF ok this, of i]
  show "bit (re_rc (rg_slots (set_data g (slot_ix (length hist)) d) i)) r
      \<longleftrightarrow> (\<exists>p. e r \<le> p \<and> p < Suc (length hist) \<and> slot_ix p = i)" by (cases "i = slot_ix (length hist)") simp_all
next
  fix i n assume "bit (re_rc (rg_slots (set_data g (slot_ix (length hist)) d) i)) n"
  then have "bit (re_rc (rg_slots g i)) n" by (simp split: if_splits)
  then show "n < 32 \<and> bit cc n" using ring_okD(6,7) [OF ok] by blast
next
  fix r assume "bit cc r"
  from ring_okD(10,11) [OF ok this]
  show "e r \<le> length hist \<and> Suc (length hist) \<le> e r + 256" by simp
qed (use ring_okD(1-5) [OF ok] in auto)

lemma ring_ok_advance:
  assumes ok: "ring_ok cc hist (Suc (length hist)) e g" and d: "d = re_data (rg_slots g (slot_ix (length hist)))"
  shows "ring_ok cc (hist @ [d]) (length (hist @ [d])) e (g\<lparr>rg_write_cursor := rg_write_cursor g + 1\<rparr>)"
proof (rule ring_okI)
  fix p assume "p < length (hist @ [d])" "length (hist @ [d]) \<le> p + 256"
  then show "re_data (rg_slots (g\<lparr>rg_write_cursor := rg_write_cursor g + 1\<rparr>) (slot_ix p)) = (hist @ [d]) ! p"
    using ring_okD(9) [OF ok, of p] d by (cases "p = length hist") (auto simp: nth_append)
next
  fix r assume "bit cc r"
  from ring_okD(10,11) [OF ok this]
  show "e r \<le> length (hist @ [d]) \<and> length (hist @ [d]) \<le> e r + 256" by simp
next
  fix i r assume "bit cc r"
  from ring_okD(8) [OF ok this, of i]
  show "bit (re_rc (rg_slots (g\<lparr>rg_write_cursor := rg_write_cursor g + 1\<rparr>) i)) r
      \<longleftrightarrow> (\<exists>p. e r \<le> p \<and> p < length (hist @ [d]) \<and> slot_ix p = i)" by simp
next
  fix i n assume "bit (re_rc (rg_slots (g\<lparr>rg_write_cursor := rg_write_cursor g + 1\<rparr>) i)) n"
  then show "n < 32 \<and> bit cc n" using ring_okD(6,7) [OF ok, of i n] by simp
qed (use ring_okD(1-5) [OF ok] in \<open>auto simp: algebra_simps\<close>)

lemma ring_ok_release:
  assumes ok: "ring_ok cc hist w e g" and r: "bit cc r" and lt: "e r < length hist"
  shows "ring_ok cc hist w (e(r := Suc (e r)))
    (set_rc g (slot_ix (e r)) (re_rc (rg_slots g (slot_ix (e r))) AND NOT (ucast (2 ^ r :: u32))))"
    (is "ring_ok _ _ _ ?e ?g")
proof (rule ring_okI)
  have w: "w \<le> e r + 256" by (rule ring_okD(11) [OF ok r])
  have r32: "r < 32" using r by (auto dest: bit_imp_le_length)
  fix i r' assume r': "bit cc r'"
  have rc: "bit (re_rc (rg_slots ?g i)) r' \<longleftrightarrow>
      bit (re_rc (rg_slots g i)) r' \<and> \<not> (i = slot_ix (e r) \<and> r' = r)"
    using r32 by (auto simp: bit_and_iff bit_not_iff bit_ucast_cc bit_exp_iff dest: bit_imp_le_length)
  show "bit (re_rc (rg_slots ?g i)) r' \<longleftrightarrow> (\<exists>p. ?e r' \<le> p \<and> p < w \<and> slot_ix p = i)"
  proof (cases "r' = r")
    case True
    have "(\<exists>p. Suc (e r) \<le> p \<and> p < w \<and> slot_ix p = i) \<longleftrightarrow>
        (\<exists>p. e r \<le> p \<and> p < w \<and> slot_ix p = i) \<and> i \<noteq> slot_ix (e r)"
    proof -
      have "slot_ix p \<noteq> slot_ix (e r)" if "Suc (e r) \<le> p" "p < w" for p
        using that w slot_ix_window [of p "e r" "e r"] by auto
      moreover have "p \<noteq> e r \<Longrightarrow> e r \<le> p \<longleftrightarrow> Suc (e r) \<le> p" for p by auto
      ultimately show ?thesis by (metis Suc_leD)
    qed
    then show ?thesis using rc ring_okD(8) [OF ok r, of i] True by auto
  next
    case False
    then show ?thesis using rc ring_okD(8) [OF ok r', of i] by simp
  qed
next
  fix i n assume "bit (re_rc (rg_slots ?g i)) n"
  then have "bit (re_rc (rg_slots g i)) n" by (auto simp: bit_and_iff split: if_splits)
  then show "n < 32 \<and> bit cc n" using ring_okD(6,7) [OF ok] by blast
next
  fix p assume "p < length hist" "w \<le> p + 256"
  from ring_okD(9) [OF ok this]
  show "re_data (rg_slots ?g (slot_ix p)) = hist ! p" by (cases "slot_ix p = slot_ix (e r)") simp_all
next
  fix r' assume "bit cc r'"
  from ring_okD(10,11) [OF ok this] lt
  show "?e r' \<le> length hist \<and> w \<le> ?e r' + 256" by (cases "r' = r") simp_all
qed (use ring_okD(1-5) [OF ok] in auto)
section \<open>The invariant of the whole system\<close>

fun claimed_pc :: "push_pc \<Rightarrow> nat" where
  "claimed_pc (PWrite wt) = 1"
| "claimed_pc PAdvance = 1"
| "claimed_pc _ = 0"

definition claimed :: "route_sys \<Rightarrow> nat" where
  "claimed s = length (rs_hist s) + claimed_pc (rs_pc s)"

fun released_pc :: "recv_pc \<Rightarrow> nat" where
  "released_pc (RAdvance d) = 1"
| "released_pc _ = 0"

definition unreleased :: "route_sys \<Rightarrow> nat \<Rightarrow> nat" where
  "unreleased s r = length (rv_log (rs_recv s r)) + released_pc (rv_pc (rs_recv s r))"

text \<open>The sender's local variables are current, and a claim it is about to make is of a free slot.\<close>

fun sender_ok :: "u32 \<Rightarrow> nat \<Rightarrow> push_pc \<Rightarrow> bool" where
  "sender_ok cc w (PEpoch c) \<longleftrightarrow> c = ucast cc"
| "sender_ok cc w (PCursor c ep) \<longleftrightarrow> c = ucast cc \<and> ep = 0"
| "sender_ok cc w (PRc c ep wt) \<longleftrightarrow> c = ucast cc \<and> ep = 0 \<and> wt = of_nat w"
| "sender_ok cc w (PWait c wt) \<longleftrightarrow> c = ucast cc \<and> wt = of_nat w"
| "sender_ok cc w (PCas c ep wt cur) \<longleftrightarrow>
     c = ucast cc \<and> ep = 0 \<and> wt = of_nat w \<and> (\<forall>r. bit cc r \<longrightarrow> \<not> bit cur r)"
| "sender_ok cc w (PWrite wt) \<longleftrightarrow> wt = of_nat w"
| "sender_ok cc w (PBump c wt) \<longleftrightarrow> False"
| "sender_ok cc w (PRem c wt) \<longleftrightarrow> False"
| "sender_ok cc w (PEvict wt m) \<longleftrightarrow> False"
| "sender_ok cc w (PUnmark wt m) \<longleftrightarrow> False"
| "sender_ok cc w _ \<longleftrightarrow> True"

text \<open>A receiver has read a prefix of the history, and holds in its hands the next element of it.\<close>

fun in_hand :: "u8 list list \<Rightarrow> nat \<Rightarrow> recv_pc \<Rightarrow> bool" where
  "in_hand hist n RCheck \<longleftrightarrow> True"
| "in_hand hist n RTimeout \<longleftrightarrow> True"
| "in_hand hist n RRead \<longleftrightarrow> n < length hist"
| "in_hand hist n (RLoadRc d) \<longleftrightarrow> n < length hist \<and> d = hist ! n"
| "in_hand hist n (RCasRc d cur) \<longleftrightarrow> n < length hist \<and> d = hist ! n"
| "in_hand hist n (RAdvance d) \<longleftrightarrow> n < length hist \<and> d = hist ! n"

definition receiver_ok :: "u8 list list \<Rightarrow> receiver \<Rightarrow> bool" where
  "receiver_ok hist v \<longleftrightarrow>
     rv_cursor v = of_nat (length (rv_log v)) \<and> rv_log v = take (length (rv_log v)) hist
   \<and> in_hand hist (length (rv_log v)) (rv_pc v)"

definition route_ok :: "u32 \<Rightarrow> route_sys \<Rightarrow> bool" where
  "route_ok cc s \<longleftrightarrow>
     ring_ok cc (rs_hist s) (claimed s) (unreleased s) (rs_ring s)
   \<and> sender_ok cc (length (rs_hist s)) (rs_pc s)
   \<and> (\<forall>r. bit cc r \<longrightarrow> receiver_ok (rs_hist s) (rs_recv s r))"

lemma in_hand_append: "in_hand hist n pc \<Longrightarrow> in_hand (hist @ [d]) n pc"
  by (cases pc) (auto simp: nth_append)

lemma receiver_ok_append: "receiver_ok hist v \<Longrightarrow> receiver_ok (hist @ [d]) v"
  unfolding receiver_ok_def
  by (metis in_hand_append append_Nil2 append_take_drop_id length_take min.absorb2 nat_le_linear take_all_iff take_append diff_is_0_eq' take_0)

lemma unreleased_simps [simp]:
  "unreleased (s\<lparr>rs_ring := g\<rparr>) = unreleased s" "unreleased (s\<lparr>rs_pc := pc\<rparr>) = unreleased s"
  "unreleased (s\<lparr>rs_frag := f\<rparr>) = unreleased s" "unreleased (s\<lparr>rs_hist := h\<rparr>) = unreleased s"
  by (simp_all add: unreleased_def fun_eq_iff)

lemma sender_step_ok:
  assumes inv: "route_ok cc s" and ch: "ch \<noteq> Timeout" and W: "length (rs_hist s) < 2 ^ 31 + 256"
  shows "route_ok cc (sender_step cc_id ch s)"
proof -
  let ?g = "rs_ring s" and ?h = "rs_hist s" and ?e = "unreleased s"
  have ok: "ring_ok cc ?h (claimed s) ?e ?g" and snd: "sender_ok cc (length ?h) (rs_pc s)"
    and rcv: "\<And>r. bit cc r \<Longrightarrow> receiver_ok ?h (rs_recv s r)"
    using inv by (auto simp: route_ok_def)
  note simps = route_ok_def sender_step_def push_access_def claimed_def Let_def
  show ?thesis
  proof (cases "rs_pc s")
    case (PRc c ep wt)
    have ok': "ring_ok cc ?h (length ?h) ?e ?g" using ok PRc by (simp add: claimed_def)
    have "\<not> bit (re_rc (rg_slots ?g (slot_ix (length ?h)))) r"
      if "\<not> route_busy (rg_live ?g) (ucast cc) (re_rc (rg_slots ?g (slot_ix (length ?h)))) 0
            (of_nat (length ?h) - RING_LAP)" "bit cc r" for r
      using that route_busy_iff [OF ok' W] ring_ok_lapped [OF ok'] by blast
    then show ?thesis using PRc ok snd rcv by (auto simp: simps)
  next
    case (PCas c ep wt cur)
    have ok': "ring_ok cc ?h (length ?h) ?e ?g" using ok PCas by (simp add: claimed_def)
    have "ring_ok cc ?h (Suc (length ?h)) ?e (set_rc ?g (slot_ix (length ?h)) (ucast cc))"
      if "re_rc (rg_slots ?g (slot_ix (length ?h))) = cur"
      using that snd PCas by (intro ring_ok_claim [OF ok']) auto
    then show ?thesis using PCas ok snd rcv by (auto simp: simps)
  next
    case (PWrite wt)
    have "ring_ok cc ?h (Suc (length ?h)) ?e (set_data ?g (slot_ix (length ?h)) d)" for d
      using ok PWrite by (intro ring_ok_write) (simp add: claimed_def)
    then show ?thesis using PWrite snd rcv by (auto simp: simps split: prod.splits)
  next
    case PAdvance
    have "ring_ok cc ?h (Suc (length ?h)) ?e ?g" using ok PAdvance by (simp add: claimed_def)
    from ring_ok_advance [OF this refl] show ?thesis
      using PAdvance rcv ring_okD(3) [OF ok] by (auto simp: simps intro: receiver_ok_append)
  qed (use ok snd rcv ch ring_okD(1-3) [OF ok] in \<open>auto simp: simps split: choice.splits\<close>)
qed
lemma unreleased_recv:
  "unreleased (s\<lparr>rs_ring := g, rs_recv := (rs_recv s)(r := v)\<rparr>) =
     (unreleased s)(r := length (rv_log v) + released_pc (rv_pc v))"
  by (simp add: unreleased_def fun_eq_iff)

text \<open>The ring part and the receiver part of a receiver's step, put together.\<close>

lemma route_ok_recv:
  assumes "route_ok cc s" "bit cc r"
    and "ring_ok cc (rs_hist s) (claimed s)
      ((unreleased s)(r := length (rv_log v) + released_pc (rv_pc v))) g"
    and "receiver_ok (rs_hist s) v"
  shows "route_ok cc (s\<lparr>rs_ring := g, rs_recv := (rs_recv s)(r := v)\<rparr>)"
  using assms by (simp add: route_ok_def claimed_def unreleased_recv)

lemma receiver_step_ok:
  assumes inv: "route_ok cc s" and r: "bit cc r"
  shows "route_ok cc (receiver_step ch r s)"
proof -
  let ?g = "rs_ring s" and ?h = "rs_hist s" and ?v = "rs_recv s r"
  let ?n = "length (rv_log ?v)"
  have ok: "ring_ok cc ?h (claimed s) (unreleased s) ?g" and v: "receiver_ok ?h ?v"
    using inv r by (auto simp: route_ok_def)
  have cur: "rv_cursor ?v = of_nat ?n" and log: "rv_log ?v = take ?n ?h"
    and hand: "in_hand ?h ?n (rv_pc ?v)"
    using v by (auto simp: receiver_ok_def)
  have e: "unreleased s r = ?n + released_pc (rv_pc ?v)" by (simp add: unreleased_def)
  have same: "(unreleased s)(r := ?n + released_pc (rv_pc ?v)) = unreleased s"
    by (simp add: fun_eq_iff e)
  have hist: "re_data (rg_slots ?g (slot_ix ?n)) = ?h ! ?n" if "?n < length ?h" "released_pc (rv_pc ?v) = 0"
    using that ring_okD(9) [OF ok that(1)] ring_okD(11) [OF ok r] e by simp
  have marked: "bit (re_rc (rg_slots ?g (slot_ix ?n))) r" if "?n < length ?h" "released_pc (rv_pc ?v) = 0"
    unfolding ring_okD(8) [OF ok r] using that e ring_okD(5) [OF ok] by (intro exI [of _ ?n]) simp
  obtain g c pc where acc: "recv_access (2 ^ r) ch ?g (rv_cursor ?v) (rv_pc ?v) = (g, c, pc)"
    by (cases "recv_access (2 ^ r) ch ?g (rv_cursor ?v) (rv_pc ?v)")
  let ?log = "case rv_pc ?v of RAdvance d \<Rightarrow> rv_log ?v @ [d] | _ \<Rightarrow> rv_log ?v"
  have "ring_ok cc ?h (claimed s) ((unreleased s)(r := length ?log + released_pc pc)) g
      \<and> receiver_ok ?h \<lparr>rv_cursor = c, rv_pc = pc, rv_log = ?log\<rparr>"
  proof (cases "rv_pc ?v")
    case RCheck
    have "?n < length ?h" if "rg_write_cursor ?g \<noteq> rv_cursor ?v"
      using that cur ring_okD(3) [OF ok] ring_okD(10) [OF ok r] e RCheck by (auto simp: le_less)
    then show ?thesis
      using RCheck acc ok same cur log by (auto simp: recv_access_def receiver_ok_def split: if_splits)
  next
    case RRead
    then show ?thesis
      using acc ok same cur log hand hist by (auto simp: recv_access_def receiver_ok_def)
  next
    case (RLoadRc d)
    have "bit (re_rc (rg_slots ?g (slot_ix ?n)) AND EP_MASK) r"
      using marked hand RLoadRc bit_imp_le_length [OF r] by (simp add: bit_and_iff bit_EP_MASK)
    then have "re_rc (rg_slots ?g (slot_ix ?n)) AND EP_MASK \<noteq> 0" by auto
    then show ?thesis
      using RLoadRc acc ok same cur log hand by (auto simp: recv_access_def receiver_ok_def Let_def)
  next
    case (RCasRc d rc)
    have "ring_ok cc ?h (claimed s) ((unreleased s)(r := Suc ?n))
        (set_rc ?g (slot_ix ?n) (re_rc (rg_slots ?g (slot_ix ?n)) AND NOT (ucast (2 ^ r :: u32))))"
      using ring_ok_release [OF ok r] e hand RCasRc by simp
    then show ?thesis
      using RCasRc acc ok same cur log hand
      by (auto simp: recv_access_def receiver_ok_def split: if_splits)
  next
    case (RAdvance d)
    then have "take (Suc ?n) ?h = rv_log ?v @ [d]"
      using hand log by (simp add: take_Suc_conv_app_nth)
    then show ?thesis
      using RAdvance acc ok same cur by (auto simp: recv_access_def receiver_ok_def algebra_simps)
  next
    case RTimeout
    then show ?thesis
      using acc ok same cur log by (auto simp: recv_access_def receiver_ok_def)
  qed
  then show ?thesis
    using route_ok_recv [OF inv r, of "\<lparr>rv_cursor = c, rv_pc = pc, rv_log = ?log\<rparr>" g] acc
    by (simp add: receiver_step_def Let_def)
qed

text \<open>The invariant holds as long as at most \<open>2^31 + 255\<close> fragments have been published.\<close>

definition route_inv :: "u32 \<Rightarrow> route_sys \<Rightarrow> bool" where
  "route_inv cc s \<longleftrightarrow> (length (rs_hist s) < 2 ^ 31 + 256 \<longrightarrow> route_ok cc s)"

lemma hist_grows: "route_step cc_id R s s' \<Longrightarrow> length (rs_hist s) \<le> length (rs_hist s')"
  by (erule route_step.cases) (auto simp: sender_step_def receiver_step_def Let_def split: prod.splits)

lemma route_step_inv:
  assumes inv: "route_inv cc s" and step: "route_step cc_id (set_bits_of cc) s s'"
  shows "route_inv cc s'"
  unfolding route_inv_def
proof
  assume W': "length (rs_hist s') < 2 ^ 31 + 256"
  then have W: "length (rs_hist s) < 2 ^ 31 + 256" using hist_grows [OF step] by simp
  with inv have ok: "route_ok cc s" by (simp add: route_inv_def)
  from step show "route_ok cc s'"
  proof cases
    case (route_call b f)
    then show ?thesis using ok by (simp add: route_ok_def claimed_def)
  qed (use ok W in \<open>auto simp: set_bits_of_def intro: sender_step_ok receiver_step_ok\<close>)
qed

lemma route_inv_init: "route_inv cc (route_init cc)"
proof -
  have "ring_ok cc [] 0 (\<lambda>_. 0) (fresh_ring cc)"
    by (simp add: ring_ok_def fresh_ring_def)
  then show ?thesis
    by (simp add: route_inv_def route_ok_def route_init_def claimed_def unreleased_def [abs_def] receiver_ok_def)
qed

interpretation route: invariant_system "route_init cc" "route_step cc_id (set_bits_of cc)" "route_inv cc" for cc cc_id
  by unfold_locales (blast intro: route_inv_init route_step_inv)+
section \<open>What a route guarantees\<close>

datatype route_event = Send choice | Call "u32 \<times> i32 \<times> u8 list" | Recv choice nat

fun route_apply :: "u32 \<Rightarrow> route_sys \<Rightarrow> route_event \<Rightarrow> route_sys" where
  "route_apply cc_id s (Send ch) = sender_step cc_id ch s"
| "route_apply cc_id s (Call f) = s\<lparr>rs_pc := PConn, rs_frag := f\<rparr>"
| "route_apply cc_id s (Recv ch r) = receiver_step ch r s"

fun route_enabled :: "u32 \<Rightarrow> route_sys \<Rightarrow> route_event \<Rightarrow> bool" where
  "route_enabled cc s (Send ch) \<longleftrightarrow> ch \<noteq> Timeout"
| "route_enabled cc s (Call f) \<longleftrightarrow> (case rs_pc s of PReturn b \<Rightarrow> True | _ \<Rightarrow> False)"
| "route_enabled cc s (Recv ch r) \<longleftrightarrow> bit cc r"

fun route_run :: "u32 \<Rightarrow> u32 \<Rightarrow> route_sys \<Rightarrow> route_event list \<Rightarrow> route_sys option" where
  "route_run cc cc_id s [] = Some s"
| "route_run cc cc_id s (e # es) =
     (if route_enabled cc s e then route_run cc cc_id (route_apply cc_id s e) es else None)"

lemma route_run_steps:
  "route_run cc cc_id s es = Some s' \<Longrightarrow> rtranclp (route_step cc_id (set_bits_of cc)) s s'"
proof (induction es arbitrary: s)
  case (Cons e es)
  then have en: "route_enabled cc s e" and run: "route_run cc cc_id (route_apply cc_id s e) es = Some s'"
    by (auto split: if_splits)
  have "route_step cc_id (set_bits_of cc) s (route_apply cc_id s e)"
    using en by (cases e) (auto simp: set_bits_of_def split: push_pc.splits intro: route_step.intros)
  with Cons.IH [OF run] show ?case by (rule converse_rtranclp_into_rtranclp [rotated])
qed simp

lemma route_reachable_ok:
  "rtranclp (route_step cc_id (set_bits_of cc)) (route_init cc) s \<Longrightarrow>
   length (rs_hist s) < 2 ^ 31 + 256 \<Longrightarrow> route_ok cc s"
  using route.reachable_inv by (simp add: route_inv_def)

text \<open>
  C2. Route delivery: whatever the interleaving of one sender and its connected
  receivers, as long as no wait of the sender times out and fewer than
  \<open>2^31 + 256\<close> fragments have been published, every receiver has read a prefix of
  the published fragments: each exactly once, in order, byte for byte as it was
  published, never torn and never overwritten before it was read. It is at most
  the 256 slots of the ring, and the one it has just released, behind.
\<close>

theorem route_delivers_in_order:
  assumes "rtranclp (route_step cc_id (set_bits_of cc)) (route_init cc) s"
    and "length (rs_hist s) < 2 ^ 31 + 256" "bit cc r"
  shows "rv_log (rs_recv s r) = take (length (rv_log (rs_recv s r))) (rs_hist s)
    \<and> length (rs_hist s) \<le> length (rv_log (rs_recv s r)) + ring_size + 1
    \<and> rv_cursor (rs_recv s r) = of_nat (length (rv_log (rs_recv s r)))"
proof -
  have ok: "route_ok cc s" by (rule route_reachable_ok [OF assms(1,2)])
  then have ring: "ring_ok cc (rs_hist s) (claimed s) (unreleased s) (rs_ring s)"
    and v: "receiver_ok (rs_hist s) (rs_recv s r)"
    using assms(3) by (simp_all add: route_ok_def)
  have "unreleased s r \<le> Suc (length (rv_log (rs_recv s r)))"
    by (cases "rv_pc (rs_recv s r)") (simp_all add: unreleased_def)
  then show ?thesis
    using v ring_okD(5) [OF ring] ring_okD(11) [OF ring assms(3)]
    by (simp add: receiver_ok_def ring_size_def)
qed

definition one_fragment_run :: "route_event list" where
  "one_fragment_run = Call (7, - 62, [1, 2]) # replicate 7 (Send Proceed) @ replicate 5 (Recv Proceed 0)"

theorem route_delivers_in_order_witness:
  "\<exists>s. route_run 1 9 (route_init 1) one_fragment_run = Some s
     \<and> length (rs_hist s) = 1 \<and> rv_log (rs_recv s 0) = rs_hist s"
proof -
  have "case route_run 1 9 (route_init 1) one_fragment_run of None \<Rightarrow> False
      | Some s \<Rightarrow> length (rs_hist s) = 1 \<and> length (rv_log (rs_recv s 0)) = 1"
    by code_simp
  then obtain s where s: "route_run 1 9 (route_init 1) one_fragment_run = Some s"
    "length (rs_hist s) = 1" "length (rv_log (rs_recv s 0)) = 1"
    by (auto split: option.splits)
  then show ?thesis
    using route_delivers_in_order [OF route_run_steps [OF s(1)], of 0] by (simp add: take_all)
qed



text \<open>
  C35. Flow control expires: at a cursor whose previous lap \<open>P\<close> is \<open>2^31\<close> to \<open>2^32\<close> positions after the position at which all receivers
  connected, three undisturbed steps of the sender claim and overwrite the slot whatever marks it carries, and a receiver
  whose cursor is still at \<open>P\<close> reads the new fragment instead of its own.
\<close>

theorem route_flow_control_expires:
  assumes "\<forall>r. so_since (rg_live g r) = of_nat S" "S + 2 ^ 31 \<le> P" "P < S + 2 ^ 32"
    and "wt = of_nat P + RING_LAP" "c2 \<noteq> Spurious" "f = (mid, remain, payload)"
  shows "let (g1, pc1) = push_access cc_id f c1 g (PRc cc ep wt);
             (g2, pc2) = push_access cc_id f c2 g1 pc1;
             (g3, pc3) = push_access cc_id f c3 g2 pc2;
             d = write_msg (re_data (rg_slots g (index_of wt))) cc_id mid remain False payload
         in pc3 = PAdvance \<and> g3 = set_data (set_rc g (index_of wt) (ep OR cc)) (index_of wt) d
            \<and> recv_access conn_id ch g3 (of_nat P) RRead = (g3, of_nat P, RLoadRc d)"
proof -
  have "\<not> at_or_after (of_nat P) (of_nat S)"
    using assms(2,3) by (subst at_or_after_of_nat) simp_all
  then have "live_marks (Some (rg_live g)) m (of_nat P) = 0" for m
    by (intro bit_word_eqI) (simp add: bit_live_marks assms(1))
  then have 1: "push_access cc_id f c1 g (PRc cc ep wt) = (g, PCas cc ep wt (re_rc (rg_slots g (index_of wt))))"
    by (simp add: push_access_def route_busy_def chan_live_marks_def assms(4) Let_def)
  have "wt = of_nat (P + 256)" by (simp add: assms(4) RING_LAP_def ring_size_def)
  then have "index_of wt = index_of (of_nat P)" by (simp only: index_of_of_nat) (simp add: slot_ix_eq_iff)
  then show ?thesis
    unfolding 1 by (simp add: push_access_def recv_access_def assms(5,6) Let_def)
qed

theorem route_flow_control_expires_witness:
  "\<exists>g3 d. let g = (fresh_ring 1)\<lparr>rg_slots := (\<lambda>_. \<lparr>re_data = replicate msg_t_size 0, re_rc = 1\<rparr>)\<rparr>;
       wt = of_nat (2 ^ 31) + RING_LAP; f = (7, - 62, [1, 2]);
       (g1, pc1) = push_access 9 f Proceed g (PRc 1 0 wt); (g2, pc2) = push_access 9 f Proceed g1 pc1
   in bit (re_rc (rg_slots g (index_of wt))) 0 \<and> push_access 9 f Proceed g2 pc2 = (g3, PAdvance)
      \<and> recv_access 1 Proceed g3 (of_nat (2 ^ 31)) RRead = (g3, of_nat (2 ^ 31), RLoadRc d)"
proof -
  let ?g = "(fresh_ring 1)\<lparr>rg_slots := (\<lambda>_. \<lparr>re_data = replicate msg_t_size 0, re_rc = 1\<rparr>)\<rparr>"
  let ?wt = "of_nat (2 ^ 31) + RING_LAP"
  let ?f = "(7, - 62, [1, 2])"
  have "let (g1, pc1) = push_access 9 ?f Proceed ?g (PRc 1 0 ?wt);
             (g2, pc2) = push_access 9 ?f Proceed g1 pc1;
             (g3, pc3) = push_access 9 ?f Proceed g2 pc2;
             d = write_msg (re_data (rg_slots ?g (index_of ?wt))) 9 7 (- 62) False [1, 2]
         in pc3 = PAdvance \<and> g3 = set_data (set_rc ?g (index_of ?wt) (0 OR 1)) (index_of ?wt) d
            \<and> recv_access 1 Proceed g3 (of_nat (2 ^ 31)) RRead = (g3, of_nat (2 ^ 31), RLoadRc d)"
    by (rule route_flow_control_expires [where S = 0]) (simp_all add: fresh_ring_def)
  then show ?thesis by (simp add: Let_def split: prod.splits)
qed

text \<open>The receivers whose live mark of the previous lap the slot at \<open>wt\<close> carries, among those the sender loaded.\<close>

definition owes_read :: "ring \<Rightarrow> u64 \<Rightarrow> u32 \<Rightarrow> nat \<Rightarrow> bool" where
  "owes_read g cc wt r \<longleftrightarrow> r < 32 \<and> bit cc r \<and> bit (re_rc (rg_slots g (index_of wt))) r
     \<and> at_or_after (wt - RING_LAP) (so_since (rg_live g r))"

lemma bit_rem2:
  "bit (chan_live_marks (rg_live g) (re_rc (rg_slots g (index_of wt)) AND EP_MASK AND cc) (wt - RING_LAP)) r \<longleftrightarrow> owes_read g cc wt r"
proof (cases "r < 32")
  case True
  then show ?thesis by (auto simp: chan_live_marks_def owes_read_def bit_live_marks bit_EP_MASK bit_ucast_cc bit_simps)
next
  case False
  then show ?thesis by (auto simp: chan_live_marks_def owes_read_def bit_ucast_cc dest: bit_imp_le_length)
qed

lemma zero_iff_no_bit: "(w :: 'a :: len word) = 0 \<longleftrightarrow> (\<forall>n. \<not> bit w n)"
  by (metis bit_0_eq bit_eqI bot_apply bot_bool_def)

text \<open>
  C28. A forced push, whatever the ring has become between its accesses (\<open>g0\<close> to \<open>g3\<close>): it moves to the next epoch; if its look at the slot
  finds no live mark, it starts over; else it disconnects exactly the receivers with a live mark at that look, gives up
  if nobody is left, and takes exactly their marks off the slot.
\<close>

theorem forced_push_evicts_marked:
  "push_access cc_id f ch g0 (PBump cc wt) = (g0\<lparr>rg_epoch := rg_epoch g0 + EP_INCR\<rparr>, PRem cc wt)
   \<and> ((\<forall>r. \<not> owes_read g1 cc wt r) \<longrightarrow> push_access cc_id f ch g1 (PRem cc wt) = (g1, PConn))
   \<and> ((\<exists>r. owes_read g1 cc wt r) \<longrightarrow> (\<exists>rem2. push_access cc_id f ch g1 (PRem cc wt) = (g1, PEvict wt rem2)
        \<and> (\<exists>conns. (\<forall>r. bit conns r \<longleftrightarrow> bit (rg_connections g2) r \<and> \<not> owes_read g1 cc wt r)
             \<and> push_access cc_id f ch g2 (PEvict wt rem2)
                 = (g2\<lparr>rg_connections := conns\<rparr>, if conns = 0 then PReturn False else PUnmark wt rem2))
        \<and> (\<exists>rc. (\<forall>r. bit rc r \<longleftrightarrow> bit (re_rc (rg_slots g3 (index_of wt))) r \<and> \<not> owes_read g1 cc wt r)
             \<and> push_access cc_id f ch g3 (PUnmark wt rem2) = (set_rc g3 (index_of wt) rc, PConn))))"
proof -
  define rem2 where "rem2 = chan_live_marks (rg_live g1) (re_rc (rg_slots g1 (index_of wt)) AND EP_MASK AND cc) (wt - RING_LAP)"
  have b: "bit rem2 r \<longleftrightarrow> owes_read g1 cc wt r" for r unfolding rem2_def by (rule bit_rem2)
  have z: "rem2 = 0 \<longleftrightarrow> (\<forall>r. \<not> owes_read g1 cc wt r)" unfolding zero_iff_no_bit b ..
  have c: "bit (rg_connections g2 AND NOT (ucast rem2)) r \<longleftrightarrow> bit (rg_connections g2) r \<and> \<not> owes_read g1 cc wt r" for r
    unfolding b [symmetric] using bit_imp_le_length [of "rg_connections g2" r] by (auto simp: bit_simps)
  have d: "bit (re_rc (rg_slots g3 (index_of wt)) AND NOT rem2) r
      \<longleftrightarrow> bit (re_rc (rg_slots g3 (index_of wt))) r \<and> \<not> owes_read g1 cc wt r" for r
    unfolding b [symmetric] using bit_imp_le_length [of "re_rc (rg_slots g3 (index_of wt))" r] by (auto simp: bit_simps)
  have r: "push_access cc_id f ch g1 (PRem cc wt) = (g1, if rem2 = 0 then PConn else PEvict wt rem2)"
    by (simp add: push_access_def rem2_def Let_def)
  have e: "push_access cc_id f ch g2 (PEvict wt rem2) = (g2\<lparr>rg_connections := rg_connections g2 AND NOT (ucast rem2)\<rparr>,
      if rg_connections g2 AND NOT (ucast rem2) = 0 then PReturn False else PUnmark wt rem2)"
    by (simp add: push_access_def Let_def)
  have u: "push_access cc_id f ch g3 (PUnmark wt rem2) = (set_rc g3 (index_of wt) (re_rc (rg_slots g3 (index_of wt)) AND NOT rem2), PConn)"
    by (simp add: push_access_def)
  have k: "push_access cc_id f ch g0 (PBump cc wt) = (g0\<lparr>rg_epoch := rg_epoch g0 + EP_INCR\<rparr>, PRem cc wt)"
    by (simp add: push_access_def)
  have "(\<exists>conns. (\<forall>r. bit conns r \<longleftrightarrow> bit (rg_connections g2) r \<and> \<not> owes_read g1 cc wt r)
      \<and> push_access cc_id f ch g2 (PEvict wt rem2)
          = (g2\<lparr>rg_connections := conns\<rparr>, if conns = 0 then PReturn False else PUnmark wt rem2))"
    using c e by blast
  moreover have "(\<exists>rc. (\<forall>r. bit rc r \<longleftrightarrow> bit (re_rc (rg_slots g3 (index_of wt))) r \<and> \<not> owes_read g1 cc wt r)
      \<and> push_access cc_id f ch g3 (PUnmark wt rem2) = (set_rc g3 (index_of wt) rc, PConn))"
    using d u by blast
  moreover have "push_access cc_id f ch g1 (PRem cc wt) = (g1, PEvict wt rem2)" if "\<exists>r. owes_read g1 cc wt r"
    using that z r by auto
  moreover have "push_access cc_id f ch g1 (PRem cc wt) = (g1, PConn)" if "\<forall>r. \<not> owes_read g1 cc wt r"
    using that z r by auto
  ultimately show ?thesis using k by blast
qed

text \<open>Receiver 1 joins between the look and the disconnection of receiver 0.\<close>

theorem forced_push_evicts_marked_witness:
  "let g = (fresh_ring 1)\<lparr>rg_slots := (\<lambda>_. \<lparr>re_data = [], re_rc = 1\<rparr>)\<rparr>
   in owes_read g 1 256 0 \<and> (\<exists>rem2 conns. push_access 9 (0, 0, []) Proceed g (PRem 1 256) = (g, PEvict 256 rem2)
        \<and> push_access 9 (0, 0, []) Proceed (g\<lparr>rg_connections := 3\<rparr>) (PEvict 256 rem2) = (g\<lparr>rg_connections := conns\<rparr>, PUnmark 256 rem2)
        \<and> \<not> bit conns 0 \<and> bit conns 1)"
proof -
  define g where "g = (fresh_ring 1)\<lparr>rg_slots := (\<lambda>_. \<lparr>re_data = [], re_rc = 1\<rparr>)\<rparr>"
  define g2 where "g2 = g\<lparr>rg_connections := 3\<rparr>"
  have o: "owes_read g 1 256 r \<longleftrightarrow> r = 0" for r
    by (auto simp: owes_read_def g_def fresh_ring_def at_or_after_def RING_LAP_def ring_size_def bit_1_iff)
  then obtain rem2 conns where e: "push_access 9 (0, 0, []) Proceed g (PRem 1 256) = (g, PEvict 256 rem2)"
    "\<forall>r. bit conns r \<longleftrightarrow> bit (rg_connections g2) r \<and> \<not> owes_read g 1 256 r"
    "push_access 9 (0, 0, []) Proceed g2 (PEvict 256 rem2)
       = (g2\<lparr>rg_connections := conns\<rparr>, if conns = 0 then PReturn False else PUnmark 256 rem2)"
    using forced_push_evicts_marked [of 9 "(0, 0, [])" Proceed g 1 256 g g2 g] by blast
  have "bit (3 :: u32) 1" by (simp add: bit_numeral_rec)
  then have b: "\<not> bit conns 0" "bit conns 1" using e(2) o by (simp_all add: g2_def)
  then have "conns \<noteq> 0" by auto
  then show ?thesis using e(1,3) o b unfolding Let_def g_def [symmetric] g2_def by auto
qed

end
