(* ===== verification/Channel_Ring.thy ===== *)
theory Channel_Ring
  imports Route
begin

text \<open>
  The multi-writer ring of a channel (\<open>channel.rs\<close>): slots with a commit flag
  \<open>f_ct_\<close>, a reader mask packed with a read generation and an epoch, the writers'
  \<open>push_fragment_multi\<close> with \<open>commit_multi\<close> and \<open>release_mark\<close>, the readers'
  \<open>recv_multi\<close>, and what a connecting receiver does to the ring
  (\<open>release_stale\<close>, \<open>adopt_cursor\<close>).
\<close>

section \<open>The packed reader word\<close>

definition RC_MASK :: u64 where "RC_MASK = chan_rc_mask"
definition CH_EP_MASK :: u64 where "CH_EP_MASK = chan_ep_mask"
definition CH_EP_INCR :: u64 where "CH_EP_INCR = chan_ep_incr"
definition CH_IC_MASK :: u64 where "CH_IC_MASK = chan_ic_mask"
definition CH_IC_INCR :: u64 where "CH_IC_INCR = chan_ic_incr"

definition inc_rc :: "u64 \<Rightarrow> u64" where
  "inc_rc rc = (rc AND CH_IC_MASK) OR ((rc + CH_IC_INCR) AND NOT CH_IC_MASK)"

definition inc_mask :: "u64 \<Rightarrow> u64" where
  "inc_mask rc = inc_rc rc AND NOT RC_MASK"

record celem =
  ce_data :: "u8 list"
  ce_rc :: u64
  ce_f_ct :: u64

record cring =
  cg_connections :: u32
  cg_write_cursor :: u32
  cg_epoch :: u64
  cg_slots :: "u8 \<Rightarrow> celem"
  cg_live :: conn_liveness

abbreviation cset :: "cring \<Rightarrow> u8 \<Rightarrow> (celem \<Rightarrow> celem) \<Rightarrow> cring" where
  "cset g i f \<equiv> g\<lparr>cg_slots := (cg_slots g)(i := f (cg_slots g i))\<rparr>"

definition at_pos :: "u32 \<Rightarrow> u64" where
  "at_pos pos = NOT (ucast pos)"

text \<open>The value \<open>recv_multi\<close> frees a slot with: \<open>cur_post as u64 + (RING_SIZE - 1)\<close>.\<close>

definition free_flag :: "u32 \<Rightarrow> u64" where
  "free_flag cur = ucast (cur + 1) + (of_nat ring_size - 1)"

section \<open>Dropping marks\<close>

text \<open>\<open>release_mark\<close> and \<open>release_stale\<close> when no other process touches the slots meanwhile.\<close>

definition release_mark :: "celem \<Rightarrow> u32 \<Rightarrow> u32 \<Rightarrow> celem" where
  "release_mark slot pos b =
     (if ce_rc slot AND ucast b \<noteq> 0 \<and> ce_f_ct slot = at_pos pos
      then let nxt = inc_rc (ce_rc slot) AND NOT (ucast b)
           in if nxt AND RC_MASK = 0
              then slot\<lparr>ce_rc := nxt, ce_f_ct := ucast pos + of_nat ring_size\<rparr>
              else slot\<lparr>ce_rc := nxt\<rparr>
      else slot)"

definition committed :: "u64 \<Rightarrow> bool" where
  "committed fl \<longleftrightarrow> drop_bit 32 fl = 0xffffffff"

definition release_stale_slot :: "u32 \<Rightarrow> u32 \<Rightarrow> celem \<Rightarrow> celem" where
  "release_stale_slot since b slot =
     (let cur_fl = ce_f_ct slot in
      if \<not> committed cur_fl then slot
      else let pos = ucast (NOT cur_fl)
           in if at_or_after pos since then slot else release_mark slot pos b)"

definition release_stale :: "cring \<Rightarrow> u32 \<Rightarrow> u32 \<Rightarrow> cring" where
  "release_stale g since b =
     foldl (\<lambda>g idx. cset g (of_nat idx) (release_stale_slot since b)) g [0..<ring_size]"

text \<open>
  \<open>adopt_cursor\<close> walks back from the write cursor, at most once around the ring,
  over slots that carry the receiver's mark in the current epoch. \<open>rc_at\<close> and
  \<open>ep_mask\<close> are the two layouts.
\<close>

fun adopt_walk :: "(u8 \<Rightarrow> u64) \<Rightarrow> u64 \<Rightarrow> u64 \<Rightarrow> u32 \<Rightarrow> u32 \<Rightarrow> nat \<Rightarrow> u32 \<Rightarrow> u32" where
  "adopt_walk rc_at ep_mask epoch since b 0 cur = cur"
| "adopt_walk rc_at ep_mask epoch since b (Suc n) cur =
     (if cur = since then cur
      else let rc = rc_at (index_of (cur - 1))
           in if rc AND ucast b = 0 \<or> rc AND NOT ep_mask \<noteq> epoch then cur
              else adopt_walk rc_at ep_mask epoch since b n (cur - 1))"

definition adopt_cursor_multi :: "cring \<Rightarrow> u32 \<Rightarrow> u32 \<Rightarrow> u32" where
  "adopt_cursor_multi g since b =
     adopt_walk (\<lambda>i. ce_rc (cg_slots g i)) CH_EP_MASK (cg_epoch g) since b ring_size (cg_write_cursor g)"

definition adopt_cursor_route :: "ring \<Rightarrow> u32 \<Rightarrow> u32 \<Rightarrow> u32" where
  "adopt_cursor_route g since b =
     adopt_walk (\<lambda>i. re_rc (rg_slots g i)) EP_MASK (rg_epoch g) since b ring_size (rg_write_cursor g)"

section \<open>A writer\<close>

text \<open>
  Where \<open>push_fragment_multi\<close> is: the loads of the claim loop (epoch,
  connections, commit index, reader word, commit flag), the compare-exchange and
  the epoch test after it, the commit index, the record, then \<open>commit_multi\<close> with
  the loop over stale marks and \<open>release_mark\<close>.
\<close>

datatype mpush_pc =
    MEpoch
  | MConn u64
  | MCursor u64 u64
  | MRc u64 u64 u32
  | MFlag u64 u64 u32 u64
  | MCas u64 u64 u32 u64
  | MValidate u64 u32
  | MStore u32
  | MWrite u32
  | MCommit u32
  | MMarks u32
  | MStale u32 u64
  | MRelLoad u32 u32 u64
  | MRelTest u32 u32 u64 u64
  | MRelCas u32 u32 u64 u64
  | MRelFree u32 u64
  | MReturn bool

definition mpush_access ::
  "u32 \<Rightarrow> u32 \<times> i32 \<times> u8 list \<Rightarrow> choice \<Rightarrow> cring \<Rightarrow> mpush_pc \<Rightarrow> cring \<times> mpush_pc" where
  "mpush_access cc_id frag ch g pc = (case pc of
     MEpoch \<Rightarrow> (g, MConn (cg_epoch g))
   | MConn ep \<Rightarrow>
       let cc = ucast (cg_connections g) in (g, if cc = 0 then MReturn False else MCursor ep cc)
   | MCursor ep cc \<Rightarrow> (g, MRc ep cc (cg_write_cursor g))
   | MRc ep cc ct \<Rightarrow>
       let rc = ce_rc (cg_slots g (index_of ct)); rem_cc = rc AND RC_MASK
       in (g, if cc AND rem_cc \<noteq> 0 \<and> rc AND NOT CH_EP_MASK = ep
              then (if ch = Timeout then MReturn False else MConn ep)
              else if rem_cc = 0 then MFlag ep cc ct rc else MCas ep cc ct rc)
   | MFlag ep cc ct rc \<Rightarrow>
       let fl = ce_f_ct (cg_slots g (index_of ct))
       in (g, if fl \<noteq> ucast ct \<and> fl \<noteq> 0
              then (if ch = Timeout then MReturn False else MConn ep) else MCas ep cc ct rc)
   | MCas ep cc ct rc \<Rightarrow>
       if ce_rc (cg_slots g (index_of ct)) = rc \<and> ch \<noteq> Spurious
       then (cset g (index_of ct) (\<lambda>e. e\<lparr>ce_rc := inc_mask (ep OR (rc AND CH_EP_MASK)) OR cc\<rparr>), MValidate ep ct)
       else (g, MConn ep)
   | MValidate ep ct \<Rightarrow> let now = cg_epoch g in (g, if now = ep then MStore ct else MConn now)
   | MStore ct \<Rightarrow> (g\<lparr>cg_write_cursor := ct + 1\<rparr>, MWrite ct)
   | MWrite ct \<Rightarrow>
       (case frag of (mid, remain, payload) \<Rightarrow>
          (cset g (index_of ct) (\<lambda>e. e\<lparr>ce_data := write_msg (ce_data e) cc_id mid remain False payload\<rparr>),
           MCommit ct))
   | MCommit ct \<Rightarrow> (cset g (index_of ct) (\<lambda>e. e\<lparr>ce_f_ct := at_pos ct\<rparr>), MMarks ct)
   | MMarks ct \<Rightarrow>
       let marks = ce_rc (cg_slots g (index_of ct)) AND RC_MASK
       in (g, if marks = 0 then MReturn True
              else MStale ct (marks AND NOT (chan_live_marks (cg_live g) marks ct)))
   | MStale ct stale \<Rightarrow>
       (g, if stale = 0 then MReturn True else MRelLoad ct (ucast (low_bit stale)) (drop_low stale))
   | MRelLoad ct b stale \<Rightarrow> (g, MRelTest ct b stale (ce_rc (cg_slots g (index_of ct))))
   | MRelTest ct b stale rc \<Rightarrow>
       (g, if rc AND ucast b \<noteq> 0 \<and> ce_f_ct (cg_slots g (index_of ct)) = at_pos ct
           then MRelCas ct b stale rc else MStale ct stale)
   | MRelCas ct b stale rc \<Rightarrow>
       let actual = ce_rc (cg_slots g (index_of ct)); nxt = inc_rc rc AND NOT (ucast b)
       in if actual = rc \<and> ch \<noteq> Spurious
          then (cset g (index_of ct) (\<lambda>e. e\<lparr>ce_rc := nxt\<rparr>),
                if nxt AND RC_MASK = 0 then MRelFree ct stale else MStale ct stale)
          else (g, MRelTest ct b stale actual)
   | MRelFree ct stale \<Rightarrow>
       (if ce_f_ct (cg_slots g (index_of ct)) = at_pos ct
        then cset g (index_of ct) (\<lambda>e. e\<lparr>ce_f_ct := ucast ct + of_nat ring_size\<rparr>) else g,
        MStale ct stale)
   | MReturn b \<Rightarrow> (g, MReturn b))"

section \<open>A reader\<close>

text \<open>
  Where the slot loop of \<open>recv_multi\<close> is: the test of the commit flag, the read
  of the slot, the load of the reader word, the early store of the free flag by
  the last reader, the compare-exchange, the cursor. \<open>QTimeout\<close> is a return with
  an empty buffer.
\<close>

datatype mrecv_pc =
    QCheck
  | QRead
  | QLoadRc "u8 list"
  | QFreeOnly "u8 list"
  | QFree "u8 list" u64
  | QCas "u8 list" u64
  | QAdvance "u8 list"
  | QTimeout

definition mrecv_access ::
  "u32 \<Rightarrow> choice \<Rightarrow> cring \<Rightarrow> u32 \<Rightarrow> mrecv_pc \<Rightarrow> cring \<times> u32 \<times> mrecv_pc" where
  "mrecv_access conn_id ch g cur pc = (let i = index_of cur in case pc of
     QCheck \<Rightarrow>
       (g, cur, if ce_f_ct (cg_slots g i) \<noteq> at_pos cur
                then (if ch = Timeout then QTimeout else QCheck) else QRead)
   | QRead \<Rightarrow> (g, cur, QLoadRc (ce_data (cg_slots g i)))
   | QLoadRc d \<Rightarrow>
       let rc = ce_rc (cg_slots g i); nxt = inc_rc rc AND NOT (ucast conn_id)
       in (g, cur, if rc AND RC_MASK = 0 then QFreeOnly d
                   else if nxt AND RC_MASK = 0 then QFree d rc else QCas d rc)
   | QFreeOnly d \<Rightarrow> (cset g i (\<lambda>e. e\<lparr>ce_f_ct := free_flag cur\<rparr>), cur, QAdvance d)
   | QFree d rc \<Rightarrow> (cset g i (\<lambda>e. e\<lparr>ce_f_ct := free_flag cur\<rparr>), cur, QCas d rc)
   | QCas d rc \<Rightarrow>
       if ce_rc (cg_slots g i) = rc \<and> ch \<noteq> Spurious
       then (cset g i (\<lambda>e. e\<lparr>ce_rc := inc_rc rc AND NOT (ucast conn_id)\<rparr>), cur, QAdvance d)
       else (g, cur, QLoadRc d)
   | QAdvance d \<Rightarrow> (g, cur + 1, QCheck)
   | QTimeout \<Rightarrow> (g, cur, QCheck))"

section \<open>Marks, generation and epoch\<close>

definition generation :: "u64 \<Rightarrow> nat" where
  "generation rc = unat rc div 2 ^ 32 mod 2 ^ 24"

lemma chan_masks:
  "bit RC_MASK n \<longleftrightarrow> n < 32" "bit CH_EP_MASK n \<longleftrightarrow> n < 56"
  "bit CH_IC_MASK n \<longleftrightarrow> n < 32 \<or> 56 \<le> n \<and> n < 64"
proof -
  have m: "RC_MASK = mask 32" "CH_EP_MASK = mask 56"
    "CH_IC_MASK = mask 64 AND NOT (mask 56) OR mask 32"
    by (simp_all add: RC_MASK_def chan_rc_mask_def CH_EP_MASK_def chan_ep_mask_def CH_IC_MASK_def
        chan_ic_mask_def mask_eq_exp_minus_1)
  show "bit RC_MASK n \<longleftrightarrow> n < 32" unfolding m bit_mask_iff by auto
  show "bit CH_EP_MASK n \<longleftrightarrow> n < 56" unfolding m bit_mask_iff by auto
  show "bit CH_IC_MASK n \<longleftrightarrow> n < 32 \<or> 56 \<le> n \<and> n < 64"
    unfolding m bit_or_iff bit_and_iff bit_not_iff bit_mask_iff by auto
qed

lemma generation_bits:
  assumes "\<And>n. 32 \<le> n \<Longrightarrow> n < 56 \<Longrightarrow> bit a n = bit b n"
  shows "generation a = generation b"
proof -
  have g: "generation w = take_bit 24 (drop_bit 32 (unat w))" for w
    by (simp add: generation_def take_bit_eq_mod drop_bit_eq_div)
  show ?thesis unfolding g
  proof (rule bit_eqI)
    fix n show "bit (take_bit 24 (drop_bit 32 (unat a))) n = bit (take_bit 24 (drop_bit 32 (unat b))) n"
      using assms [of "n + 32"] by (auto simp: bit_take_bit_iff bit_drop_bit_eq bit_unsigned_iff add.commute)
  qed
qed

lemma mod_mult_div: "0 < a \<Longrightarrow> m mod (a * b) div a = m div a mod (b :: nat)"
  by (simp add: mod_mult2_eq)

lemma generation_plus: "generation (rc + CH_IC_INCR) = (generation rc + 1) mod 2 ^ 24"
proof -
  have i: "unat CH_IC_INCR = 2 ^ 32" by (simp add: CH_IC_INCR_def chan_ic_incr_def)
  have "unat (rc + CH_IC_INCR) = (unat rc + 2 ^ 32) mod (2 ^ 32 * 2 ^ 32)"
    by (simp add: unat_word_ariths i)
  moreover have "(unat rc + 2 ^ 32) mod (2 ^ 32 * 2 ^ 32) div 2 ^ 32 = (unat rc + 2 ^ 32) div 2 ^ 32 mod 2 ^ 32"
    by (rule mod_mult_div) simp
  moreover have "(unat rc + 2 ^ 32) div 2 ^ 32 = unat rc div 2 ^ 32 + 1"
    by (rule div_add_self2) simp
  ultimately have "unat (rc + CH_IC_INCR) div 2 ^ 32 = (unat rc div 2 ^ 32 + 1) mod 2 ^ 32"
    by (simp only:)
  then have "generation (rc + CH_IC_INCR) = (unat rc div 2 ^ 32 + 1) mod 2 ^ 32 mod 2 ^ 24"
    by (simp only: generation_def)
  also have "\<dots> = (unat rc div 2 ^ 32 + 1) mod 2 ^ 24"
    by (rule mod_mod_cancel) simp
  finally show ?thesis by (simp add: generation_def mod_Suc_eq)
qed

lemma bit_inc_rc: "n < 32 \<or> 56 \<le> n \<Longrightarrow> bit (inc_rc rc) n = bit rc n"
  by (auto simp: inc_rc_def bit_simps chan_masks dest: bit_imp_le_length)

lemma generation_inc_rc: "generation (inc_rc rc) = (generation rc + 1) mod 2 ^ 24"
proof -
  have "generation (inc_rc rc) = generation (rc + CH_IC_INCR)"
    by (rule generation_bits) (auto simp: inc_rc_def bit_simps chan_masks)
  then show ?thesis by (simp add: generation_plus)
qed

lemma bit_ucast32: "bit (ucast (x :: u32) :: u64) n \<Longrightarrow> n < 32"
  by (auto simp: bit_simps dest: bit_imp_le_length)

lemma claim_word:
  assumes "ep AND CH_EP_MASK = 0" and w: "w = inc_mask (ep OR (rc AND CH_EP_MASK)) OR ucast (cc :: u32)"
  shows "w AND RC_MASK = ucast cc" "w AND NOT CH_EP_MASK = ep" "generation w = (generation rc + 1) mod 2 ^ 24"
proof -
  have ep: "56 \<le> n" if "bit ep n" for n
  proof (rule ccontr)
    assume "\<not> 56 \<le> n"
    then have "bit (ep AND CH_EP_MASK) n" using that by (simp add: bit_and_iff chan_masks)
    with assms show False by simp
  qed
  have w: "bit w n \<longleftrightarrow>
      (if n < 32 then bit (ucast cc :: u64) n else bit (inc_rc (ep OR (rc AND CH_EP_MASK))) n)" for n
    using bit_ucast32 [of cc n]
    by (auto simp: w inc_mask_def bit_or_iff bit_and_iff bit_not_iff chan_masks dest: bit_imp_le_length)
  have top: "bit (inc_rc (ep OR (rc AND CH_EP_MASK))) n \<longleftrightarrow> bit ep n" if "56 \<le> n" for n
    using that by (auto simp: bit_inc_rc bit_or_iff bit_and_iff chan_masks)
  show "w AND RC_MASK = ucast cc"
    by (rule bit_word_eqI) (use bit_ucast32 [of cc] in \<open>auto simp: bit_and_iff w chan_masks\<close>)
  show "w AND NOT CH_EP_MASK = ep"
    by (rule bit_word_eqI) (use top in \<open>auto simp: bit_and_iff bit_not_iff w chan_masks dest: ep\<close>)
  have "generation w = generation (inc_rc (ep OR (rc AND CH_EP_MASK)))"
    by (rule generation_bits) (simp add: w)
  moreover have "generation (ep OR (rc AND CH_EP_MASK)) = generation rc"
    by (rule generation_bits) (auto simp: bit_or_iff bit_and_iff chan_masks dest: ep)
  ultimately show "generation w = (generation rc + 1) mod 2 ^ 24" by (simp add: generation_inc_rc)
qed

lemma release_word:
  assumes w: "w = inc_rc rc AND NOT (ucast (b :: u32))"
  shows "w AND RC_MASK = rc AND RC_MASK AND NOT (ucast b)" "w AND NOT CH_EP_MASK = rc AND NOT CH_EP_MASK"
    "generation w = (generation rc + 1) mod 2 ^ 24"
proof -
  have r: "bit w n \<longleftrightarrow> bit (inc_rc rc) n \<and> \<not> bit (ucast b :: u64) n" for n
    by (auto simp: w bit_and_iff bit_not_iff dest: bit_imp_le_length)
  show "w AND RC_MASK = rc AND RC_MASK AND NOT (ucast b)"
    by (rule bit_word_eqI) (auto simp: bit_and_iff r bit_not_iff chan_masks bit_inc_rc)
  show "w AND NOT CH_EP_MASK = rc AND NOT CH_EP_MASK"
    by (rule bit_word_eqI)
       (auto simp: bit_and_iff r bit_not_iff chan_masks bit_inc_rc dest: bit_ucast32 [of b])
  have "generation w = generation (inc_rc rc)"
    by (rule generation_bits) (auto simp: r dest: bit_ucast32 [of b])
  then show "generation w = (generation rc + 1) mod 2 ^ 24" by (simp add: generation_inc_rc)
qed

text \<open>
  C27. The reader word of a channel slot: a claim stores exactly the connected
  receivers as marks and the writer's epoch, a release removes exactly the
  reader's mark and keeps the epoch, and both move the 24-bit generation on by
  one, so that a compare-exchange against an older word fails until the
  generation has gone all the way round.
\<close>

theorem reader_word_packing:
  assumes "ep AND CH_EP_MASK = 0"
    and "claim = inc_mask (ep OR (rc AND CH_EP_MASK)) OR ucast (cc :: u32)"
    and "release = inc_rc rc AND NOT (ucast (b :: u32))"
  shows "claim AND RC_MASK = ucast cc \<and> claim AND NOT CH_EP_MASK = ep
       \<and> generation claim = (generation rc + 1) mod 2 ^ 24
       \<and> release AND RC_MASK = rc AND RC_MASK AND NOT (ucast b)
       \<and> release AND NOT CH_EP_MASK = rc AND NOT CH_EP_MASK
       \<and> generation release = (generation rc + 1) mod 2 ^ 24"
  using claim_word [OF assms(1,2)] release_word [OF assms(3)] by simp

theorem reader_word_packing_witness:
  "(inc_mask (0 OR (0x00fffff000000003 AND CH_EP_MASK)) OR ucast (5 :: u32)) AND RC_MASK = 5
   \<and> generation (inc_rc 0x00ffffff00000003 AND NOT (ucast (1 :: u32))) = 0"
  using reader_word_packing [of 0 _ "0x00fffff000000003" 5 _ 0, OF _ refl refl]
    reader_word_packing [of 0 _ "0x00ffffff00000003" 5 _ 1, OF _ refl refl]
  by (simp add: generation_def)
section \<open>Connecting to a channel\<close>

lemma u8_of_nat: "n < 256 \<Longrightarrow> i = (of_nat n :: u8) \<longleftrightarrow> unat i = n"
  by (auto simp: unat_of_nat)

lemma release_stale_slots:
  "cg_slots (release_stale g since b) i = release_stale_slot since b (cg_slots g i)"
proof -
  have "cg_slots (foldl (\<lambda>g idx. cset g (of_nat idx) f) g [0..<n]) i
      = (if unat i < n then f (cg_slots g i) else cg_slots g i)" if "n \<le> 256" for n f
    using that
  proof (induction n)
    case (Suc n)
    then have "i = of_nat n \<longleftrightarrow> unat i = n" by (intro u8_of_nat) simp
    with Suc show ?case by (auto simp: less_Suc_eq)
  qed simp
  then show ?thesis
    using unsigned_less [of i, where ?'a = nat] by (simp add: release_stale_def ring_size_def)
qed

lemma committed_at_pos:
  assumes "committed fl"
  shows "fl = at_pos (ucast (NOT fl))"
proof (rule bit_word_eqI)
  fix n assume "n < LENGTH(64)"
  have "bit fl n" if "32 \<le> n"
  proof -
    have "bit (drop_bit 32 fl) (n - 32) \<longleftrightarrow> bit (0xffffffff :: u64) (n - 32)"
      using assms by (simp add: committed_def)
    moreover have "(0xffffffff :: u64) = mask 32" by (simp add: mask_eq_exp_minus_1)
    ultimately have "bit (drop_bit 32 fl) (n - 32) \<longleftrightarrow> bit (mask 32 :: u64) (n - 32)" by simp
    then show ?thesis
      using that \<open>n < LENGTH(64)\<close> unfolding bit_mask_iff by (auto simp: bit_drop_bit_eq)
  qed
  then show "bit fl n = bit (at_pos (ucast (NOT fl))) n"
    using \<open>n < LENGTH(64)\<close> by (cases "32 \<le> n") (auto simp: at_pos_def bit_simps)
qed

lemma committed_at_pos_iff: "committed (at_pos pos)"
  unfolding committed_def
proof (rule bit_word_eqI)
  fix n assume n: "n < LENGTH(64)"
  have m: "(0xffffffff :: u64) = mask 32" by (simp add: mask_eq_exp_minus_1)
  show "bit (drop_bit 32 (at_pos pos)) n = bit (0xffffffff :: u64) n"
    unfolding m bit_mask_iff using n by (auto simp: at_pos_def bit_simps dest: bit_imp_le_length)
qed

lemma ucast_not_at_pos [simp]: "ucast (NOT (at_pos pos)) = pos"
  by (rule bit_word_eqI) (auto simp: at_pos_def bit_simps)

lemma release_mark_effect:
  assumes "ce_f_ct e = at_pos pos"
  shows "ce_rc (release_mark e pos b) AND RC_MASK = ce_rc e AND RC_MASK AND NOT (ucast b)"
    and "ce_data (release_mark e pos b) = ce_data e"
    and "ce_f_ct (release_mark e pos b) =
      (if ce_rc e AND ucast b \<noteq> 0 \<and> ce_rc e AND RC_MASK AND NOT (ucast b) = 0
       then ucast pos + of_nat ring_size else at_pos pos)"
proof -
  note rw = release_word(1) [OF refl, of "ce_rc e" b]
  have same: "ce_rc e AND RC_MASK = ce_rc e AND RC_MASK AND NOT (ucast b)" if "ce_rc e AND ucast b = 0"
  proof (rule bit_word_eqI)
    fix n
    have "bit (ce_rc e AND ucast b) n \<longleftrightarrow> False" using that by simp
    then show "bit (ce_rc e AND RC_MASK) n = bit (ce_rc e AND RC_MASK AND NOT (ucast b)) n"
      by (auto simp: bit_and_iff bit_not_iff dest: bit_imp_le_length)
  qed
  show "ce_rc (release_mark e pos b) AND RC_MASK = ce_rc e AND RC_MASK AND NOT (ucast b)"
    using assms rw same by (auto simp: release_mark_def Let_def)
  show "ce_data (release_mark e pos b) = ce_data e"
    by (simp add: release_mark_def Let_def)
  show "ce_f_ct (release_mark e pos b) =
      (if ce_rc e AND ucast b \<noteq> 0 \<and> ce_rc e AND RC_MASK AND NOT (ucast b) = 0
       then ucast pos + of_nat ring_size else at_pos pos)"
    using assms rw by (simp add: release_mark_def Let_def)
qed

text \<open>
  What a connecting receiver cleans up: \<open>release_stale\<close> touches only slots
  committed at a position before the one it read, and there it removes only the
  mark of the claimed bit. It frees the slot, for the position one lap later,
  exactly when that was the last mark. Slots that are not committed, slots it
  must read itself, every other receiver's mark and all slot data stay as they are.
\<close>

theorem release_stale_exact:
  "let e = cg_slots g i; e' = cg_slots (release_stale g since b) i; pos = ucast (NOT (ce_f_ct e))
   in if committed (ce_f_ct e) \<and> \<not> at_or_after pos since
      then ce_rc e' AND RC_MASK = ce_rc e AND RC_MASK AND NOT (ucast b) \<and> ce_data e' = ce_data e
        \<and> ce_f_ct e' = (if ce_rc e AND ucast b \<noteq> 0 \<and> ce_rc e AND RC_MASK AND NOT (ucast b) = 0
                        then ucast pos + of_nat ring_size else ce_f_ct e)
      else e' = e"
  using release_mark_effect [OF committed_at_pos] committed_at_pos [of "ce_f_ct (cg_slots g i)"]
  by (auto simp: Let_def release_stale_slots release_stale_slot_def)

lemma adopt_walk_back:
  "\<exists>k \<le> n. adopt_walk rc_at ep_mask epoch since b n cur = cur - of_nat k
    \<and> (\<forall>j < k. rc_at (index_of (cur - of_nat (Suc j))) AND ucast b \<noteq> 0
             \<and> rc_at (index_of (cur - of_nat (Suc j))) AND NOT ep_mask = epoch \<and> cur - of_nat j \<noteq> since)
    \<and> (k = n \<or> cur - of_nat k = since
       \<or> rc_at (index_of (cur - of_nat (Suc k))) AND ucast b = 0
       \<or> rc_at (index_of (cur - of_nat (Suc k))) AND NOT ep_mask \<noteq> epoch)"
proof (induction n arbitrary: cur)
  case (Suc n)
  let ?rc = "rc_at (index_of (cur - 1))"
  show ?case
  proof (cases "cur = since \<or> ?rc AND ucast b = 0 \<or> ?rc AND NOT ep_mask \<noteq> epoch")
    case True
    then show ?thesis by (intro exI [of _ 0]) (auto simp: Let_def)
  next
    case False
    from Suc.IH [of "cur - 1"] obtain k where k: "k \<le> n"
      "adopt_walk rc_at ep_mask epoch since b n (cur - 1) = cur - of_nat (Suc k)"
      and all: "\<And>j. j < k \<Longrightarrow> rc_at (index_of (cur - of_nat (Suc (Suc j)))) AND ucast b \<noteq> 0
             \<and> rc_at (index_of (cur - of_nat (Suc (Suc j)))) AND NOT ep_mask = epoch \<and> cur - of_nat (Suc j) \<noteq> since"
      and stop: "k = n \<or> cur - of_nat (Suc k) = since
       \<or> rc_at (index_of (cur - of_nat (Suc (Suc k)))) AND ucast b = 0
       \<or> rc_at (index_of (cur - of_nat (Suc (Suc k)))) AND NOT ep_mask \<noteq> epoch"
      by (auto simp: algebra_simps)
    have "rc_at (index_of (cur - of_nat (Suc j))) AND ucast b \<noteq> 0
        \<and> rc_at (index_of (cur - of_nat (Suc j))) AND NOT ep_mask = epoch \<and> cur - of_nat j \<noteq> since"
      if "j < Suc k" for j
      using that False all [of "j - 1"] by (cases j) auto
    with k stop False show ?thesis by (intro exI [of _ "Suc k"]) (auto simp: Let_def)
  qed
qed simp
text \<open>
  Where a new receiver starts: \<open>adopt_cursor\<close> returns the earliest position
  reached by walking back from the write cursor, at most one ring, over slots
  that already carry the receiver's mark in the current epoch, and never past
  the position it read before it claimed its bit. So every element addressed to
  it since then is at or after its start.
\<close>

theorem adopt_cursor_earliest:
  "\<exists>k \<le> ring_size. adopt_cursor_multi g since b = cg_write_cursor g - of_nat k
    \<and> (\<forall>j < k. let rc = ce_rc (cg_slots g (index_of (cg_write_cursor g - of_nat (Suc j))))
              in rc AND ucast b \<noteq> 0 \<and> rc AND NOT CH_EP_MASK = cg_epoch g
                 \<and> cg_write_cursor g - of_nat j \<noteq> since)
    \<and> (k = ring_size \<or> adopt_cursor_multi g since b = since
       \<or> (let rc = ce_rc (cg_slots g (index_of (adopt_cursor_multi g since b - 1)))
          in rc AND ucast b = 0 \<or> rc AND NOT CH_EP_MASK \<noteq> cg_epoch g))"
proof -
  let ?wc = "cg_write_cursor g" and ?rc = "\<lambda>i. ce_rc (cg_slots g i)"
  obtain k where k: "k \<le> ring_size" "adopt_cursor_multi g since b = ?wc - of_nat k"
    and all: "\<forall>j < k. ?rc (index_of (?wc - of_nat (Suc j))) AND ucast b \<noteq> 0
             \<and> ?rc (index_of (?wc - of_nat (Suc j))) AND NOT CH_EP_MASK = cg_epoch g \<and> ?wc - of_nat j \<noteq> since"
    and stop: "k = ring_size \<or> ?wc - of_nat k = since
       \<or> ?rc (index_of (?wc - of_nat (Suc k))) AND ucast b = 0
       \<or> ?rc (index_of (?wc - of_nat (Suc k))) AND NOT CH_EP_MASK \<noteq> cg_epoch g"
    using adopt_walk_back [of ring_size ?rc CH_EP_MASK "cg_epoch g" since b ?wc]
    unfolding adopt_cursor_multi_def by blast
  have e: "?wc - of_nat k - 1 = ?wc - of_nat (Suc k)" by simp
  show ?thesis
    unfolding Let_def k(2) e using k(1) all stop by blast
qed

theorem adopt_cursor_earliest_witness:
  "\<exists>k \<le> ring_size. adopt_cursor_multi
      \<lparr>cg_connections = 1, cg_write_cursor = 5, cg_epoch = 0,
       cg_slots = (\<lambda>i. \<lparr>ce_data = [], ce_rc = (if i = 4 then 1 else 0), ce_f_ct = 0\<rparr>), cg_live = undefined\<rparr> 3 1
     = 5 - of_nat k"
  using adopt_cursor_earliest
    [of "\<lparr>cg_connections = 1, cg_write_cursor = 5, cg_epoch = 0,
       cg_slots = (\<lambda>i. \<lparr>ce_data = [], ce_rc = (if i = 4 then 1 else 0), ce_f_ct = 0\<rparr>), cg_live = undefined\<rparr>" 3 1]
  by auto

section \<open>Two ways a channel fails\<close>

text \<open>
  Writers on one ring, which call \<open>push_fragment_multi\<close> again after it returned, and the connection mask changed by receivers that come and go.
\<close>

record writers_sys =
  ws_ring :: cring
  ws_pcs :: "nat \<Rightarrow> mpush_pc"

inductive writers_step :: "writers_sys \<Rightarrow> writers_sys \<Rightarrow> bool" where
  writer_move: "mpush_access cc_id f ch (ws_ring s) (ws_pcs s w) = (g, pc) \<Longrightarrow>
     writers_step s (s\<lparr>ws_ring := g, ws_pcs := (ws_pcs s)(w := pc)\<rparr>)"
| writer_calls: "ws_pcs s w = MReturn b \<Longrightarrow> writers_step s (s\<lparr>ws_pcs := (ws_pcs s)(w := MEpoch)\<rparr>)"
| receiver_joins: "connect [(cg_connections (ws_ring s), False)] (cg_connections (ws_ring s)) = Some (cc', cid) \<Longrightarrow>
     writers_step s (s\<lparr>ws_ring := (ws_ring s)\<lparr>cg_connections := cc'\<rparr>\<rparr>)"
| receiver_leaves: "disconnect (cg_connections (ws_ring s)) cid = (cc', cc') \<Longrightarrow>
     writers_step s (s\<lparr>ws_ring := (ws_ring s)\<lparr>cg_connections := cc'\<rparr>\<rparr>)"

text \<open>A writer of position \<open>ct\<close> that has not got past the slot.\<close>

fun held_up :: "u32 \<Rightarrow> mpush_pc \<Rightarrow> bool" where
  "held_up ct MEpoch = True"
| "held_up ct (MConn ep) = True"
| "held_up ct (MCursor ep cc) = True"
| "held_up ct (MRc ep cc c) = (c = ct)"
| "held_up ct (MFlag ep cc c rc) = (c = ct)"
| "held_up ct (MReturn b) = (\<not> b)"
| "held_up ct _ = False"

lemma held_up_step:
  assumes "mpush_access cc_id f ch g pc = (g', pc')" "held_up (cg_write_cursor g) pc"
    "ce_rc (cg_slots g (index_of (cg_write_cursor g))) AND RC_MASK = 0"
    "ce_f_ct (cg_slots g (index_of (cg_write_cursor g))) \<notin> {ucast (cg_write_cursor g), 0}"
  shows "g' = g \<and> held_up (cg_write_cursor g) pc'"
  using assms by (cases pc) (auto simp: mpush_access_def Let_def split: if_splits)

lemma held_up_for_good:
  assumes "rtranclp writers_step s s'" "\<forall>w. held_up (cg_write_cursor (ws_ring s)) (ws_pcs s w)"
    "ce_rc (cg_slots (ws_ring s) (index_of (cg_write_cursor (ws_ring s)))) AND RC_MASK = 0"
    "ce_f_ct (cg_slots (ws_ring s) (index_of (cg_write_cursor (ws_ring s)))) \<notin> {ucast (cg_write_cursor (ws_ring s)), 0}"
  shows "cg_write_cursor (ws_ring s') = cg_write_cursor (ws_ring s) \<and> cg_slots (ws_ring s') = cg_slots (ws_ring s)
    \<and> (\<forall>w. held_up (cg_write_cursor (ws_ring s)) (ws_pcs s' w))"
  using assms(1)
proof (induction rule: rtranclp_induct)
  case (step t t')
  note keeps = held_up_step [where g = "ws_ring t", unfolded step.IH [THEN conjunct1] step.IH [THEN conjunct2, THEN conjunct1]]
  from step(2) show ?case
  proof cases
    case (writer_move cc_id f ch w g pc)
    then show ?thesis using keeps [OF writer_move(2) _ assms(3,4)] step.IH by auto
  qed (use step.IH in auto)
qed (use assms in simp)

lemma wrapped_flag:
  fixes ct :: u32
  assumes "2 ^ 32 - 256 \<le> unat cur" "unat cur < 2 ^ 32 - 1"
  shows "free_flag cur \<noteq> ucast ct" "free_flag cur \<noteq> 0"
proof -
  have u: "unat (cur + 1) = unat cur + 1"
    using assms(2) by (simp add: unat_word_ariths)
  have "unat (free_flag cur) = unat cur + 256"
    using assms(2) u by (simp add: free_flag_def ring_size_def unat_word_ariths unat_ucast_32_64)
  moreover have "unat (ucast ct :: u64) < 2 ^ 32"
    using unsigned_less [of ct, where ?'a = nat] by (simp add: unat_ucast_32_64)
  ultimately show "free_flag cur \<noteq> ucast ct" "free_flag cur \<noteq> 0"
    using assms(1) by auto
qed

text \<open>The last reader of a slot: three steps without a spurious failure free the slot and clear the marks.\<close>

lemma last_reader_frees:
  assumes "conn_id \<noteq> 0" "ce_rc (cg_slots g (index_of cur)) AND RC_MASK = ucast conn_id" "c3 \<noteq> Spurious"
    and "mrecv_access conn_id c1 g cur (QLoadRc d) = (g1, cur1, q1)" "mrecv_access conn_id c2 g1 cur1 q1 = (g2, cur2, q2)"
    "mrecv_access conn_id c3 g2 cur2 q2 = (g3, cur3, q3)"
  shows "q3 = QAdvance d" "ce_f_ct (cg_slots g3 (index_of cur)) = free_flag cur" "ce_rc (cg_slots g3 (index_of cur)) AND RC_MASK = 0"
proof -
  let ?rc = "ce_rc (cg_slots g (index_of cur))"
  have "(inc_rc ?rc AND NOT (ucast conn_id)) AND RC_MASK = (?rc AND RC_MASK) AND NOT (ucast conn_id)"
    by (rule bit_word_eqI) (auto simp: bit_and_iff bit_not_iff chan_masks bit_inc_rc)
  then have n: "(inc_rc ?rc AND NOT (ucast conn_id)) AND RC_MASK = 0" by (simp add: assms(2))
  have "ucast conn_id \<noteq> (0 :: u64)" using assms(1) by (metis unat_ucast_32_64 unat_eq_0 unsigned_0)
  then have 1: "g1 = g" "cur1 = cur" "q1 = QFree d ?rc" using assms(2,4) n by (auto simp: mrecv_access_def Let_def)
  show "q3 = QAdvance d" "ce_f_ct (cg_slots g3 (index_of cur)) = free_flag cur" "ce_rc (cg_slots g3 (index_of cur)) AND RC_MASK = 0"
    using assms(3,5,6) n unfolding 1 by (auto simp: mrecv_access_def Let_def)
qed

text \<open>
  C39. The commit index wraps, the free flag does not: once the last reader of a position from \<open>2^32 - 256\<close> to \<open>2^32 - 2\<close> has freed its slot and the
  commit index is one lap on, the writers that start then never get past the slot: whatever they and joining or leaving receivers
  do, the index and the slots stay, and no push succeeds.
\<close>

theorem channel_wrap_wedges:
  assumes "2 ^ 32 - 256 \<le> unat cur" "unat cur < 2 ^ 32 - 1"
    and "conn_id \<noteq> 0" "ce_rc (cg_slots g (index_of cur)) AND RC_MASK = ucast conn_id" "c3 \<noteq> Spurious"
    and "mrecv_access conn_id c1 g cur (QLoadRc d) = (g1, cur1, q1)" "mrecv_access conn_id c2 g1 cur1 q1 = (g2, cur2, q2)"
      "mrecv_access conn_id c3 g2 cur2 q2 = (g3, cur3, q3)"
    and "cg_slots (ws_ring s) (index_of cur) = cg_slots g3 (index_of cur)" "cg_write_cursor (ws_ring s) = cur + of_nat ring_size"
      "\<forall>w. ws_pcs s w = MEpoch" "rtranclp writers_step s s'"
  shows "q3 = QAdvance d \<and> cg_write_cursor (ws_ring s') = cg_write_cursor (ws_ring s) \<and> cg_slots (ws_ring s') = cg_slots (ws_ring s)
    \<and> (\<forall>w. ws_pcs s' w \<noteq> MReturn True)"
proof -
  note l = last_reader_frees [OF assms(3-8)]
  have "cur + of_nat ring_size = of_nat (unat cur + 256)" by (simp add: ring_size_def)
  then have "index_of (cur + of_nat ring_size) = slot_ix (unat cur + 256)" by (simp only: index_of_of_nat)
  also have "\<dots> = slot_ix (unat cur)" by (simp add: slot_ix_eq_iff)
  also have "\<dots> = index_of cur" using index_of_of_nat [of "unat cur"] by simp
  finally have i: "index_of (cg_write_cursor (ws_ring s)) = index_of cur" by (simp add: assms(10))
  have "cg_write_cursor (ws_ring s') = cg_write_cursor (ws_ring s) \<and> cg_slots (ws_ring s') = cg_slots (ws_ring s)
    \<and> (\<forall>w. held_up (cg_write_cursor (ws_ring s)) (ws_pcs s' w))"
    by (rule held_up_for_good [OF assms(12)])
      (use assms(11) l wrapped_flag [OF assms(1,2)] in \<open>simp_all add: i assms(9)\<close>)
  then show ?thesis using l(1) by (metis held_up.simps(6))
qed

text \<open>The reader of position \<open>2^32 - 256\<close> frees its slot; a writer turns around at position 0.\<close>

definition wrap_ring :: cring where
  "wrap_ring = \<lparr>cg_connections = 1, cg_write_cursor = 0, cg_epoch = 0,
     cg_slots = (\<lambda>i. \<lparr>ce_data = [], ce_rc = 1, ce_f_ct = at_pos 0xffffff00\<rparr>), cg_live = (\<lambda>_. \<lparr>so_pid = 1, so_since = 0, so_start_tok = 0\<rparr>)\<rparr>"

definition wrap_read :: "cring \<times> u32 \<times> mrecv_pc" where
  "wrap_read = (case mrecv_access 1 Proceed wrap_ring 0xffffff00 (QLoadRc []) of (g, cur, q) \<Rightarrow>
     case mrecv_access 1 Proceed g cur q of (g, cur, q) \<Rightarrow> mrecv_access 1 Proceed g cur q)"

definition wrap_wedged :: writers_sys where
  "wrap_wedged = \<lparr>ws_ring = fst wrap_read, ws_pcs = (\<lambda>_. MEpoch)\<rparr>"

definition writers_init :: writers_sys where
  "writers_init = \<lparr>ws_ring = \<lparr>cg_connections = 1, cg_write_cursor = 0, cg_epoch = 0,
      cg_slots = (\<lambda>_. \<lparr>ce_data = replicate msg_t_size 0, ce_rc = 0, ce_f_ct = 0\<rparr>),
      cg_live = (\<lambda>_. \<lparr>so_pid = 1, so_since = 0, so_start_tok = 0\<rparr>)\<rparr>,
    ws_pcs = (\<lambda>_. MEpoch)\<rparr>"

datatype writers_event = Writer nat | Joins | Leaves u32

fun writers_apply :: "writers_sys \<Rightarrow> writers_event \<Rightarrow> writers_sys option" where
  "writers_apply s (Writer w) =
     (case mpush_access 9 (0, 0, []) Proceed (ws_ring s) (ws_pcs s w) of (g, pc) \<Rightarrow>
        Some (s\<lparr>ws_ring := g, ws_pcs := (ws_pcs s)(w := pc)\<rparr>))"
| "writers_apply s Joins =
     (case connect [(cg_connections (ws_ring s), False)] (cg_connections (ws_ring s)) of
        None \<Rightarrow> None | Some (cc', cid) \<Rightarrow> Some (s\<lparr>ws_ring := (ws_ring s)\<lparr>cg_connections := cc'\<rparr>\<rparr>))"
| "writers_apply s (Leaves cid) =
     Some (s\<lparr>ws_ring := (ws_ring s)\<lparr>cg_connections := fst (disconnect (cg_connections (ws_ring s)) cid)\<rparr>\<rparr>)"

fun writers_run :: "writers_sys \<Rightarrow> writers_event list \<Rightarrow> writers_sys option" where
  "writers_run s [] = Some s"
| "writers_run s (e # es) = (case writers_apply s e of None \<Rightarrow> None | Some s' \<Rightarrow> writers_run s' es)"

lemma writers_apply_step: "writers_apply s e = Some s' \<Longrightarrow> writers_step s s'"
  by (cases e)
     (auto simp: disconnect_def split: prod.splits option.splits
       intro: writer_move receiver_joins receiver_leaves)

lemma writers_run_steps: "writers_run s es = Some s' \<Longrightarrow> rtranclp writers_step s s'"
proof (induction es arbitrary: s)
  case (Cons e es)
  then obtain s1 where s1: "writers_apply s e = Some s1" "writers_run s1 es = Some s'"
    by (auto split: option.splits)
  from writers_apply_step [OF s1(1)] Cons.IH [OF s1(2)]
  show ?case by (rule converse_rtranclp_into_rtranclp)
qed simp

theorem channel_wrap_wedges_witness:
  "\<exists>s'. writers_run wrap_wedged (replicate 5 (Writer 0)) = Some s' \<and> ws_pcs s' 0 = MConn 0
     \<and> cg_write_cursor (ws_ring s') = 0 \<and> (\<forall>w. ws_pcs s' w \<noteq> MReturn True)"
proof -
  obtain g1 c1 q1 where 1: "mrecv_access 1 Proceed wrap_ring 0xffffff00 (QLoadRc []) = (g1, c1, q1)" by (metis prod_cases3)
  obtain g2 c2 q2 where 2: "mrecv_access 1 Proceed g1 c1 q1 = (g2, c2, q2)" by (metis prod_cases3)
  obtain g3 c3 q3 where 3: "mrecv_access 1 Proceed g2 c2 q2 = (g3, c3, q3)" by (metis prod_cases3)
  have w: "ws_ring wrap_wedged = g3" by (simp add: wrap_wedged_def wrap_read_def 1 2 3)
  have "case writers_run wrap_wedged (replicate 5 (Writer 0)) of None \<Rightarrow> False | Some s \<Rightarrow> ws_pcs s 0 = MConn 0" by code_simp
  then obtain s' where s': "writers_run wrap_wedged (replicate 5 (Writer 0)) = Some s'" "ws_pcs s' 0 = MConn 0"
    by (auto split: option.splits)
  have z: "cg_write_cursor (ws_ring wrap_wedged) = 0" by code_simp
  have "q3 = QAdvance [] \<and> cg_write_cursor (ws_ring s') = cg_write_cursor (ws_ring wrap_wedged)
      \<and> cg_slots (ws_ring s') = cg_slots (ws_ring wrap_wedged) \<and> (\<forall>w. ws_pcs s' w \<noteq> MReturn True)"
    by (rule channel_wrap_wedges [OF _ _ _ _ _ 1 2 3 _ _ _ writers_run_steps [OF s'(1)]])
      (simp_all add: w [symmetric] z, simp_all add: wrap_ring_def wrap_wedged_def RC_MASK_def chan_rc_mask_def ring_size_def)
  then show ?thesis using s' z by auto
qed

definition double_claim_events :: "writers_event list" where
  "double_claim_events = replicate 7 (Writer 0) @ [Joins, Leaves 1] @ replicate 6 (Writer 1)"

text \<open>
  Two writers can claim the same slot: a writer's claim is guarded only by the
  marks of receivers that are still connected. If, between a writer's claim and
  its advance of the commit index, a second receiver connects and the first one
  disconnects, another writer claims the same position again, and both write
  their fragment into one slot.
\<close>

theorem channel_double_claim:
  "\<exists>s. rtranclp writers_step writers_init s \<and> ws_pcs s 0 = MStore 0 \<and> ws_pcs s 1 = MStore 0"
proof -
  have "case writers_run writers_init double_claim_events of None \<Rightarrow> False
      | Some s \<Rightarrow> ws_pcs s 0 = MStore 0 \<and> ws_pcs s 1 = MStore 0"
    by code_simp
  then obtain s where s: "writers_run writers_init double_claim_events = Some s"
    "ws_pcs s 0 = MStore 0" "ws_pcs s 1 = MStore 0"
    by (auto split: option.splits)
  then show ?thesis using writers_run_steps [OF s(1)] by blast
qed

end
