(* ===== verification/Chunk_Storage.thy ===== *)
theory Chunk_Storage
  imports Conn_Head
begin

text \<open>
  \<open>chunk_storage.rs\<close>: the pool of large-message chunks in shared memory, a free
  list of 32 ids threaded through a byte array, the chunks behind it and their
  reference masks. The free list is proved to implement an allocator of ids; the
  contract of such an allocator is a locale.
\<close>

section \<open>The contract of an id allocator\<close>

text \<open>
  A client of an allocator: \<open>Inl ()\<close> takes an id, \<open>Inr i\<close> gives back an id it
  holds. The result lists the ids in use.
\<close>

fun alloc_client ::
  "('s \<Rightarrow> 's \<times> nat option) \<Rightarrow> (nat \<Rightarrow> 's \<Rightarrow> 's) \<Rightarrow> (unit + nat) list \<Rightarrow> 's \<times> nat list \<Rightarrow> 's \<times> nat list" where
  "alloc_client tk gv [] x = x"
| "alloc_client tk gv (Inl _ # ops) (s, used) =
     (case tk s of (s', None) \<Rightarrow> alloc_client tk gv ops (s', used)
      | (s', Some i) \<Rightarrow> alloc_client tk gv ops (s', i # used))"
| "alloc_client tk gv (Inr i # ops) (s, used) =
     (if i \<in> set used then alloc_client tk gv ops (gv i s, removeAll i used)
      else alloc_client tk gv ops (s, used))"

text \<open>
  \<open>avail s\<close> is the set of ids that may be handed out. Taking an id removes it,
  giving back an id that is not available makes it available, and taking fails
  only when none is left.
\<close>

locale id_allocator =
  fixes ok :: "'s \<Rightarrow> bool"
    and avail :: "'s \<Rightarrow> nat set"
    and take_id :: "'s \<Rightarrow> 's \<times> nat option"
    and give_id :: "nat \<Rightarrow> 's \<Rightarrow> 's"
    and capacity :: nat
  assumes avail_bound: "ok s \<Longrightarrow> avail s \<subseteq> {..<capacity}"
    and take_some: "ok s \<Longrightarrow> take_id s = (s', Some i) \<Longrightarrow> ok s' \<and> i \<in> avail s \<and> avail s' = avail s - {i}"
    and take_none: "ok s \<Longrightarrow> take_id s = (s', None) \<Longrightarrow> ok s' \<and> avail s = {} \<and> avail s' = {}"
    and give: "ok s \<Longrightarrow> i < capacity \<Longrightarrow> i \<notin> avail s \<Longrightarrow> ok (give_id i s) \<and> avail (give_id i s) = insert i (avail s)"
begin

text \<open>No id is in use twice, and every id is in use or available.\<close>

definition in_step :: "'s \<times> nat list \<Rightarrow> bool" where
  "in_step x \<longleftrightarrow> (case x of (s, used) \<Rightarrow>
     ok s \<and> distinct used \<and> set used \<inter> avail s = {} \<and> set used \<union> avail s = {..<capacity})"

lemma in_step_take:
  assumes "in_step (s, used)" "take_id s = (s', r)"
  shows "in_step (s', case r of None \<Rightarrow> used | Some i \<Rightarrow> i # used)"
proof (cases r)
  case None
  then show ?thesis using assms take_none [of s s'] by (auto simp: in_step_def)
next
  case (Some i)
  then show ?thesis using assms take_some [of s s' i] by (auto simp: in_step_def)
qed

lemma in_step_give:
  assumes "in_step (s, used)" "i \<in> set used"
  shows "in_step (give_id i s, removeAll i used)"
proof -
  have "i < capacity" "i \<notin> avail s" "ok s" using assms by (auto simp: in_step_def)
  then show ?thesis
    using give [of s i] assms by (auto simp: in_step_def distinct_removeAll)
qed

lemma in_step_client: "in_step x \<Longrightarrow> in_step (alloc_client take_id give_id ops x)"
proof (induction ops arbitrary: x)
  case (Cons op ops)
  obtain s used where x: "x = (s, used)" by fastforce
  show ?case
  proof (cases op)
    case (Inl u)
    obtain s' r where t: "take_id s = (s', r)" by fastforce
    show ?thesis
      using in_step_take [OF _ t, of used] Cons.prems Cons.IH Inl t by (cases r) (auto simp: x)
  next
    case (Inr i)
    then show ?thesis
      using in_step_give [of s used i] Cons.prems Cons.IH by (simp add: x)
  qed
qed simp

lemma client_conserves:
  assumes "ok s" "avail s = {..<capacity}" "alloc_client take_id give_id ops (s, []) = (s', used)"
  shows "distinct used" "set used \<inter> avail s' = {}" "set used \<union> avail s' = {..<capacity}"
  using in_step_client [of "(s, [])" ops] assms by (auto simp: in_step_def)

end

section \<open>The pool\<close>

record chunk_info =
  ci_next :: "u8 list"
  ci_cursor :: u8
  ci_prepared :: u8
  ci_lock :: u32

definition chunk_zero :: chunk_info where
  "chunk_zero = \<lparr>ci_next = replicate large_msg_cache 0, ci_cursor = 0, ci_prepared = 0, ci_lock = 0\<rparr>"

definition shm_size :: "nat \<Rightarrow> nat" where
  "shm_size chunk_size = chunk_info_size + large_msg_cache * chunk_size"

definition prepare :: "chunk_info \<Rightarrow> chunk_info" where
  "prepare ci =
     (let ci = (if ci_prepared ci = 0 \<and> ci_cursor ci = 0 \<and> list_all (\<lambda>b. b = 0) (ci_next ci)
                then ci\<lparr>ci_next := map (\<lambda>i. of_nat (i + 1)) [0..<large_msg_cache]\<rparr> else ci)
      in ci\<lparr>ci_prepared := 1\<rparr>)"

definition acquire :: "chunk_info \<Rightarrow> chunk_info \<times> i32" where
  "acquire ci =
     (if large_msg_cache \<le> unat (ci_cursor ci) then (ci, - 1)
      else let sid = ucast (ci_cursor ci)
           in (ci\<lparr>ci_cursor := ci_next ci ! unat (sid :: i32)\<rparr>, sid))"

definition release :: "i32 \<Rightarrow> chunk_info \<Rightarrow> chunk_info" where
  "release sid ci =
     (if sint sid < 0 \<or> large_msg_cache \<le> nat (sint sid) then ci
      else ci\<lparr>ci_next := (ci_next ci)[nat (sint sid) := ci_cursor ci], ci_cursor := ucast sid\<rparr>)"

section \<open>The free list\<close>

fun chain :: "u8 list \<Rightarrow> u8 \<Rightarrow> nat list \<Rightarrow> bool" where
  "chain nxt c [] \<longleftrightarrow> large_msg_cache \<le> unat c"
| "chain nxt c (x # xs) \<longleftrightarrow> unat c = x \<and> x < large_msg_cache \<and> chain nxt (nxt ! x) xs"

definition pool_list :: "chunk_info \<Rightarrow> nat list \<Rightarrow> bool" where
  "pool_list ci xs \<longleftrightarrow> length (ci_next ci) = large_msg_cache \<and> distinct xs \<and> chain (ci_next ci) (ci_cursor ci) xs"

lemma chain_unique: "chain nxt c xs \<Longrightarrow> chain nxt c ys \<Longrightarrow> xs = ys"
proof (induction xs arbitrary: c ys)
  case Nil
  then show ?case by (cases ys) auto
next
  case (Cons x xs)
  then show ?case by (cases ys) auto
qed

lemma chain_bound: "chain nxt c xs \<Longrightarrow> set xs \<subseteq> {..<large_msg_cache}"
  by (induction nxt c xs rule: chain.induct) auto

lemma chain_update: "i \<notin> set xs \<Longrightarrow> chain (nxt[i := v]) c xs = chain nxt c xs"
  by (induction nxt c xs rule: chain.induct) auto

lemma sint_ucast_u8: "sint (ucast (c :: u8) :: i32) = int (unat c)"
proof -
  have "(ucast c :: i32) = of_nat (unat c)" by simp
  moreover have "unat c < 2 ^ 31" using unsigned_less [of c, where ?'a = nat] by simp
  ultimately show ?thesis using sint_of_nat_small [of "unat c"] by simp
qed

lemma unat_ucast_u8: "unat (ucast (c :: u8) :: i32) = unat c"
  using unsigned_less [of c, where ?'a = nat] by (simp add: unsigned_ucast_eq take_bit_nat_eq_self)

definition take_id :: "chunk_info \<Rightarrow> chunk_info \<times> nat option" where
  "take_id ci = (case acquire ci of (ci', sid) \<Rightarrow> (ci', if sint sid < 0 then None else Some (nat (sint sid))))"

definition give_id :: "nat \<Rightarrow> chunk_info \<Rightarrow> chunk_info" where
  "give_id i ci = release (of_nat i) ci"

definition pool_ok :: "chunk_info \<Rightarrow> bool" where
  "pool_ok ci \<longleftrightarrow> (\<exists>xs. pool_list ci xs)"

definition pool_avail :: "chunk_info \<Rightarrow> nat set" where
  "pool_avail ci = {i. \<exists>xs. pool_list ci xs \<and> i \<in> set xs}"

lemma pool_avail_eq: "pool_list ci xs \<Longrightarrow> pool_avail ci = set xs"
  unfolding pool_avail_def pool_list_def using chain_unique by blast

lemma take_id_Cons:
  assumes "pool_list ci (x # xs)"
  shows "take_id ci = (ci\<lparr>ci_cursor := ci_next ci ! x\<rparr>, Some x)" "pool_list (ci\<lparr>ci_cursor := ci_next ci ! x\<rparr>) xs"
  using assms
  by (auto simp: take_id_def acquire_def pool_list_def Let_def sint_ucast_u8 unat_ucast_u8)

lemma take_id_Nil: "pool_list ci [] \<Longrightarrow> take_id ci = (ci, None)"
  by (simp add: take_id_def acquire_def pool_list_def)

lemma give_id_Cons:
  assumes "pool_list ci xs" "i < large_msg_cache" "i \<notin> set xs"
  shows "pool_list (give_id i ci) (i # xs)"
proof -
  have i: "i < 32" using assms(2) by (simp add: large_msg_cache_def)
  then have s: "sint (of_nat i :: i32) = int i" by (intro sint_of_nat_small) simp
  have u: "unat (ucast (of_nat i :: i32) :: u8) = i"
    using i by (simp add: unsigned_ucast_eq unsigned_of_nat take_bit_nat_eq_self)
  show ?thesis
    using assms s u by (simp add: give_id_def release_def pool_list_def chain_update)
qed

interpretation pool: id_allocator pool_ok pool_avail take_id give_id large_msg_cache
proof unfold_locales
  fix s assume "pool_ok s"
  then obtain xs where xs: "pool_list s xs" by (auto simp: pool_ok_def)
  show "pool_avail s \<subseteq> {..<large_msg_cache}"
    using pool_avail_eq [OF xs] chain_bound [of "ci_next s" "ci_cursor s" xs] xs
    by (simp add: pool_list_def)
next
  fix s s' i assume ok: "pool_ok s" and t: "take_id s = (s', Some i)"
  then obtain xs where xs: "pool_list s xs" by (auto simp: pool_ok_def)
  show "pool_ok s' \<and> i \<in> pool_avail s \<and> pool_avail s' = pool_avail s - {i}"
  proof (cases xs)
    case Nil
    then show ?thesis using t take_id_Nil xs by simp
  next
    case (Cons x ys)
    with xs have xs': "pool_list s (x # ys)" by simp
    have "distinct (x # ys)" using xs' by (simp add: pool_list_def)
    then show ?thesis
      using t take_id_Cons [OF xs'] pool_avail_eq [OF xs'] pool_avail_eq [OF take_id_Cons(2) [OF xs']]
      by (auto simp: pool_ok_def)
  qed
next
  fix s s' assume ok: "pool_ok s" and t: "take_id s = (s', None)"
  then obtain xs where xs: "pool_list s xs" by (auto simp: pool_ok_def)
  show "pool_ok s' \<and> pool_avail s = {} \<and> pool_avail s' = {}"
  proof (cases xs)
    case Nil
    then show ?thesis using t take_id_Nil xs ok pool_avail_eq [OF xs] by simp
  next
    case (Cons x ys)
    then show ?thesis using t take_id_Cons(1) xs by simp
  qed
next
  fix s i assume "pool_ok s" "i < large_msg_cache" "i \<notin> pool_avail s"
  then obtain xs where xs: "pool_list s xs" "i \<notin> set xs" using pool_avail_eq by (auto simp: pool_ok_def)
  from give_id_Cons [OF xs(1) \<open>i < large_msg_cache\<close> xs(2)]
  show "pool_ok (give_id i s) \<and> pool_avail (give_id i s) = insert i (pool_avail s)"
    using pool_avail_eq [OF xs(1)] pool_avail_eq by (auto simp: pool_ok_def)
qed

lemma prepare_fresh:
  "pool_ok (prepare chunk_zero)" "pool_avail (prepare chunk_zero) = {..<large_msg_cache}"
proof -
  have ch: "chain (ci_next (prepare chunk_zero)) (of_nat i) [i..<large_msg_cache]" if "i \<le> large_msg_cache" for i
    using that
  proof (induction "large_msg_cache - i" arbitrary: i)
    case 0
    then show ?case by (simp add: large_msg_cache_def)
  next
    case (Suc n)
    then have i: "i < large_msg_cache" by simp
    then have "unat (of_nat i :: u8) = i" by (simp add: large_msg_cache_def unat_of_nat)
    moreover have "ci_next (prepare chunk_zero) ! i = of_nat (Suc i)"
      using i by (simp add: prepare_def chunk_zero_def list_all_iff)
    moreover have "[i..<large_msg_cache] = i # [Suc i..<large_msg_cache]" by (rule upt_conv_Cons [OF i])
    moreover have "chain (ci_next (prepare chunk_zero)) (of_nat (Suc i)) [Suc i..<large_msg_cache]"
      using Suc i by (intro Suc.hyps) auto
    ultimately show ?case using i by (simp del: of_nat_Suc)
  qed
  have "ci_cursor (prepare chunk_zero) = of_nat 0" by (simp add: prepare_def chunk_zero_def)
  with ch [of 0] have "chain (ci_next (prepare chunk_zero)) (ci_cursor (prepare chunk_zero)) [0..<large_msg_cache]"
    by (simp only: le0)
  moreover have "length (ci_next (prepare chunk_zero)) = large_msg_cache"
    by (simp add: prepare_def chunk_zero_def)
  ultimately have "pool_list (prepare chunk_zero) [0..<large_msg_cache]"
    by (simp add: pool_list_def)
  then show "pool_ok (prepare chunk_zero)" "pool_avail (prepare chunk_zero) = {..<large_msg_cache}"
    using pool_avail_eq by (auto simp: pool_ok_def)
qed

text \<open>
  C33. The chunk pool is an allocator: start from zeroed shared memory and prepare
  it, then take and give back ids in any order. No id is ever handed out while
  it is in use, no id is lost, and taking fails only when all 32 are in use.
\<close>

theorem chunk_pool_allocates:
  assumes "alloc_client take_id give_id ops (prepare chunk_zero, []) = (ci, used)"
  shows "distinct used \<and> set used \<inter> pool_avail ci = {} \<and> set used \<union> pool_avail ci = {..<large_msg_cache}
    \<and> (snd (take_id ci) = None \<longleftrightarrow> set used = {..<large_msg_cache})"
proof -
  note c = pool.client_conserves [OF prepare_fresh assms]
  have ok: "pool_ok ci"
    using pool.in_step_client [of "(prepare chunk_zero, [])" ops] assms prepare_fresh
    by (auto simp: pool.in_step_def)
  obtain ci' r where t: "take_id ci = (ci', r)" by fastforce
  have "r = None \<longleftrightarrow> pool_avail ci = {}"
    using pool.take_some [OF ok] pool.take_none [OF ok] t by (cases r) auto
  then show ?thesis using c t by auto
qed

theorem chunk_pool_allocates_witness:
  "\<exists>ci used. alloc_client take_id give_id [Inl (), Inl (), Inr 0, Inl ()] (prepare chunk_zero, []) = (ci, used)
     \<and> distinct used \<and> set used \<inter> pool_avail ci = {}"
proof -
  obtain ci used where r: "alloc_client take_id give_id [Inl (), Inl (), Inr 0, Inl ()] (prepare chunk_zero, []) = (ci, used)"
    by fastforce
  from chunk_pool_allocates [OF this] r show ?thesis by blast
qed
section \<open>The chunks\<close>

definition calc_chunk_size :: "align_class \<Rightarrow> nat \<Rightarrow> nat" where
  "calc_chunk_size al msg_size =
     (let x = chunk_header_size al + msg_size
      in ((x + (large_msg_align - 1)) div large_msg_align) * large_msg_align)"

definition chunk_conns_off :: "nat \<Rightarrow> nat \<Rightarrow> nat" where
  "chunk_conns_off chunk_size i = chunk_info_size + chunk_size * i"

definition chunk_payload_off :: "align_class \<Rightarrow> nat \<Rightarrow> nat \<Rightarrow> nat" where
  "chunk_payload_off al chunk_size i = chunk_info_size + chunk_size * i + chunk_header_size al"

text \<open>A chunk segment: the pool and, per chunk, its reference mask and payload.\<close>

record chunk_shm =
  cm_info :: chunk_info
  cm_conns :: "nat \<Rightarrow> u32"
  cm_payload :: "nat \<Rightarrow> u8 list"

definition chunk_lock :: "chunk_info \<Rightarrow> chunk_info" where
  "chunk_lock ci = ci\<lparr>ci_lock := 1\<rparr>"

definition chunk_unlock :: "chunk_info \<Rightarrow> chunk_info" where
  "chunk_unlock ci = ci\<lparr>ci_lock := 0\<rparr>"

definition acquire_storage :: "align_class \<Rightarrow> chunk_shm \<Rightarrow> nat \<Rightarrow> u32 \<Rightarrow> chunk_shm \<times> (i32 \<times> nat) option" where
  "acquire_storage al m chunk_size conns =
     (case acquire (prepare (chunk_lock (cm_info m))) of (info, sid) \<Rightarrow>
        let m = m\<lparr>cm_info := chunk_unlock info\<rparr>
        in if sint sid < 0 then (m, None)
           else (m\<lparr>cm_conns := (cm_conns m)(nat (sint sid) := conns)\<rparr>,
                 Some (sid, chunk_payload_off al chunk_size (nat (sint sid)))))"

definition find_storage :: "align_class \<Rightarrow> nat \<Rightarrow> i32 \<Rightarrow> nat option" where
  "find_storage al chunk_size sid =
     (if sint sid < 0 \<or> large_msg_cache \<le> nat (sint sid) then None
      else Some (chunk_payload_off al chunk_size (nat (sint sid))))"

text \<open>\<open>es\<close> is the schedule of the compare-exchange loop; \<open>None\<close> is: still in it.\<close>

definition recycle_storage :: "(u32 \<times> bool) list \<Rightarrow> chunk_shm \<Rightarrow> i32 \<Rightarrow> u32 \<Rightarrow> chunk_shm option" where
  "recycle_storage es m sid conn_id =
     (if sint sid < 0 \<or> large_msg_cache \<le> nat (sint sid) then Some m
      else let i = nat (sint sid) in
        case cas_retry (\<lambda>cur. let nxt = cur AND NOT conn_id in Inl (nxt, nxt = 0)) es (cm_conns m i) of
          None \<Rightarrow> None
        | Some (w, is_last) \<Rightarrow>
            let m = m\<lparr>cm_conns := (cm_conns m)(i := w)\<rparr>
            in Some (if is_last then m\<lparr>cm_info := chunk_unlock (release sid (chunk_lock (cm_info m)))\<rparr> else m))"

text \<open>
  Chunk layout: the chunk size of a message is the least multiple of 1024 that
  holds the header and the message; the 32 chunks of that size lie one after
  the other inside the segment, behind the pool, so that payloads of different
  ids never overlap and none reaches past the end.
\<close>

theorem chunk_layout:
  "large_msg_align dvd calc_chunk_size al msg_size
   \<and> chunk_header_size al + msg_size \<le> calc_chunk_size al msg_size
   \<and> calc_chunk_size al msg_size < chunk_header_size al + msg_size + large_msg_align
   \<and> (i < large_msg_cache \<longrightarrow>
        chunk_info_size \<le> chunk_conns_off (calc_chunk_size al msg_size) i
        \<and> chunk_conns_off (calc_chunk_size al msg_size) i + 4 \<le> chunk_payload_off al (calc_chunk_size al msg_size) i
        \<and> chunk_payload_off al (calc_chunk_size al msg_size) i + msg_size \<le> chunk_conns_off (calc_chunk_size al msg_size) (Suc i)
        \<and> chunk_conns_off (calc_chunk_size al msg_size) (Suc i) \<le> shm_size (calc_chunk_size al msg_size))"
proof -
  let ?x = "chunk_header_size al + msg_size" and ?c = "calc_chunk_size al msg_size"
  have c: "?c = (?x + 1023) div 1024 * 1024"
    by (simp add: calc_chunk_size_def large_msg_align_def Let_def)
  have h: "4 \<le> chunk_header_size al" by (cases al) simp_all
  have le: "?x \<le> ?c" unfolding c by linarith
  have less: "?c < ?x + 1024" unfolding c by linarith
  have dv: "1024 dvd ?c" unfolding c by simp
  have fits: "?c * Suc i \<le> large_msg_cache * ?c" if "i < large_msg_cache"
    using mult_le_mono2 [of "Suc i" large_msg_cache ?c] that by (simp add: mult.commute)
  show ?thesis
    using le less h dv fits
    by (auto simp: large_msg_align_def chunk_conns_off_def chunk_payload_off_def shm_size_def)
qed

theorem chunk_layout_witness:
  "calc_chunk_size Align8 3000 = 3072
   \<and> chunk_payload_off Align8 (calc_chunk_size Align8 3000) 31 + 3000
       \<le> chunk_conns_off (calc_chunk_size Align8 3000) 32"
  using chunk_layout [of Align8 3000 31]
  by (simp add: calc_chunk_size_def large_msg_align_def large_msg_cache_def)

section \<open>Recycling\<close>

lemma pool_list_lock [simp]: "pool_list (ci\<lparr>ci_lock := v\<rparr>) xs = pool_list ci xs"
  by (simp add: pool_list_def)

lemma pool_lock_simps [simp]:
  "pool_avail (chunk_lock ci) = pool_avail ci" "pool_avail (chunk_unlock ci) = pool_avail ci"
  "pool_ok (chunk_lock ci) = pool_ok ci" "pool_ok (chunk_unlock ci) = pool_ok ci"
  by (simp_all add: pool_avail_def pool_ok_def chunk_lock_def chunk_unlock_def)

text \<open>One reader of chunk \<open>i\<close> recycling undisturbed.\<close>

definition recycle_bit :: "nat \<Rightarrow> chunk_shm \<Rightarrow> nat \<Rightarrow> chunk_shm" where
  "recycle_bit i m r = the (recycle_storage [(cm_conns m i, False)] m (of_nat i) (2 ^ r))"

lemma recycle_bit_eq:
  assumes "i < large_msg_cache"
  shows "recycle_bit i m r =
    (let w = cm_conns m i AND NOT (2 ^ r); m' = m\<lparr>cm_conns := (cm_conns m)(i := w)\<rparr>
     in if w = 0 then m'\<lparr>cm_info := chunk_unlock (give_id i (chunk_lock (cm_info m)))\<rparr> else m')"
proof -
  have "sint (of_nat i :: i32) = int i"
    using assms by (intro sint_of_nat_small) (simp add: large_msg_cache_def)
  then show ?thesis
    using assms by (simp add: recycle_bit_def recycle_storage_def give_id_def Let_def)
qed

text \<open>
  A chunk goes back to the pool exactly once: when the receivers stamped on
  it recycle it once each, in any order, the chunk stays allocated until the
  last of them and is available again after it.
\<close>

theorem recycle_frees_after_last:
  assumes "i < large_msg_cache" "pool_ok (cm_info m)" "i \<notin> pool_avail (cm_info m)"
    and "distinct rs" "set rs = set_bits_of (cm_conns m i)" "rs = done @ todo"
  shows "let m' = foldl (recycle_bit i) m done
         in (todo \<noteq> [] \<longrightarrow> cm_info m' = cm_info m)
            \<and> (todo = [] \<longrightarrow> done \<noteq> [] \<longrightarrow> pool_ok (cm_info m')
                \<and> pool_avail (cm_info m') = insert i (pool_avail (cm_info m)) \<and> cm_conns m' i = 0)"
proof -
  have main: "let m' = foldl (recycle_bit i) m done
      in set_bits_of (cm_conns m' i) = set todo
         \<and> (todo \<noteq> [] \<longrightarrow> cm_info m' = cm_info m)
         \<and> (todo = [] \<longrightarrow> done \<noteq> [] \<longrightarrow> pool_ok (cm_info m')
                \<and> pool_avail (cm_info m') = insert i (pool_avail (cm_info m)))"
    using assms(6)
  proof (induction "done" arbitrary: todo rule: rev_induct)
    case Nil
    then show ?case using assms(5) by simp
  next
    case (snoc r ds)
    let ?m = "foldl (recycle_bit i) m ds"
    have IH: "set_bits_of (cm_conns ?m i) = set (r # todo)" "cm_info ?m = cm_info m"
      using snoc.IH [of "r # todo"] snoc.prems by (simp_all add: Let_def)
    have r: "r \<notin> set todo" using assms(4) snoc.prems by auto
    have bits: "set_bits_of (cm_conns ?m i AND NOT (2 ^ r)) = set todo"
      using IH(1) r by (auto simp: set_bits_of_and_not)
    then have z: "cm_conns ?m i AND NOT (2 ^ r) = 0 \<longleftrightarrow> todo = []"
      by (metis set_bits_of_eq_empty set_empty)
    note step = recycle_bit_eq [OF assms(1), of ?m r, unfolded Let_def]
    show ?case
      using bits z IH(2) pool.give [of "chunk_lock (cm_info m)" i] assms(1-3)
      by (auto simp: Let_def step)
  qed
  then show ?thesis
    using set_bits_of_eq_empty [of "cm_conns (foldl (recycle_bit i) m done) i"] by (auto simp: Let_def)
qed

theorem recycle_frees_after_last_witness:
  "let m = \<lparr>cm_info = fst (take_id (prepare chunk_zero)), cm_conns = (\<lambda>_. 5), cm_payload = (\<lambda>_. [])\<rparr>
   in 0 \<in> pool_avail (cm_info (foldl (recycle_bit 0) m [2, 0]))
      \<and> cm_info (foldl (recycle_bit 0) m [2]) = cm_info m"
proof -
  obtain ci' r where t: "take_id (prepare chunk_zero) = (ci', r)" by fastforce
  have r: "r = Some 0"
  proof -
    have "snd (take_id (prepare chunk_zero)) = Some 0" by code_simp
    with t show ?thesis by simp
  qed
  let ?m = "\<lparr>cm_info = ci', cm_conns = (\<lambda>_. 5), cm_payload = (\<lambda>_. [])\<rparr> :: chunk_shm"
  have p: "pool_ok ci'" "pool_avail ci' = {..<large_msg_cache} - {0}"
    using pool.take_some [OF prepare_fresh(1) t [unfolded r]] prepare_fresh(2) by auto
  have bits: "set_bits_of (5 :: u32) = {2, 0}"
  proof -
    have "bit (5 :: u32) n \<longleftrightarrow> n = 0 \<or> n = 2" for n
      by (cases n; cases "n - 1"; cases "n - 2") (auto simp: bit_numeral_rec numeral_2_eq_2)
    then show ?thesis by (auto simp: set_bits_of_def)
  qed
  have m: "0 < large_msg_cache" "pool_ok (cm_info ?m)" "0 \<notin> pool_avail (cm_info ?m)"
    "distinct [2, 0 :: nat]" "set [2, 0] = set_bits_of (cm_conns ?m 0)"
    using p bits by (simp_all add: large_msg_cache_def)
  show ?thesis
    using recycle_frees_after_last [OF m, of "[2, 0]" "[]"] recycle_frees_after_last [OF m, of "[2]" "[0]"] t
    by (simp add: Let_def)
qed

text \<open>
  A second recycle corrupts the pool: when a receiver recycles a chunk whose
  mask is already empty (its bit was not stamped, or it was disconnected
  meanwhile), the id is given back again; if that happens right after the last
  reader's recycle, the next two large messages are given the same chunk.
\<close>

theorem double_recycle_shares_chunk:
  assumes "i < large_msg_cache" "cm_conns m i = 2 ^ r" "length (ci_next (cm_info m)) = large_msg_cache"
  shows "let m' = recycle_bit i (recycle_bit i m r) r'
         in snd (take_id (cm_info m')) = Some i \<and> snd (take_id (fst (take_id (cm_info m')))) = Some i"
proof -
  have i: "i < 32" using assms(1) by (simp add: large_msg_cache_def)
  then have s: "sint (of_nat i :: i32) = int i" by (intro sint_of_nat_small) simp
  have u: "unat (ucast (of_nat i :: i32) :: u8) = i"
    using i by (simp add: unsigned_ucast_eq unsigned_of_nat take_bit_nat_eq_self)
  show ?thesis
    using i s u assms
    by (simp add: recycle_bit_eq [OF assms(1)] Let_def give_id_def release_def chunk_lock_def
        chunk_unlock_def take_id_def acquire_def sint_ucast_u8 unat_ucast_u8 large_msg_cache_def)
qed

theorem double_recycle_shares_chunk_witness:
  "let m = \<lparr>cm_info = prepare chunk_zero, cm_conns = (\<lambda>_. 2 ^ 3), cm_payload = (\<lambda>_. [])\<rparr>;
       m' = recycle_bit 4 (recycle_bit 4 m 3) 6
   in snd (take_id (cm_info m')) = Some 4 \<and> snd (take_id (fst (take_id (cm_info m')))) = Some 4"
  using double_recycle_shares_chunk
    [of 4 "\<lparr>cm_info = prepare chunk_zero, cm_conns = (\<lambda>_. 2 ^ 3), cm_payload = (\<lambda>_. [])\<rparr>" 3 6]
  by (simp add: large_msg_cache_def prepare_def chunk_zero_def)
section \<open>Conformance probes\<close>

text \<open>The lines the probes print, before formatting.\<close>

datatype probe_line = Dump string "u8 list" u8 u8 | AcquireId i32 | LockBytes string u32

definition dump :: "string \<Rightarrow> chunk_info \<Rightarrow> probe_line" where
  "dump step ci = Dump step (ci_next ci) (ci_cursor ci) (ci_prepared ci)"

definition conform_spinlock :: "probe_line list" where
  "conform_spinlock =
     (let info = chunk_zero; locked = chunk_lock info; unlocked = chunk_unlock locked
      in [LockBytes ''init'' (ci_lock info), LockBytes ''locked'' (ci_lock locked),
          LockBytes ''unlocked'' (ci_lock unlocked)])"

definition conform_idpool :: "probe_line list" where
  "conform_idpool =
     (let z = chunk_zero; p = prepare z;
          (a1, i1) = acquire p; (a2, i2) = acquire a1; (a3, i3) = acquire a2;
          r = release 1 a3; (a4, i4) = acquire r
      in [dump ''zeroed'' z, dump ''prepared'' p, AcquireId i1, AcquireId i2, AcquireId i3,
          dump ''after-acquire3'' a3, dump ''after-release1'' r, AcquireId i4, dump ''after-reacquire'' a4])"

definition conform_idpool_partial :: "probe_line list" where
  "conform_idpool_partial =
     (let z = chunk_zero\<lparr>ci_next := (ci_next chunk_zero)[5 := 7]\<rparr>
      in [dump ''partial-before'' z, dump ''partial-after'' (prepare z)])"

definition conform_idpool_release :: "probe_line list" where
  "conform_idpool_release =
     (let s = chunk_zero\<lparr>ci_next := map (\<lambda>i. of_nat (i + 1)) [0..<large_msg_cache], ci_cursor := 3, ci_prepared := 1\<rparr>;
          r1 = release 1 s; r0 = release 0 r1
      in [dump ''seeded'' s, dump ''after-release1'' r1, dump ''after-release0'' r0])"

lemma conform_spinlock_trace:
  "conform_spinlock = [LockBytes ''init'' 0, LockBytes ''locked'' 1, LockBytes ''unlocked'' 0]"
  by code_simp

lemma conform_idpool_ids:
  "[i. AcquireId i \<leftarrow> conform_idpool] = [0, 1, 2, 1]"
  by code_simp

lemma conform_idpool_partial_keeps:
  "case conform_idpool_partial of
     [Dump _ n c p, Dump _ n' c' p'] \<Rightarrow> n = n' \<and> c = c' \<and> p' = 1
   | _ \<Rightarrow> False"
  by code_simp

end
