(* ===== verification/Shm_Ring.thy ===== *)
theory Shm_Ring
  imports Prelude
begin

text \<open>
  \<open>proto/shm_ring.rs\<close>: the single-producer single-consumer ring over a shared
  memory segment. Its sequential operations implement a bounded queue, whose
  contract is a locale; the concurrent ring is a step relation with one step per
  access to the shared words.
\<close>

section \<open>The contract of a bounded queue\<close>

text \<open>
  \<open>queue_client\<close> runs a history (\<open>Inl x\<close> puts, \<open>Inr ()\<close> gets) and collects what
  was accepted and what was taken out.
\<close>

fun queue_client ::
  "('a \<Rightarrow> 's \<Rightarrow> 's \<times> bool) \<Rightarrow> ('s \<Rightarrow> 's \<times> 'a option) \<Rightarrow> ('a + unit) list \<Rightarrow> 's \<Rightarrow> 's \<times> 'a list \<times> 'a list" where
  "queue_client put get [] s = (s, [], [])"
| "queue_client put get (Inl x # ops) s =
     (case put x s of (s', b) \<Rightarrow>
        case queue_client put get ops s' of (s'', ins, outs) \<Rightarrow> (s'', if b then x # ins else ins, outs))"
| "queue_client put get (Inr _ # ops) s =
     (case get s of (s', r) \<Rightarrow>
        case queue_client put get ops s' of (s'', ins, outs) \<Rightarrow>
          (s'', ins, case r of None \<Rightarrow> outs | Some x \<Rightarrow> x # outs))"

text \<open>\<open>budget\<close> is how many more puts the representation can count.\<close>

locale bounded_queue =
  fixes ok :: "'s \<Rightarrow> bool"
    and contents :: "'s \<Rightarrow> 'a list"
    and capacity :: nat
    and budget :: "'s \<Rightarrow> nat"
    and put :: "'a \<Rightarrow> 's \<Rightarrow> 's \<times> bool"
    and get :: "'s \<Rightarrow> 's \<times> 'a option"
  assumes bound: "ok s \<Longrightarrow> length (contents s) \<le> capacity"
    and put_room: "ok s \<Longrightarrow> 0 < budget s \<Longrightarrow> length (contents s) < capacity \<Longrightarrow> put x s = (s', b) \<Longrightarrow>
      ok s' \<and> b \<and> contents s' = contents s @ [x] \<and> budget s \<le> Suc (budget s')"
    and put_full: "ok s \<Longrightarrow> length (contents s) = capacity \<Longrightarrow> put x s = (s, False)"
    and get_some: "ok s \<Longrightarrow> contents s = x # xs \<Longrightarrow> get s = (s', r) \<Longrightarrow>
      ok s' \<and> r = Some x \<and> contents s' = xs \<and> budget s' = budget s"
    and get_none: "ok s \<Longrightarrow> contents s = [] \<Longrightarrow> get s = (s, None)"
begin

lemma put_cases:
  assumes "ok s" "0 < budget s" "put x s = (s', b)"
  shows "ok s' \<and> contents s' = (if b then contents s @ [x] else contents s) \<and> budget s \<le> Suc (budget s')"
proof (cases "length (contents s) = capacity")
  case True
  then show ?thesis using put_full [OF assms(1) True, of x] assms by simp
next
  case False
  then have "length (contents s) < capacity" using bound [OF assms(1)] by simp
  then show ?thesis using put_room [OF assms(1,2) _ assms(3)] by simp
qed

lemma get_cases:
  assumes "ok s" "get s = (s', r)"
  shows "ok s' \<and> budget s' = budget s
    \<and> (case r of None \<Rightarrow> contents s = [] \<and> contents s' = [] | Some x \<Rightarrow> contents s = x # contents s')"
proof (cases "contents s")
  case Nil
  then show ?thesis using get_none [OF assms(1) Nil] assms by simp
next
  case (Cons x xs)
  then show ?thesis using get_some [OF assms(1) Cons assms(2)] by simp
qed

lemma fifo:
  assumes "ok s" "length ops \<le> budget s" "queue_client put get ops s = (s', ins, outs)"
  shows "ok s' \<and> outs @ contents s' = contents s @ ins"
  using assms
proof (induction ops arbitrary: s ins outs)
  case (Cons op ops)
  show ?case
  proof (cases op)
    case (Inl x)
    obtain s1 b where p: "put x s = (s1, b)" by fastforce
    obtain i o' where q: "queue_client put get ops s1 = (s', i, o')"
      using Cons.prems(3) Inl p by (auto split: prod.splits)
    have c: "ok s1 \<and> contents s1 = (if b then contents s @ [x] else contents s) \<and> budget s \<le> Suc (budget s1)"
      using Cons.prems by (intro put_cases [OF _ _ p]) auto
    show ?thesis
      using Cons.IH [of s1 i o'] c q p Inl Cons.prems by (auto split: if_splits)
  next
    case (Inr u)
    obtain s1 r where g: "get s = (s1, r)" by fastforce
    obtain i o' where q: "queue_client put get ops s1 = (s', i, o')"
      using Cons.prems(3) Inr g by (auto split: prod.splits)
    show ?thesis
      using Cons.IH [of s1 i o'] get_cases [OF Cons.prems(1) g] q g Inr Cons.prems
      by (auto split: option.splits)
  qed
qed simp

end

section \<open>The ring\<close>

record 'a sring =
  sr_write_idx :: u64
  sr_read_idx :: u64
  sr_constructed :: bool
  sr_slots :: "nat \<Rightarrow> 'a"

text \<open>\<open>N\<close> is the capacity, a power of two; \<open>slot_of\<close> is the index masked.\<close>

definition slot_of :: "nat \<Rightarrow> u64 \<Rightarrow> nat" where
  "slot_of N idx = unat (idx AND (of_nat N - 1))"

definition open_or_create :: "'a \<Rightarrow> 'a sring \<Rightarrow> 'a sring" where
  "open_or_create zero s =
     (if sr_constructed s then s
      else \<lparr>sr_write_idx = 0, sr_read_idx = 0, sr_constructed = True, sr_slots = (\<lambda>_. zero)\<rparr>)"

definition write_slot :: "nat \<Rightarrow> 'a sring \<Rightarrow> nat option" where
  "write_slot N s =
     (if N \<le> unat (sr_write_idx s - sr_read_idx s) then None else Some (slot_of N (sr_write_idx s)))"

definition write_commit :: "'a sring \<Rightarrow> 'a sring" where
  "write_commit s = s\<lparr>sr_write_idx := sr_write_idx s + 1\<rparr>"

definition ring_write :: "nat \<Rightarrow> 'a \<Rightarrow> 'a sring \<Rightarrow> 'a sring \<times> bool" where
  "ring_write N item s =
     (case write_slot N s of
        None \<Rightarrow> (s, False)
      | Some i \<Rightarrow> (write_commit (s\<lparr>sr_slots := (sr_slots s)(i := item)\<rparr>), True))"

definition write_overwrite :: "nat \<Rightarrow> 'a \<Rightarrow> 'a sring \<Rightarrow> 'a sring" where
  "write_overwrite N item s =
     (let w = sr_write_idx s; r = sr_read_idx s;
          s = (if N \<le> unat (w - r) then s\<lparr>sr_read_idx := r + 1\<rparr> else s)
      in write_commit (s\<lparr>sr_slots := (sr_slots s)(slot_of N w := item)\<rparr>))"

definition read_slot :: "nat \<Rightarrow> 'a sring \<Rightarrow> nat option" where
  "read_slot N s = (if sr_write_idx s \<le> sr_read_idx s then None else Some (slot_of N (sr_read_idx s)))"

definition read_commit :: "'a sring \<Rightarrow> 'a sring" where
  "read_commit s = s\<lparr>sr_read_idx := sr_read_idx s + 1\<rparr>"

definition ring_read :: "nat \<Rightarrow> 'a sring \<Rightarrow> 'a sring \<times> 'a option" where
  "ring_read N s =
     (case read_slot N s of None \<Rightarrow> (s, None) | Some i \<Rightarrow> (read_commit s, Some (sr_slots s i)))"

definition available :: "'a sring \<Rightarrow> nat" where
  "available s = unat (sr_write_idx s - sr_read_idx s)"

definition is_empty :: "'a sring \<Rightarrow> bool" where "is_empty s \<longleftrightarrow> available s = 0"
definition is_full :: "nat \<Rightarrow> 'a sring \<Rightarrow> bool" where "is_full N s \<longleftrightarrow> N \<le> available s"

section \<open>The ring is a bounded queue\<close>

definition ring_contents :: "nat \<Rightarrow> 'a sring \<Rightarrow> 'a list" where
  "ring_contents N s = map (\<lambda>p. sr_slots s (p mod N)) [unat (sr_read_idx s)..<unat (sr_write_idx s)]"

definition sring_ok :: "nat \<Rightarrow> 'a sring \<Rightarrow> bool" where
  "sring_ok N s \<longleftrightarrow>
     unat (sr_read_idx s) \<le> unat (sr_write_idx s) \<and> unat (sr_write_idx s) \<le> unat (sr_read_idx s) + N"

definition sring_budget :: "'a sring \<Rightarrow> nat" where
  "sring_budget s = 2 ^ 64 - 1 - unat (sr_write_idx s)"

lemma slot_of_mod: "slot_of (2 ^ k) idx = unat idx mod 2 ^ k"
proof -
  have m: "(of_nat (2 ^ k) - 1 :: u64) = mask k" by (simp add: mask_eq_exp_minus_1)
  have "slot_of (2 ^ k) idx = unat (take_bit k idx)"
    unfolding slot_of_def m by (simp only: take_bit_eq_mask)
  also have "\<dots> = take_bit k (unat idx)" by (rule unsigned_take_bit_eq)
  finally show ?thesis by (simp only: take_bit_eq_mod)
qed

lemma unat_diff: "unat (r :: u64) \<le> unat w \<Longrightarrow> unat (w - r) = unat w - unat r"
  by (simp add: unat_sub word_le_nat_alt)

lemma unat_succ: "unat w < 2 ^ 64 - 1 \<Longrightarrow> unat (w + 1 :: u64) = unat w + 1"
  by (simp add: unat_word_ariths)

text \<open>Positions less than a ring apart have different slots.\<close>

lemma mod_window: "p mod N = q mod N \<Longrightarrow> p \<le> q \<Longrightarrow> q < p + N \<Longrightarrow> p = (q :: nat)"
proof -
  assume a: "p mod N = q mod N" "p \<le> q" "q < p + N"
  then have "N dvd q - p" by (metis mod_eq_dvd_iff_nat)
  moreover have "q - p < N" using a by simp
  ultimately have "q - p = 0" by (metis dvd_imp_le not_less zero_less_iff_neq_zero)
  with \<open>p \<le> q\<close> show ?thesis by simp
qed

lemma contents_write:
  assumes "R \<le> W" "W < R + N"
  shows "map (\<lambda>p. (f(W mod N := x)) (p mod N)) [R..<Suc W] = map (\<lambda>p. f (p mod N)) [R..<W] @ [x]"
proof -
  have "p mod N \<noteq> W mod N" if "R \<le> p" "p < W" for p
    using mod_window [of p N W] that assms by auto
  then show ?thesis using assms by simp
qed

interpretation sring: bounded_queue "sring_ok (2 ^ k)" "ring_contents (2 ^ k)" "2 ^ k" sring_budget
  "ring_write (2 ^ k)" "ring_read (2 ^ k)" for k
proof unfold_locales
  fix s :: "'a sring" and s' x b
  assume ok: "sring_ok (2 ^ k) s" and bud: "0 < sring_budget s"
    and room: "length (ring_contents (2 ^ k) s) < 2 ^ k" and wr: "ring_write (2 ^ k) x s = (s', b)"
  let ?R = "unat (sr_read_idx s)" and ?W = "unat (sr_write_idx s)"
  have le: "?R \<le> ?W" "?W < ?R + 2 ^ k" using ok room by (auto simp: sring_ok_def ring_contents_def)
  have w: "unat (sr_write_idx s + 1) = Suc ?W" using bud by (simp add: sring_budget_def unat_succ)
  have "unat (sr_write_idx s - sr_read_idx s) < 2 ^ k" using le by (simp add: unat_diff)
  then have s': "s' = s\<lparr>sr_write_idx := sr_write_idx s + 1, sr_slots := (sr_slots s)(?W mod 2 ^ k := x)\<rparr>" and b
    using wr by (auto simp: ring_write_def write_slot_def write_commit_def slot_of_mod)
  have "ring_contents (2 ^ k) s' = ring_contents (2 ^ k) s @ [x]"
    using contents_write [OF le, of "sr_slots s" x]
    by (simp add: s' ring_contents_def w del: upt_Suc map_eq_conv fun_upd_apply)
  then show "sring_ok (2 ^ k) s' \<and> b \<and> ring_contents (2 ^ k) s' = ring_contents (2 ^ k) s @ [x]
      \<and> sring_budget s \<le> Suc (sring_budget s')"
    using le w \<open>b\<close> by (simp add: s' sring_ok_def sring_budget_def)
next
  fix s :: "'a sring" and x
  assume "sring_ok (2 ^ k) s" "length (ring_contents (2 ^ k) s) = 2 ^ k"
  then have "unat (sr_write_idx s - sr_read_idx s) = 2 ^ k"
    by (simp add: sring_ok_def ring_contents_def unat_diff)
  then show "ring_write (2 ^ k) x s = (s, False)" by (simp add: ring_write_def write_slot_def)
next
  fix s :: "'a sring" and s' x xs r
  assume ok: "sring_ok (2 ^ k) s" and c: "ring_contents (2 ^ k) s = x # xs" and rd: "ring_read (2 ^ k) s = (s', r)"
  let ?R = "unat (sr_read_idx s)" and ?W = "unat (sr_write_idx s)"
  have lt: "?R < ?W" using c by (cases "?R < ?W") (auto simp: ring_contents_def)
  then have up: "[?R..<?W] = ?R # [Suc ?R..<?W]" by (rule upt_conv_Cons)
  have "?W < 2 ^ 64" using unsigned_less [of "sr_write_idx s", where ?'a = nat] by simp
  then have r1: "unat (sr_read_idx s + 1) = Suc ?R" using lt by (simp add: unat_succ)
  have "s' = read_commit s" "r = Some (sr_slots s (?R mod 2 ^ k))"
    using rd lt by (auto simp: ring_read_def read_slot_def slot_of_mod word_le_nat_alt)
  then show "sring_ok (2 ^ k) s' \<and> r = Some x \<and> ring_contents (2 ^ k) s' = xs \<and> sring_budget s' = sring_budget s"
    using ok c lt r1 up by (simp add: sring_ok_def ring_contents_def sring_budget_def read_commit_def)
qed (auto simp: sring_ok_def ring_contents_def ring_read_def read_slot_def word_le_nat_alt)

text \<open>
  C32. The shared-memory ring is a queue: on a freshly created ring of capacity
  \<open>2^k\<close>, any history of fewer than \<open>2^64\<close> writes and reads takes out exactly what
  was accepted, in order, each item once; what is not yet read is still in the
  ring, and at most \<open>2^k\<close> items are.
\<close>

theorem shm_ring_fifo:
  assumes "queue_client (ring_write (2 ^ k)) (ring_read (2 ^ k)) ops (open_or_create zero fresh) = (s, ins, outs)"
    and "length ops < 2 ^ 64" "\<not> sr_constructed fresh"
  shows "outs @ ring_contents (2 ^ k) s = ins \<and> length (ring_contents (2 ^ k) s) \<le> 2 ^ k"
proof -
  let ?s = "open_or_create zero fresh"
  have "sring_ok (2 ^ k) ?s" "ring_contents (2 ^ k) ?s = []" "length ops \<le> sring_budget ?s"
    using assms(2,3) by (auto simp: open_or_create_def sring_ok_def ring_contents_def sring_budget_def)
  with sring.fifo [OF _ _ assms(1)] sring.bound show ?thesis by auto
qed

theorem shm_ring_fifo_witness:
  "\<exists>s. queue_client (ring_write (2 ^ 1)) (ring_read (2 ^ 1)) [Inl 5, Inl 6, Inl 7, Inr (), Inl 8]
       (open_or_create (0 :: nat) \<lparr>sr_write_idx = 9, sr_read_idx = 3, sr_constructed = False, sr_slots = (\<lambda>_. 1)\<rparr>)
     = (s, [5, 6, 8], [5]) \<and> ring_contents (2 ^ 1) s = [6, 8]"
proof -
  let ?f = "\<lparr>sr_write_idx = 9, sr_read_idx = 3, sr_constructed = False, sr_slots = (\<lambda>_. 1 :: nat)\<rparr>"
  let ?ops = "[Inl 5, Inl 6, Inl 7, Inr (), Inl 8]"
  obtain s ins outs where
    r: "queue_client (ring_write (2 ^ 1)) (ring_read (2 ^ 1)) ?ops (open_or_create 0 ?f) = (s, ins, outs)"
    by (cases "queue_client (ring_write (2 ^ 1)) (ring_read (2 ^ 1)) ?ops (open_or_create 0 ?f)") auto
  have "snd (queue_client (ring_write (2 ^ 1)) (ring_read (2 ^ 1)) ?ops (open_or_create 0 ?f)) = ([5, 6, 8], [5])"
    by code_simp
  with r have "ins = [5, 6, 8]" "outs = [5]" by simp_all
  then show ?thesis using r shm_ring_fifo [OF r] by auto
qed

section \<open>Producer and consumer at the same time\<close>

text \<open>
  Where \<open>write\<close> (\<open>WLoadW\<close> to \<open>WCommit\<close>) or \<open>write_overwrite\<close> (from \<open>OLoadW\<close>) is in
  the producer, and \<open>read\<close> in the consumer.
\<close>

datatype 'a wpc =
    WIdle
  | WLoadW 'a
  | WLoadR 'a u64
  | WStore 'a u64
  | WCommit
  | OLoadW 'a
  | OLoadR 'a u64
  | OBump 'a u64 u64

datatype 'a rpc = RIdle | RLoadW u64 | RCopy u64 | RCommit 'a

definition producer_access :: "nat \<Rightarrow> 'a sring \<Rightarrow> 'a wpc \<Rightarrow> 'a sring \<times> 'a wpc" where
  "producer_access N s pc = (case pc of
     WIdle \<Rightarrow> (s, WIdle)
   | WLoadW x \<Rightarrow> (s, WLoadR x (sr_write_idx s))
   | WLoadR x w \<Rightarrow> (s, if N \<le> unat (w - sr_read_idx s) then WIdle else WStore x w)
   | WStore x w \<Rightarrow> (s\<lparr>sr_slots := (sr_slots s)(slot_of N w := x)\<rparr>, WCommit)
   | WCommit \<Rightarrow> (write_commit s, WIdle)
   | OLoadW x \<Rightarrow> (s, OLoadR x (sr_write_idx s))
   | OLoadR x w \<Rightarrow>
       (s, if N \<le> unat (w - sr_read_idx s) then OBump x w (sr_read_idx s) else WStore x w)
   | OBump x w r \<Rightarrow> (s\<lparr>sr_read_idx := r + 1\<rparr>, WStore x w))"

definition consumer_access :: "nat \<Rightarrow> 'a sring \<Rightarrow> 'a rpc \<Rightarrow> 'a sring \<times> 'a rpc" where
  "consumer_access N s pc = (case pc of
     RIdle \<Rightarrow> (s, RLoadW (sr_read_idx s))
   | RLoadW r \<Rightarrow> (s, if sr_write_idx s \<le> r then RIdle else RCopy r)
   | RCopy r \<Rightarrow> (s, RCommit (sr_slots s (slot_of N r)))
   | RCommit x \<Rightarrow> (read_commit s, RIdle))"

text \<open>Beside the ring, the items committed by the producer and those the consumer returned.\<close>

record 'a spsc =
  sp_ring :: "'a sring"
  sp_w :: "'a wpc"
  sp_r :: "'a rpc"
  sp_in :: "'a list"
  sp_out :: "'a list"

definition producer_move :: "nat \<Rightarrow> 'a spsc \<Rightarrow> 'a spsc" where
  "producer_move N s =
     (case producer_access N (sp_ring s) (sp_w s) of (g, pc) \<Rightarrow>
        s\<lparr>sp_ring := g, sp_w := pc,
          sp_in := (case sp_w s of
              WStore x w \<Rightarrow> sp_in s @ [x] | _ \<Rightarrow> sp_in s)\<rparr>)"

definition consumer_move :: "nat \<Rightarrow> 'a spsc \<Rightarrow> 'a spsc" where
  "consumer_move N s =
     (case consumer_access N (sp_ring s) (sp_r s) of (g, pc) \<Rightarrow>
        s\<lparr>sp_ring := g, sp_r := pc,
          sp_out := (case sp_r s of RCommit x \<Rightarrow> sp_out s @ [x] | _ \<Rightarrow> sp_out s)\<rparr>)"

text \<open>With \<open>ov\<close> the producer may also call \<open>write_overwrite\<close>.\<close>

inductive spsc_step :: "bool \<Rightarrow> nat \<Rightarrow> 'a spsc \<Rightarrow> 'a spsc \<Rightarrow> bool" for ov N where
  spsc_write: "sp_w s = WIdle \<Longrightarrow> spsc_step ov N s (s\<lparr>sp_w := WLoadW x\<rparr>)"
| spsc_overwrite: "ov \<Longrightarrow> sp_w s = WIdle \<Longrightarrow> spsc_step ov N s (s\<lparr>sp_w := OLoadW x\<rparr>)"
| spsc_producer: "spsc_step ov N s (producer_move N s)"
| spsc_consumer: "spsc_step ov N s (consumer_move N s)"

definition spsc_init :: "'a \<Rightarrow> 'a spsc" where
  "spsc_init zero = \<lparr>sp_ring = \<lparr>sr_write_idx = 0, sr_read_idx = 0, sr_constructed = True, sr_slots = (\<lambda>_. zero)\<rparr>,
     sp_w = WIdle, sp_r = RIdle, sp_in = [], sp_out = []\<rparr>"

text \<open>
  \<open>W\<close> and \<open>R\<close> are the committed and the consumed counts; between its store and
  its commit the producer has put one item more.
\<close>

definition spsc_ok :: "nat \<Rightarrow> 'a spsc \<Rightarrow> bool" where
  "spsc_ok k s \<longleftrightarrow>
     (let W = unat (sr_write_idx (sp_ring s)); R = unat (sr_read_idx (sp_ring s)); f = sr_slots (sp_ring s) in
      sp_out s = take R (sp_in s) \<and> R \<le> W
    \<and> length (sp_in s) = W + (if sp_w s = WCommit then 1 else 0)
    \<and> length (sp_in s) \<le> R + 2 ^ k
    \<and> (\<forall>p. R \<le> p \<and> p < length (sp_in s) \<longrightarrow> f (p mod 2 ^ k) = sp_in s ! p)
    \<and> (case sp_w s of
         WLoadR x w \<Rightarrow> w = sr_write_idx (sp_ring s)
       | WStore x w \<Rightarrow> w = sr_write_idx (sp_ring s) \<and> W < R + 2 ^ k
       | OLoadW x \<Rightarrow> False | OLoadR x w \<Rightarrow> False | OBump x w r \<Rightarrow> False | _ \<Rightarrow> True)
    \<and> (case sp_r s of
         RLoadW r \<Rightarrow> r = sr_read_idx (sp_ring s)
       | RCopy r \<Rightarrow> r = sr_read_idx (sp_ring s) \<and> R < W
       | RCommit x \<Rightarrow> R < W \<and> x = sp_in s ! R
       | _ \<Rightarrow> True))"

lemma producer_move_ok:
  assumes ok: "spsc_ok k s" and b: "length (sp_in (producer_move (2 ^ k) s)) < 2 ^ 64"
  shows "spsc_ok k (producer_move (2 ^ k) s)"
proof (cases "sp_w s")
  case (WLoadR x w)
  then show ?thesis
    using ok by (auto simp: spsc_ok_def Let_def producer_move_def producer_access_def unat_diff
        split: rpc.splits)
next
  case (WStore x w)
  let ?W = "unat (sr_write_idx (sp_ring s))" and ?R = "unat (sr_read_idx (sp_ring s))"
  have W: "length (sp_in s) = ?W" "?W < ?R + 2 ^ k" "w = sr_write_idx (sp_ring s)" "?R \<le> ?W"
    using ok WStore by (auto simp: spsc_ok_def Let_def)
  have "((sr_slots (sp_ring s))(?W mod 2 ^ k := x)) (p mod 2 ^ k) = (sp_in s @ [x]) ! p"
    if "?R \<le> p" "p < Suc ?W" for p
  proof (cases "p = ?W")
    case False
    then have "p mod 2 ^ k \<noteq> ?W mod 2 ^ k" using mod_window [of p "2 ^ k" ?W] that W by auto
    then show ?thesis using False that ok W by (auto simp: spsc_ok_def Let_def nth_append)
  qed (simp add: W nth_append)
  then show ?thesis
    using ok WStore W by (auto simp: spsc_ok_def Let_def producer_move_def producer_access_def slot_of_mod
        nth_append split: rpc.splits)
next
  case WCommit
  have "unat (sr_write_idx (sp_ring s)) < 2 ^ 64 - 1"
    using ok b WCommit by (auto simp: spsc_ok_def Let_def producer_move_def producer_access_def)
  then show ?thesis
    using ok WCommit
    by (auto simp: spsc_ok_def Let_def producer_move_def producer_access_def write_commit_def unat_succ
        split: rpc.splits)
qed (use ok in \<open>auto simp: spsc_ok_def Let_def producer_move_def producer_access_def split: rpc.splits\<close>)

lemma consumer_move_ok:
  assumes ok: "spsc_ok k s"
  shows "spsc_ok k (consumer_move (2 ^ k) s)"
proof (cases "sp_r s")
  case (RLoadW r)
  then show ?thesis
    using ok by (auto simp: spsc_ok_def Let_def consumer_move_def consumer_access_def word_le_nat_alt split: wpc.splits)
next
  case (RCopy r)
  then show ?thesis
    using ok by (auto simp: spsc_ok_def Let_def consumer_move_def consumer_access_def slot_of_mod split: wpc.splits)
next
  case (RCommit x)
  let ?W = "unat (sr_write_idx (sp_ring s))" and ?R = "unat (sr_read_idx (sp_ring s))"
  have R: "?R < ?W" "x = sp_in s ! ?R" "?W \<le> length (sp_in s)" "sp_out s = take ?R (sp_in s)"
    using ok RCommit by (auto simp: spsc_ok_def Let_def)
  have "?W < 2 ^ 64" using unsigned_less [of "sr_write_idx (sp_ring s)", where ?'a = nat] by simp
  then have r: "unat (sr_read_idx (sp_ring s) + 1) = Suc ?R" using R(1) by (simp add: unat_succ)
  have "take (Suc ?R) (sp_in s) = sp_out s @ [x]" using R by (simp add: take_Suc_conv_app_nth)
  then show ?thesis
    using ok RCommit R r
    by (auto simp: spsc_ok_def Let_def consumer_move_def consumer_access_def read_commit_def split: wpc.splits)
qed (use ok in \<open>auto simp: spsc_ok_def Let_def consumer_move_def consumer_access_def split: wpc.splits\<close>)

definition spsc_inv :: "nat \<Rightarrow> 'a spsc \<Rightarrow> bool" where
  "spsc_inv k s \<longleftrightarrow> (length (sp_in s) < 2 ^ 64 \<longrightarrow> spsc_ok k s)"

lemma spsc_in_grows: "spsc_step ov N s s' \<Longrightarrow> length (sp_in s) \<le> length (sp_in s')"
  by (erule spsc_step.cases)
     (auto simp: producer_move_def consumer_move_def split: prod.splits wpc.splits)

lemma spsc_step_inv:
  assumes inv: "spsc_inv k s" and step: "spsc_step False (2 ^ k) s s'"
  shows "spsc_inv k s'"
  unfolding spsc_inv_def
proof
  assume b: "length (sp_in s') < 2 ^ 64"
  then have ok: "spsc_ok k s" using inv spsc_in_grows [OF step] by (simp add: spsc_inv_def)
  from step b show "spsc_ok k s'"
  proof cases
    case (spsc_write x)
    then show ?thesis using ok by (auto simp: spsc_ok_def Let_def split: rpc.splits)
  qed (auto simp: ok intro: producer_move_ok consumer_move_ok)
qed

interpretation spsc: invariant_system "spsc_init zero" "spsc_step False (2 ^ k)" "spsc_inv k" for zero k
  by unfold_locales (simp add: spsc_inv_def spsc_init_def spsc_ok_def, rule spsc_step_inv)

text \<open>
  C23. The ring without locks: however the accesses of one producer calling \<open>write\<close>
  and one consumer calling \<open>read\<close> interleave, the consumer has received a prefix
  of what the producer stored, in order, every item intact and once; at most
  the capacity is outstanding.
\<close>

theorem spsc_delivers_prefix:
  assumes "rtranclp (spsc_step False (2 ^ k)) (spsc_init zero) s" "length (sp_in s) < 2 ^ 64"
  shows "sp_out s = take (length (sp_out s)) (sp_in s) \<and> length (sp_in s) \<le> length (sp_out s) + 2 ^ k"
proof -
  have "spsc_ok k s" using spsc.reachable_inv [OF assms(1)] assms(2) by (simp add: spsc_inv_def)
  then show ?thesis by (auto simp: spsc_ok_def Let_def split: if_splits)
qed

text \<open>Runs of the two, as lists of events.\<close>

datatype 'a spsc_event = Put 'a | PutOver 'a | Producer | Consumer

fun spsc_apply :: "bool \<Rightarrow> nat \<Rightarrow> 'a spsc \<Rightarrow> 'a spsc_event \<Rightarrow> 'a spsc option" where
  "spsc_apply ov N s (Put x) = (case sp_w s of WIdle \<Rightarrow> Some (s\<lparr>sp_w := WLoadW x\<rparr>) | _ \<Rightarrow> None)"
| "spsc_apply ov N s (PutOver x) =
     (if ov then (case sp_w s of WIdle \<Rightarrow> Some (s\<lparr>sp_w := OLoadW x\<rparr>) | _ \<Rightarrow> None) else None)"
| "spsc_apply ov N s Producer = Some (producer_move N s)"
| "spsc_apply ov N s Consumer = Some (consumer_move N s)"

fun spsc_run :: "bool \<Rightarrow> nat \<Rightarrow> 'a spsc \<Rightarrow> 'a spsc_event list \<Rightarrow> 'a spsc option" where
  "spsc_run ov N s [] = Some s"
| "spsc_run ov N s (e # es) = (case spsc_apply ov N s e of None \<Rightarrow> None | Some s' \<Rightarrow> spsc_run ov N s' es)"

lemma spsc_apply_step: "spsc_apply ov N s e = Some s' \<Longrightarrow> spsc_step ov N s s'"
  by (cases e) (auto split: wpc.splits if_splits intro: spsc_step.intros)

lemma spsc_run_steps: "spsc_run ov N s es = Some s' \<Longrightarrow> rtranclp (spsc_step ov N) s s'"
  by (induction es arbitrary: s)
     (auto split: option.splits intro: converse_rtranclp_into_rtranclp spsc_apply_step)

theorem spsc_delivers_prefix_witness:
  "\<exists>s :: nat spsc. rtranclp (spsc_step False (2 ^ 1)) (spsc_init 0) s \<and> sp_in s = [7, 8, 9] \<and> sp_out s = [7, 8]
     \<and> (sp_out s = take (length (sp_out s)) (sp_in s) \<and> length (sp_in s) \<le> length (sp_out s) + 2 ^ 1)"
proof -
  let ?p = "replicate 4 Producer" and ?c = "replicate 4 Consumer"
  let ?run = "spsc_run False (2 ^ 1) (spsc_init 0)
    (Put 7 # ?p @ Put 8 # ?p @ Put 5 # ?p @ ?c @ Put 9 # ?p @ ?c) :: nat spsc option"
  have "case ?run of None \<Rightarrow> False | Some s \<Rightarrow> sp_in s = [7, 8, 9] \<and> sp_out s = [7, 8]"
    by code_simp
  then obtain s where s: "?run = Some s" "sp_in s = [7, 8, 9]" "sp_out s = [7, 8]"
    by (auto split: option.splits)
  show ?thesis
    using spsc_delivers_prefix [OF spsc_run_steps [OF s(1)]] spsc_run_steps [OF s(1)] s(2,3)
    by (intro exI [of _ s]) simp
qed

text \<open>
  \<open>write_overwrite\<close> against a reader in the middle of \<open>read\<close>: the producer moves the
  read index on itself and reuses the slot the reader is about to copy, and the
  reader's commit then moves the index once more. In a ring of two that held
  items 1 and 2, the reader returns the overwriting item 3 twice and never
  returns item 2, which nothing overwrote.
\<close>

theorem overwrite_race_skips:
  "\<exists>s :: nat spsc. rtranclp (spsc_step True 2) (spsc_init 0) s
     \<and> sp_w s = WIdle \<and> sp_in s = [1, 2, 3] \<and> sp_out s = [3, 3] \<and> is_empty (sp_ring s)"
proof -
  let ?p = "replicate 4 Producer" and ?c = "replicate 4 Consumer"
  let ?run = "spsc_run True 2 (spsc_init 0)
    (Put 1 # ?p @ Put 2 # ?p @ [Consumer, Consumer, PutOver 3] @ ?p @ [Consumer, Consumer, Producer] @ ?c)
     :: nat spsc option"
  have "case ?run of None \<Rightarrow> False | Some s \<Rightarrow> (case sp_w s of WIdle \<Rightarrow> True | _ \<Rightarrow> False)
      \<and> sp_in s = [1, 2, 3] \<and> sp_out s = [3, 3] \<and> is_empty (sp_ring s)"
    by code_simp
  then obtain s where s: "?run = Some s" "sp_w s = WIdle" "sp_in s = [1, 2, 3]" "sp_out s = [3, 3]"
    "is_empty (sp_ring s)"
    by (auto split: option.splits wpc.splits)
  show ?thesis using spsc_run_steps [OF s(1)] s(2-) by (intro exI [of _ s] conjI)
qed

end
