(* ===== verification/Codec.thy ===== *)
theory Codec
  imports Abi
begin

text \<open>
  Message buffers and the typed codecs on top of them: \<open>buffer.rs\<close>,
  \<open>proto/codec.rs\<close>, the Protocol Buffers and Cap'n Proto adapters
  (\<open>proto/codecs/protobuf.rs\<close>, \<open>capnp.rs\<close>) and the FlatBuffers message and builder
  (\<open>proto/message.rs\<close>, \<open>proto/codecs/flatbuffers.rs\<close>). The wire formats themselves
  are libraries: a message type's \<open>encode\<close> and \<open>decode\<close>, the FlatBuffers builder
  and its verifier are parameters.
\<close>

section \<open>Buffers\<close>

record ipc_buffer =
  ib_data :: "u8 list"

definition buf_new :: ipc_buffer where "buf_new = \<lparr>ib_data = []\<rparr>"
definition buf_from_slice :: "u8 list \<Rightarrow> ipc_buffer" where "buf_from_slice d = \<lparr>ib_data = d\<rparr>"
definition buf_from_vec :: "u8 list \<Rightarrow> ipc_buffer" where "buf_from_vec d = \<lparr>ib_data = d\<rparr>"

text \<open>A string is sent with a terminating zero byte.\<close>

definition buf_from_str :: "string \<Rightarrow> ipc_buffer" where
  "buf_from_str s = \<lparr>ib_data = map of_char s @ [0]\<rparr>"

definition buf_is_empty :: "ipc_buffer \<Rightarrow> bool" where "buf_is_empty b \<longleftrightarrow> ib_data b = []"
definition buf_len :: "ipc_buffer \<Rightarrow> nat" where "buf_len b = length (ib_data b)"
definition buf_into_vec :: "ipc_buffer \<Rightarrow> u8 list" where "buf_into_vec b = ib_data b"
definition buf_swap :: "ipc_buffer \<Rightarrow> ipc_buffer \<Rightarrow> ipc_buffer \<times> ipc_buffer" where
  "buf_swap a b = (a\<lparr>ib_data := ib_data b\<rparr>, b\<lparr>ib_data := ib_data a\<rparr>)"

lemmas buf_defs = buf_new_def buf_from_slice_def buf_from_vec_def buf_from_str_def buf_is_empty_def
  buf_len_def buf_into_vec_def buf_swap_def

lemma buf_simps [simp]:
  "ib_data buf_new = []" "ib_data (buf_from_slice d) = d" "ib_data (buf_from_vec d) = d"
  "buf_into_vec (buf_from_vec d) = d" "buf_is_empty (buf_from_vec d) \<longleftrightarrow> d = []" "buf_is_empty buf_new"
  "buf_len (buf_from_str s) = Suc (length s)" "\<not> buf_is_empty (buf_from_str s)"
  "buf_swap a b = (b, a)"
  by (simp_all add: buf_defs)

section \<open>The codec contract\<close>

datatype codec_kind = FlatBuffers | Protobuf | Capnp

fun codec_id :: "codec_kind \<Rightarrow> u8" where
  "codec_id FlatBuffers = 1"
| "codec_id Protobuf = 2"
| "codec_id Capnp = 3"

lemma codec_id_inject: "codec_id a = codec_id b \<longleftrightarrow> a = b"
  by (cases a; cases b) simp_all

record ('b, 'm) codec =
  cd_kind :: codec_kind
  cd_encode :: "'b \<Rightarrow> u8 list"
  cd_decode :: "ipc_buffer \<Rightarrow> 'm"
  cd_verify :: "'m \<Rightarrow> bool"

text \<open>\<open>ProtobufWireMessage\<close> and \<open>CapnpWireMessage\<close>: what a message type brings along.\<close>

record 't wire =
  wm_encode :: "'t \<Rightarrow> u8 list"
  wm_decode :: "u8 list \<Rightarrow> 't option"

section \<open>Protocol Buffers\<close>

record protobuf_builder =
  pb_bytes :: "u8 list"

definition pb_from_bytes :: "u8 list \<Rightarrow> protobuf_builder" where "pb_from_bytes bs = \<lparr>pb_bytes = bs\<rparr>"
definition pb_default :: protobuf_builder where "pb_default = pb_from_bytes []"
definition pb_from_message :: "'t wire \<Rightarrow> 't \<Rightarrow> protobuf_builder" where
  "pb_from_message w m = pb_from_bytes (wm_encode w m)"

record 't protobuf_message =
  pm_buffer :: ipc_buffer
  pm_value :: "'t option"

definition pm_new :: "ipc_buffer \<Rightarrow> 't option \<Rightarrow> 't protobuf_message" where
  "pm_new b v = \<lparr>pm_buffer = b, pm_value = v\<rparr>"
definition pm_empty :: "'t protobuf_message" where "pm_empty = pm_new buf_new None"
definition pm_is_empty :: "'t protobuf_message \<Rightarrow> bool" where "pm_is_empty m \<longleftrightarrow> buf_is_empty (pm_buffer m)"
definition pm_is_valid :: "'t protobuf_message \<Rightarrow> bool" where "pm_is_valid m \<longleftrightarrow> pm_value m \<noteq> None"
definition pm_size :: "'t protobuf_message \<Rightarrow> nat" where "pm_size m = buf_len (pm_buffer m)"
definition pm_root :: "'t protobuf_message \<Rightarrow> 't option" where "pm_root m = pm_value m"

definition protobuf_codec :: "'t wire \<Rightarrow> (protobuf_builder, 't protobuf_message) codec" where
  "protobuf_codec w =
     \<lparr>cd_kind = Protobuf, cd_encode = pb_bytes,
      cd_decode = (\<lambda>buf. pm_new buf (wm_decode w (ib_data buf))), cd_verify = pm_is_valid\<rparr>"

section \<open>Cap'n Proto\<close>

record capnp_builder =
  cb_bytes :: "u8 list"

definition cb_from_bytes :: "u8 list \<Rightarrow> capnp_builder" where "cb_from_bytes bs = \<lparr>cb_bytes = bs\<rparr>"
definition cb_default :: capnp_builder where "cb_default = cb_from_bytes []"
definition cb_from_message :: "'t wire \<Rightarrow> 't \<Rightarrow> capnp_builder" where
  "cb_from_message w m = cb_from_bytes (wm_encode w m)"

record 't capnp_message =
  cm_buffer :: ipc_buffer
  cm_value :: "'t option"

definition cm_new :: "ipc_buffer \<Rightarrow> 't option \<Rightarrow> 't capnp_message" where
  "cm_new b v = \<lparr>cm_buffer = b, cm_value = v\<rparr>"
definition cm_empty :: "'t capnp_message" where "cm_empty = cm_new buf_new None"
definition cm_is_empty :: "'t capnp_message \<Rightarrow> bool" where "cm_is_empty m \<longleftrightarrow> buf_is_empty (cm_buffer m)"
definition cm_is_valid :: "'t capnp_message \<Rightarrow> bool" where "cm_is_valid m \<longleftrightarrow> cm_value m \<noteq> None"
definition cm_size :: "'t capnp_message \<Rightarrow> nat" where "cm_size m = buf_len (cm_buffer m)"
definition cm_root :: "'t capnp_message \<Rightarrow> 't option" where "cm_root m = cm_value m"

definition capnp_codec :: "'t wire \<Rightarrow> (capnp_builder, 't capnp_message) codec" where
  "capnp_codec w =
     \<lparr>cd_kind = Capnp, cd_encode = cb_bytes,
      cd_decode = (\<lambda>buf. cm_new buf (wm_decode w (ib_data buf))), cd_verify = cm_is_valid\<rparr>"

section \<open>FlatBuffers\<close>

text \<open>The library: builder state \<open>'f\<close>, root offsets \<open>'o\<close>, roots \<open>'t\<close>.\<close>

record ('f, 'o, 't) flatbuffers =
  fl_with_capacity :: "nat \<Rightarrow> 'f"
  fl_finish :: "'o \<Rightarrow> string option \<Rightarrow> 'f \<Rightarrow> 'f"
  fl_finished_data :: "'f \<Rightarrow> u8 list"
  fl_reset :: "'f \<Rightarrow> 'f"
  fl_run_verifier :: "u8 list \<Rightarrow> bool"
  fl_root :: "u8 list \<Rightarrow> 't option"

record fb_message =
  fm_buf :: ipc_buffer

definition fm_new :: "ipc_buffer \<Rightarrow> fb_message" where "fm_new b = \<lparr>fm_buf = b\<rparr>"
definition fm_empty :: fb_message where "fm_empty = fm_new buf_new"
definition fm_is_empty :: "fb_message \<Rightarrow> bool" where "fm_is_empty m \<longleftrightarrow> buf_is_empty (fm_buf m)"
definition fm_size :: "fb_message \<Rightarrow> nat" where "fm_size m = buf_len (fm_buf m)"

definition fm_verify :: "('f, 'o, 't) flatbuffers \<Rightarrow> fb_message \<Rightarrow> bool" where
  "fm_verify l m \<longleftrightarrow> (if buf_is_empty (fm_buf m) then False else fl_run_verifier l (ib_data (fm_buf m)))"

definition fm_root :: "('f, 'o, 't) flatbuffers \<Rightarrow> fb_message \<Rightarrow> 't option" where
  "fm_root l m = (if buf_is_empty (fm_buf m) then None else fl_root l (ib_data (fm_buf m)))"

record 'f fb_builder =
  fb_fbb :: 'f
  fb_finished :: bool

definition fb_new :: "('f, 'o, 't) flatbuffers \<Rightarrow> nat \<Rightarrow> 'f fb_builder" where
  "fb_new l n = \<lparr>fb_fbb = fl_with_capacity l n, fb_finished = False\<rparr>"

definition fb_finish :: "('f, 'o, 't) flatbuffers \<Rightarrow> 'o \<Rightarrow> 'f fb_builder \<Rightarrow> 'f fb_builder" where
  "fb_finish l root b = b\<lparr>fb_fbb := fl_finish l root None (fb_fbb b), fb_finished := True\<rparr>"

definition fb_finish_with_id :: "('f, 'o, 't) flatbuffers \<Rightarrow> 'o \<Rightarrow> string \<Rightarrow> 'f fb_builder \<Rightarrow> 'f fb_builder" where
  "fb_finish_with_id l root file_id b = b\<lparr>fb_fbb := fl_finish l root (Some file_id) (fb_fbb b), fb_finished := True\<rparr>"

definition fb_data :: "('f, 'o, 't) flatbuffers \<Rightarrow> 'f fb_builder \<Rightarrow> u8 list" where
  "fb_data l b = (if \<not> fb_finished b then [] else fl_finished_data l (fb_fbb b))"

definition fb_size :: "('f, 'o, 't) flatbuffers \<Rightarrow> 'f fb_builder \<Rightarrow> nat" where
  "fb_size l b = length (fb_data l b)"

definition fb_clear :: "('f, 'o, 't) flatbuffers \<Rightarrow> 'f fb_builder \<Rightarrow> 'f fb_builder" where
  "fb_clear l b = b\<lparr>fb_fbb := fl_reset l (fb_fbb b), fb_finished := False\<rparr>"

definition flatbuffers_codec :: "('f, 'o, 't) flatbuffers \<Rightarrow> ('f fb_builder, fb_message) codec" where
  "flatbuffers_codec l =
     \<lparr>cd_kind = FlatBuffers, cd_encode = fb_data l, cd_decode = fm_new, cd_verify = (\<lambda>_. True)\<rparr>"

text \<open>An unfinished or cleared builder sends nothing; an empty message has no root and does not verify.\<close>

lemma fb_data_unfinished:
  "fb_data l (fb_new l n) = []" "fb_data l (fb_clear l b) = []"
  "fm_root l fm_empty = None" "\<not> fm_verify l fm_empty"
  by (simp_all add: fb_data_def fb_new_def fb_clear_def fm_root_def fm_verify_def fm_empty_def fm_new_def)

text \<open>What the typed wrappers deliver for an encoded message, given the wire format's own round trip.\<close>

lemma typed_round_trip:
  assumes "wm_decode w (wm_encode w m) = Some m"
  shows "pm_root (cd_decode (protobuf_codec w)
           (buf_from_vec (cd_encode (protobuf_codec w) (pb_from_message w m)))) = Some m"
    and "cm_root (cd_decode (capnp_codec w)
           (buf_from_vec (cd_encode (capnp_codec w) (cb_from_message w m)))) = Some m"
  using assms
  by (simp_all add: protobuf_codec_def capnp_codec_def pb_from_message_def pb_from_bytes_def cb_from_message_def
      cb_from_bytes_def pm_root_def pm_new_def cm_root_def cm_new_def)

end
