(* ===== verification/Secure_Codec.thy ===== *)
theory Secure_Codec
  imports Codec "HOL-Library.Monad_Syntax"
begin

text \<open>
  The secure envelope and its codec (\<open>proto/codecs/secure_codec.rs\<close>), the OpenSSL
  cipher adapter (\<open>secure_openssl_evp_cipher.rs\<close>) and the C functions it calls
  (\<open>secure-crypto-c/src/secure_crypto_c.c\<close>). \<open>malloc\<close> and the EVP calls of OpenSSL
  are parameters.
\<close>

section \<open>The envelope\<close>

record secure_view =
  sv_algorithm_id :: u16
  sv_key_id :: u32
  sv_nonce :: "u8 list"
  sv_ciphertext :: "u8 list"
  sv_tag :: "u8 list"

definition append_u16_le :: "u8 list \<Rightarrow> u16 \<Rightarrow> u8 list" where
  "append_u16_le out v = out @ [ucast (v AND 0x00FF), ucast (drop_bit 8 v AND 0x00FF)]"

definition append_u32_le :: "u8 list \<Rightarrow> u32 \<Rightarrow> u8 list" where
  "append_u32_le out v = out @ [ucast (v AND 0x000000FF), ucast (drop_bit 8 v AND 0x000000FF),
     ucast (drop_bit 16 v AND 0x000000FF), ucast (drop_bit 24 v AND 0x000000FF)]"

definition read_u16_le :: "u8 list \<Rightarrow> nat \<Rightarrow> u16 option" where
  "read_u16_le d off =
     (if length d < off then None
      else if length d - off < 2 then None
      else Some (ucast (d ! off) OR push_bit 8 (ucast (d ! (off + 1)))))"

definition read_u32_le :: "u8 list \<Rightarrow> nat \<Rightarrow> u32 option" where
  "read_u32_le d off =
     (if length d < off then None
      else if length d - off < 4 then None
      else Some (ucast (d ! off) OR push_bit 8 (ucast (d ! (off + 1)))
             OR push_bit 16 (ucast (d ! (off + 2))) OR push_bit 24 (ucast (d ! (off + 3)))))"

text \<open>\<open>usize::checked_add\<close> and \<open>checked_sub\<close> on a 64-bit target.\<close>

definition checked_add :: "nat \<Rightarrow> nat \<Rightarrow> nat option" where
  "checked_add a b = (if a + b < 2 ^ 64 then Some (a + b) else None)"

definition checked_sub :: "nat \<Rightarrow> nat \<Rightarrow> nat option" where
  "checked_sub a b = (if b \<le> a then Some (a - b) else None)"

definition SECURE_ENVELOPE_MAGIC :: "u8 list" where
  "SECURE_ENVELOPE_MAGIC = map of_char sipc_magic"

definition build_secure_envelope ::
  "u16 \<Rightarrow> u32 \<Rightarrow> u8 list \<Rightarrow> u8 list \<Rightarrow> u8 list \<Rightarrow> u8 list option" where
  "build_secure_envelope algorithm_id key_id nonce ciphertext tag =
     (if 65535 < length nonce then None
      else if 65535 < length tag then None
      else if 4294967295 < length ciphertext then None
      else do {
        s \<leftarrow> checked_add (length nonce) (length ciphertext);
        payload_size \<leftarrow> checked_add s (length tag);
        total_size \<leftarrow> checked_add sipc_header_size payload_size;
        let out = SECURE_ENVELOPE_MAGIC @ [sipc_version];
        let out = append_u16_le out algorithm_id;
        let out = append_u32_le out key_id;
        let out = append_u16_le out (of_nat (length nonce));
        let out = append_u16_le out (of_nat (length tag));
        let out = append_u32_le out (of_nat (length ciphertext));
        Some (out @ nonce @ ciphertext @ tag)
      })"

definition parse_secure_envelope :: "u8 list \<Rightarrow> secure_view option" where
  "parse_secure_envelope d =
     (if length d < sipc_header_size then None
      else if take (length SECURE_ENVELOPE_MAGIC) d \<noteq> SECURE_ENVELOPE_MAGIC then None
      else if d ! sipc_header_version_off \<noteq> sipc_version then None
      else do {
        algorithm_id \<leftarrow> read_u16_le d sipc_header_alg_id_off;
        key_id \<leftarrow> read_u32_le d sipc_header_key_id_off;
        ns \<leftarrow> read_u16_le d sipc_header_nonce_size_off;
        ts \<leftarrow> read_u16_le d sipc_header_tag_size_off;
        cs \<leftarrow> read_u32_le d sipc_header_ct_size_off;
        let nonce_size = unat ns;
        let tag_size = unat ts;
        let ciphertext_size = unat cs;
        s \<leftarrow> checked_add nonce_size ciphertext_size;
        payload_size \<leftarrow> checked_add s tag_size;
        actual_payload_size \<leftarrow> checked_sub (length d) sipc_header_size;
        if payload_size \<noteq> actual_payload_size then None
        else do {
          let payload = drop sipc_header_size d;
          let nonce_end = nonce_size;
          ciphertext_end \<leftarrow> checked_add nonce_end ciphertext_size;
          tag_end \<leftarrow> checked_add ciphertext_end tag_size;
          if tag_end \<noteq> length payload then None
          else Some \<lparr>sv_algorithm_id = algorithm_id, sv_key_id = key_id,
                     sv_nonce = take nonce_end payload,
                     sv_ciphertext = take (ciphertext_end - nonce_end) (drop nonce_end payload),
                     sv_tag = take (tag_end - ciphertext_end) (drop ciphertext_end payload)\<rparr>
        }
      })"

definition build_view :: "secure_view \<Rightarrow> u8 list option" where
  "build_view v = build_secure_envelope (sv_algorithm_id v) (sv_key_id v) (sv_nonce v) (sv_ciphertext v) (sv_tag v)"

text \<open>A little-endian field and its bytes determine each other.\<close>

definition of_bytes2 :: "u8 \<Rightarrow> u8 \<Rightarrow> u16" where
  "of_bytes2 a b = ucast a OR push_bit 8 (ucast b)"

definition of_bytes4 :: "u8 \<Rightarrow> u8 \<Rightarrow> u8 \<Rightarrow> u8 \<Rightarrow> u32" where
  "of_bytes4 a b c d = ucast a OR push_bit 8 (ucast b) OR push_bit 16 (ucast c) OR push_bit 24 (ucast d)"

lemma ucast_low_byte:
  "(ucast (x AND 0xFF :: u16) :: u8) = ucast x" "(ucast (y AND 0xFF :: u32) :: u8) = ucast y"
proof -
  have m: "(0xFF :: u16) = mask 8" "(0xFF :: u32) = mask 8" by (simp_all add: mask_eq_exp_minus_1)
  show "(ucast (x AND 0xFF :: u16) :: u8) = ucast x" "(ucast (y AND 0xFF :: u32) :: u8) = ucast y"
    unfolding m by (rule bit_word_eqI; simp add: bit_simps)+
qed

lemma u16_bytes:
  "of_bytes2 (ucast v) (ucast (drop_bit 8 v)) = v"
  "(ucast (of_bytes2 a b) :: u8) = a" "(ucast (drop_bit 8 (of_bytes2 a b)) :: u8) = b"
  unfolding of_bytes2_def by (rule bit_word_eqI; auto simp: bit_simps not_less dest: bit_imp_le_length)+

lemma u32_bytes:
  "of_bytes4 (ucast v) (ucast (drop_bit 8 v)) (ucast (drop_bit 16 v)) (ucast (drop_bit 24 v)) = v"
  "(ucast (of_bytes4 a b c d) :: u8) = a"
  "(ucast (drop_bit 8 (of_bytes4 a b c d)) :: u8) = b"
  "(ucast (drop_bit 16 (of_bytes4 a b c d)) :: u8) = c"
  "(ucast (drop_bit 24 (of_bytes4 a b c d)) :: u8) = d"
proof -
  show "of_bytes4 (ucast v) (ucast (drop_bit 8 v)) (ucast (drop_bit 16 v)) (ucast (drop_bit 24 v)) = v"
    using of_le_bytes32_le_bytes32 [of v] by (simp add: of_bytes4_def of_le_bytes32_def le_bytes32_def)
  have big: "\<not> bit (x :: u8) (8 + n)" "\<not> bit x (16 + n)" "\<not> bit x (24 + n)" for x n
    using bit_imp_le_length [of x] by fastforce+
  show "(ucast (of_bytes4 a b c d) :: u8) = a" "(ucast (drop_bit 8 (of_bytes4 a b c d)) :: u8) = b"
    "(ucast (drop_bit 16 (of_bytes4 a b c d)) :: u8) = c" "(ucast (drop_bit 24 (of_bytes4 a b c d)) :: u8) = d"
    unfolding of_bytes4_def by (rule bit_word_eqI; simp add: bit_simps big)+
qed

lemma build_secure_envelope_eq:
  "build_secure_envelope a k nonce ct tag =
     (if length nonce < 65536 \<and> length tag < 65536 \<and> length ct < 4294967296
      then Some ([0x53, 0x49, 0x50, 0x43, 1, ucast a, ucast (drop_bit 8 a),
        ucast k, ucast (drop_bit 8 k), ucast (drop_bit 16 k), ucast (drop_bit 24 k),
        ucast (of_nat (length nonce) :: u16), ucast (drop_bit 8 (of_nat (length nonce) :: u16)),
        ucast (of_nat (length tag) :: u16), ucast (drop_bit 8 (of_nat (length tag) :: u16)),
        ucast (of_nat (length ct) :: u32), ucast (drop_bit 8 (of_nat (length ct) :: u32)),
        ucast (drop_bit 16 (of_nat (length ct) :: u32)), ucast (drop_bit 24 (of_nat (length ct) :: u32))]
        @ nonce @ ct @ tag)
      else None)"
proof -
  have magic: "SECURE_ENVELOPE_MAGIC = [0x53, 0x49, 0x50, 0x43]"
    by (simp add: SECURE_ENVELOPE_MAGIC_def sipc_magic_def of_char_def)
  show ?thesis
    by (auto simp: build_secure_envelope_def magic append_u16_le_def append_u32_le_def checked_add_def
        sipc_layout ucast_low_byte Let_def)
qed

lemma parse_secure_envelope_eq:
  assumes d: "d = [m0, m1, m2, m3, ver, a0, a1, k0, k1, k2, k3, n0, n1, t0, t1, c0, c1, c2, c3] @ rest"
    and n: "n = unat (of_bytes2 n0 n1)" and t: "t = unat (of_bytes2 t0 t1)" and c: "c = unat (of_bytes4 c0 c1 c2 c3)"
  shows "parse_secure_envelope d =
    (if [m0, m1, m2, m3] = [0x53, 0x49, 0x50, 0x43] \<and> ver = 1 \<and> length rest = n + c + t
     then Some \<lparr>sv_algorithm_id = of_bytes2 a0 a1, sv_key_id = of_bytes4 k0 k1 k2 k3,
        sv_nonce = take n rest, sv_ciphertext = take c (drop n rest), sv_tag = drop (n + c) rest\<rparr>
     else None)"
proof -
  have magic: "SECURE_ENVELOPE_MAGIC = [0x53, 0x49, 0x50, 0x43]"
    by (simp add: SECURE_ENVELOPE_MAGIC_def sipc_magic_def of_char_def)
  have "n < 65536" "t < 65536" "c < 4294967296"
    using unsigned_less [of "of_bytes2 n0 n1", where ?'a = nat] unsigned_less [of "of_bytes2 t0 t1", where ?'a = nat]
      unsigned_less [of "of_bytes4 c0 c1 c2 c3", where ?'a = nat]
    by (simp_all add: n t c)
  then show ?thesis
    unfolding parse_secure_envelope_def d
    by (auto simp: magic sipc_layout read_u16_le_def read_u32_le_def checked_add_def checked_sub_def Let_def
        of_bytes2_def [symmetric] of_bytes4_def [symmetric] n [symmetric] t [symmetric] c [symmetric])
qed

lemma header_split:
  assumes "19 \<le> length d"
  obtains m0 m1 m2 m3 ver a0 a1 k0 k1 k2 k3 n0 n1 t0 t1 c0 c1 c2 c3 rest where
    "d = [m0, m1, m2, m3, ver, a0, a1, k0, k1, k2, k3, n0, n1, t0, t1, c0, c1, c2, c3] @ rest"
proof -
  have l: "length (take 19 d) = 19" using assms by simp
  have "\<exists>m0 m1 m2 m3 ver a0 a1 k0 k1 k2 k3 n0 n1 t0 t1 c0 c1 c2 c3.
      xs = [m0, m1, m2, m3, ver, a0, a1, k0, k1, k2, k3, n0, n1, t0, t1, c0, c1, c2, c3]"
    if "length xs = 19" for xs :: "'a list"
    using that by (auto simp: numeral_eq_Suc length_Suc_conv)
  from this [OF l] append_take_drop_id [of 19 d] that show thesis by metis
qed

lemma unat_of_nat_16: "n < 65536 \<Longrightarrow> unat (of_nat n :: u16) = n"
  by (simp add: unsigned_of_nat take_bit_nat_eq_self)

lemma parse_build:
  assumes "build_view v = Some d"
  shows "parse_secure_envelope d = Some v"
proof -
  have len: "length (sv_nonce v) < 65536" "length (sv_tag v) < 65536" "length (sv_ciphertext v) < 4294967296"
    using assms by (auto simp: build_view_def build_secure_envelope_eq split: if_splits)
  then have u: "unat (of_nat (length (sv_nonce v)) :: u16) = length (sv_nonce v)"
    "unat (of_nat (length (sv_tag v)) :: u16) = length (sv_tag v)"
    "unat (of_nat (length (sv_ciphertext v)) :: u32) = length (sv_ciphertext v)"
    by (simp_all add: unat_of_nat_16 unat_of_nat_small)
  have d: "[0x53, 0x49, 0x50, 0x43, 1, ucast (sv_algorithm_id v), ucast (drop_bit 8 (sv_algorithm_id v)),
      ucast (sv_key_id v), ucast (drop_bit 8 (sv_key_id v)), ucast (drop_bit 16 (sv_key_id v)), ucast (drop_bit 24 (sv_key_id v)),
      ucast (of_nat (length (sv_nonce v)) :: u16), ucast (drop_bit 8 (of_nat (length (sv_nonce v)) :: u16)),
      ucast (of_nat (length (sv_tag v)) :: u16), ucast (drop_bit 8 (of_nat (length (sv_tag v)) :: u16)),
      ucast (of_nat (length (sv_ciphertext v)) :: u32), ucast (drop_bit 8 (of_nat (length (sv_ciphertext v)) :: u32)),
      ucast (drop_bit 16 (of_nat (length (sv_ciphertext v)) :: u32)),
      ucast (drop_bit 24 (of_nat (length (sv_ciphertext v)) :: u32))]
      @ sv_nonce v @ sv_ciphertext v @ sv_tag v = d"
    using assms len by (simp add: build_view_def build_secure_envelope_eq)
  show ?thesis
    unfolding parse_secure_envelope_eq [OF d [symmetric] refl refl refl]
    by (simp add: u16_bytes u32_bytes u)
qed

lemma build_parse:
  assumes "parse_secure_envelope d = Some v"
  shows "build_view v = Some d"
proof -
  have "19 \<le> length d"
    using assms by (simp add: parse_secure_envelope_def sipc_layout split: if_splits)
  then obtain m0 m1 m2 m3 ver a0 a1 k0 k1 k2 k3 n0 n1 t0 t1 c0 c1 c2 c3 rest where
    d: "d = [m0, m1, m2, m3, ver, a0, a1, k0, k1, k2, k3, n0, n1, t0, t1, c0, c1, c2, c3] @ rest"
    by (rule header_split)
  let ?n = "unat (of_bytes2 n0 n1)" and ?t = "unat (of_bytes2 t0 t1)" and ?c = "unat (of_bytes4 c0 c1 c2 c3)"
  have b: "?n < 65536" "?t < 65536" "?c < 4294967296"
    using unsigned_less [of "of_bytes2 n0 n1", where ?'a = nat] unsigned_less [of "of_bytes2 t0 t1", where ?'a = nat]
      unsigned_less [of "of_bytes4 c0 c1 c2 c3", where ?'a = nat]
    by simp_all
  have m: "[m0, m1, m2, m3] = [0x53, 0x49, 0x50, 0x43]" "ver = 1" "length rest = ?n + ?c + ?t"
    and v: "v = \<lparr>sv_algorithm_id = of_bytes2 a0 a1, sv_key_id = of_bytes4 k0 k1 k2 k3,
        sv_nonce = take ?n rest, sv_ciphertext = take ?c (drop ?n rest), sv_tag = drop (?n + ?c) rest\<rparr>"
    using assms unfolding parse_secure_envelope_eq [OF d refl refl refl] by (auto split: if_splits)
  have "take ?n rest @ take ?c (drop ?n rest) @ drop (?n + ?c) rest = rest"
    by (metis append_take_drop_id drop_drop add.commute)
  then show ?thesis
    using b m by (simp add: build_view_def v build_secure_envelope_eq d u16_bytes u32_bytes)
qed

text \<open>
  C7. The envelope format is unambiguous: a byte string parses to a view if and only
  if it is exactly what the builder makes of that view's fields. So parsing
  inverts building, no two byte strings carry the same view, and nothing but a
  built envelope (no trailing byte, no other magic, version or length) parses.
\<close>

theorem envelope_parses_iff_built:
  "parse_secure_envelope d = Some v \<longleftrightarrow> build_view v = Some d"
  by (blast intro: parse_build build_parse)

section \<open>The C crypto functions\<close>

datatype secure_status =
    StOk | StInvalidArgument | StBufferTooLarge | StCryptoError | StUnsupported | StAllocationFailed

datatype secure_algorithm = Aes256Gcm | Chacha20Poly1305

fun wire_id :: "secure_algorithm \<Rightarrow> u16" where
  "wire_id Aes256Gcm = 1"
| "wire_id Chacha20Poly1305 = 2"

text \<open>A blob is a heap address and a size; the heap maps the live allocations to their bytes.\<close>

record secure_blob =
  bl_data :: "nat option"
  bl_size :: nat

type_synonym heap = "nat \<rightharpoonup> u8 list"

datatype evp_call = EvpInit | EvpSetIvLen | EvpInitKey | EvpUpdateAad | EvpUpdate | EvpFinal | EvpGetTag | EvpSetTag

text \<open>
  The C library and OpenSSL as one call sees them: whether the crypto is compiled
  in, \<open>malloc\<close>, \<open>RAND_bytes\<close>, \<open>EVP_CIPHER_CTX_new\<close>, which EVP call succeeds, and
  the cipher itself (tag verification is the \<open>None\<close> of \<open>ev_decrypt\<close>).
\<close>

record evp =
  ev_available :: bool
  ev_malloc :: "heap \<Rightarrow> nat \<Rightarrow> nat option"
  ev_rand :: "nat \<Rightarrow> u8 list option"
  ev_ctx_new :: bool
  ev_call :: "evp_call \<Rightarrow> bool"
  ev_encrypt :: "secure_algorithm \<Rightarrow> u8 list \<Rightarrow> u8 list \<Rightarrow> u8 list \<Rightarrow> u8 list \<Rightarrow> u8 list \<times> u8 list"
  ev_decrypt :: "secure_algorithm \<Rightarrow> u8 list \<Rightarrow> u8 list \<Rightarrow> u8 list \<Rightarrow> u8 list \<Rightarrow> u8 list \<Rightarrow> u8 list option"

definition clear_blob :: secure_blob where
  "clear_blob = \<lparr>bl_data = None, bl_size = 0\<rparr>"

definition c_free_blob :: "heap \<Rightarrow> secure_blob \<Rightarrow> heap \<times> secure_blob" where
  "c_free_blob h b = ((case bl_data b of None \<Rightarrow> h | Some a \<Rightarrow> h(a := None)), clear_blob)"

definition kNonceSize :: nat where "kNonceSize = 12"
definition kTagSize :: nat where "kTagSize = 16"

definition allocate_blob :: "evp \<Rightarrow> heap \<Rightarrow> nat \<Rightarrow> heap \<times> secure_blob \<times> secure_status" where
  "allocate_blob e h n =
     (if n = 0 then (h, clear_blob, StOk)
      else case ev_malloc e h n of
        None \<Rightarrow> (h, clear_blob, StAllocationFailed)
      | Some a \<Rightarrow> (h(a \<mapsto> replicate n 0), \<lparr>bl_data = Some a, bl_size = n\<rparr>, StOk))"

definition is_supported_key_size :: "secure_algorithm \<Rightarrow> nat \<Rightarrow> bool" where
  "is_supported_key_size alg n = (case alg of Aes256Gcm \<Rightarrow> n = 32 | Chacha20Poly1305 \<Rightarrow> n = 32)"

definition fits_int :: "nat \<Rightarrow> bool" where
  "fits_int n \<longleftrightarrow> n \<le> 2147483647"

definition store_blob :: "heap \<Rightarrow> secure_blob \<Rightarrow> u8 list \<Rightarrow> heap" where
  "store_blob h b bs = (case bl_data b of None \<Rightarrow> h | Some a \<Rightarrow> h(a \<mapsto> bs))"

text \<open>The error exits free the tag, the ciphertext and the nonce.\<close>

definition free_three :: "heap \<Rightarrow> secure_blob \<Rightarrow> secure_blob \<Rightarrow> secure_blob \<Rightarrow> heap" where
  "free_three h tb cb nb = fst (c_free_blob (fst (c_free_blob (fst (c_free_blob h tb)) cb)) nb)"

type_synonym enc_result = "heap \<times> secure_status \<times> secure_blob \<times> secure_blob \<times> secure_blob"

text \<open>
  The argument checks and the chain of EVP calls, as the status with which the
  function returns. A data pointer is \<open>None\<close> for \<open>NULL\<close>.
\<close>

definition encrypt_checks ::
  "evp \<Rightarrow> secure_algorithm \<Rightarrow> u8 list option \<Rightarrow> nat \<Rightarrow> u8 list option \<Rightarrow> nat \<Rightarrow> u8 list option \<Rightarrow> nat \<Rightarrow> secure_status" where
  "encrypt_checks e alg key_data key_size plain_data plain_size aad_data aad_size =
     (if \<not> ev_available e then StUnsupported
      else if key_data = None then StInvalidArgument
      else if plain_data = None \<and> plain_size \<noteq> 0 then StInvalidArgument
      else if aad_data = None \<and> aad_size \<noteq> 0 then StInvalidArgument
      else if \<not> is_supported_key_size alg key_size then StInvalidArgument
      else if \<not> fits_int plain_size then StBufferTooLarge
      else if \<not> fits_int aad_size then StBufferTooLarge
      else StOk)"

definition encrypt_calls :: "evp \<Rightarrow> nat \<Rightarrow> nat \<Rightarrow> secure_status" where
  "encrypt_calls e aad_size plain_size =
     (if \<not> ev_ctx_new e then StAllocationFailed
      else if \<not> ev_call e EvpInit then StCryptoError
      else if \<not> ev_call e EvpSetIvLen then StCryptoError
      else if \<not> ev_call e EvpInitKey then StCryptoError
      else if aad_size \<noteq> 0 \<and> \<not> ev_call e EvpUpdateAad then StCryptoError
      else if plain_size \<noteq> 0 \<and> \<not> ev_call e EvpUpdate then StCryptoError
      else if \<not> ev_call e EvpFinal then StCryptoError
      else if \<not> ev_call e EvpGetTag then StCryptoError
      else StOk)"

definition data_of :: "u8 list option \<Rightarrow> u8 list" where
  "data_of p = (case p of None \<Rightarrow> [] | Some bs \<Rightarrow> bs)"

definition aead_encrypt ::
  "evp \<Rightarrow> secure_algorithm \<Rightarrow> u8 list option \<Rightarrow> nat \<Rightarrow> u8 list option \<Rightarrow> nat \<Rightarrow> u8 list option \<Rightarrow> nat \<Rightarrow> heap \<Rightarrow> enc_result" where
  "aead_encrypt e alg key_data key_size plain_data plain_size aad_data aad_size h =
     (let ret = (\<lambda>h st. (h, st, clear_blob, clear_blob, clear_blob));
          checks = encrypt_checks e alg key_data key_size plain_data plain_size aad_data aad_size in
      if checks \<noteq> StOk then ret h checks
      else case allocate_blob e h kNonceSize of (h, nb, st) \<Rightarrow>
        if st \<noteq> StOk then ret h StAllocationFailed
        else case allocate_blob e h plain_size of (h, cb, st) \<Rightarrow>
          if st \<noteq> StOk then ret (fst (c_free_blob h nb)) StAllocationFailed
          else case allocate_blob e h kTagSize of (h, tb, st) \<Rightarrow>
            if st \<noteq> StOk then ret (fst (c_free_blob (fst (c_free_blob h cb)) nb)) StAllocationFailed
            else case ev_rand e (bl_size nb) of
              None \<Rightarrow> ret (free_three h tb cb nb) StCryptoError
            | Some nonce \<Rightarrow>
                let h = store_blob h nb nonce; calls = encrypt_calls e aad_size plain_size in
                if calls \<noteq> StOk then ret (free_three h tb cb nb) calls
                else (case ev_encrypt e alg (data_of key_data) nonce (data_of aad_data) (data_of plain_data) of
                        (ct, tag) \<Rightarrow>
                          (store_blob (store_blob h cb ct) tb tag, StOk, nb, cb\<lparr>bl_size := length ct\<rparr>, tb)))"

definition decrypt_checks ::
  "evp \<Rightarrow> secure_algorithm \<Rightarrow> u8 list option \<Rightarrow> nat \<Rightarrow> u8 list option \<Rightarrow> nat \<Rightarrow> u8 list option \<Rightarrow> nat
   \<Rightarrow> u8 list option \<Rightarrow> nat \<Rightarrow> u8 list option \<Rightarrow> nat \<Rightarrow> secure_status" where
  "decrypt_checks e alg key_data key_size nonce_data nonce_size ct_data ct_size tag_data tag_size aad_data aad_size =
     (if \<not> ev_available e then StUnsupported
      else if key_data = None then StInvalidArgument
      else if nonce_data = None \<and> nonce_size \<noteq> 0 then StInvalidArgument
      else if ct_data = None \<and> ct_size \<noteq> 0 then StInvalidArgument
      else if tag_data = None \<and> tag_size \<noteq> 0 then StInvalidArgument
      else if aad_data = None \<and> aad_size \<noteq> 0 then StInvalidArgument
      else if \<not> is_supported_key_size alg key_size then StInvalidArgument
      else if nonce_size \<noteq> kNonceSize then StInvalidArgument
      else if tag_size \<noteq> kTagSize then StInvalidArgument
      else if \<not> fits_int ct_size then StBufferTooLarge
      else if \<not> fits_int aad_size then StBufferTooLarge
      else StOk)"

definition decrypt_calls :: "evp \<Rightarrow> nat \<Rightarrow> nat \<Rightarrow> secure_status" where
  "decrypt_calls e aad_size ct_size =
     (if \<not> ev_ctx_new e then StAllocationFailed
      else if \<not> ev_call e EvpInit then StCryptoError
      else if \<not> ev_call e EvpSetIvLen then StCryptoError
      else if \<not> ev_call e EvpInitKey then StCryptoError
      else if aad_size \<noteq> 0 \<and> \<not> ev_call e EvpUpdateAad then StCryptoError
      else if ct_size \<noteq> 0 \<and> \<not> ev_call e EvpUpdate then StCryptoError
      else if \<not> ev_call e EvpSetTag then StCryptoError
      else StOk)"

definition aead_decrypt ::
  "evp \<Rightarrow> secure_algorithm \<Rightarrow> u8 list option \<Rightarrow> nat \<Rightarrow> u8 list option \<Rightarrow> nat \<Rightarrow> u8 list option \<Rightarrow> nat
   \<Rightarrow> u8 list option \<Rightarrow> nat \<Rightarrow> u8 list option \<Rightarrow> nat \<Rightarrow> heap \<Rightarrow> heap \<times> secure_status \<times> secure_blob" where
  "aead_decrypt e alg key_data key_size nonce_data nonce_size ct_data ct_size tag_data tag_size aad_data aad_size h =
     (let ret = (\<lambda>h st. (h, st, clear_blob));
          checks = decrypt_checks e alg key_data key_size nonce_data nonce_size ct_data ct_size tag_data tag_size aad_data aad_size in
      if checks \<noteq> StOk then ret h checks
      else case allocate_blob e h ct_size of (h, pb, st) \<Rightarrow>
        if st \<noteq> StOk then ret h StAllocationFailed
        else let calls = decrypt_calls e aad_size ct_size in
          if calls \<noteq> StOk then ret (fst (c_free_blob h pb)) calls
          else (case ev_decrypt e alg (data_of key_data) (data_of nonce_data) (data_of aad_data)
                      (data_of ct_data) (data_of tag_data) of
                  None \<Rightarrow> ret (fst (c_free_blob h pb)) StCryptoError
                | Some plain \<Rightarrow> (store_blob h pb plain, StOk, pb\<lparr>bl_size := length plain\<rparr>)))"

section \<open>The OpenSSL cipher adapter\<close>

definition ptr_or_null :: "u8 list \<Rightarrow> u8 list option" where
  "ptr_or_null bs = (if bs = [] then None else Some bs)"

definition copy_and_free_blob :: "heap \<Rightarrow> secure_blob \<Rightarrow> heap \<times> u8 list" where
  "copy_and_free_blob h b =
     (if bl_data b = None \<or> bl_size b = 0 then (fst (c_free_blob h b), [])
      else (fst (c_free_blob h b), take (bl_size b) (case h (the (bl_data b)) of None \<Rightarrow> [] | Some bs \<Rightarrow> bs)))"

definition seal_with_algorithm ::
  "evp \<Rightarrow> secure_algorithm \<Rightarrow> u8 list \<Rightarrow> u8 list \<Rightarrow> heap \<Rightarrow> heap \<times> (u8 list \<times> u8 list \<times> u8 list) option" where
  "seal_with_algorithm e alg key plain h =
     (case aead_encrypt e alg (ptr_or_null key) (length key) (ptr_or_null plain) (length plain) None 0 h of
        (h, st, nb, cb, tb) \<Rightarrow>
          if st \<noteq> StOk then (free_three h tb cb nb, None)
          else let (h, nonce) = copy_and_free_blob h nb;
                   (h, ciphertext) = copy_and_free_blob h cb;
                   (h, tag) = copy_and_free_blob h tb
               in (h, Some (nonce, ciphertext, tag)))"

definition open_with_algorithm ::
  "evp \<Rightarrow> secure_algorithm \<Rightarrow> u8 list \<Rightarrow> u8 list \<Rightarrow> u8 list \<Rightarrow> u8 list \<Rightarrow> heap \<Rightarrow> heap \<times> u8 list option" where
  "open_with_algorithm e alg key nonce ciphertext tag h =
     (case aead_decrypt e alg (ptr_or_null key) (length key) (ptr_or_null nonce) (length nonce)
             (ptr_or_null ciphertext) (length ciphertext) (ptr_or_null tag) (length tag) None 0 h of
        (h, st, pb) \<Rightarrow>
          if st \<noteq> StOk then (fst (c_free_blob h pb), None)
          else let (h, plain) = copy_and_free_blob h pb in (h, Some plain))"

section \<open>The secure codec\<close>

text \<open>\<open>SecureCipher\<close>: what a cipher brings along.\<close>

record cipher =
  ci_algorithm_id :: u16
  ci_key_id :: u32
  ci_seal :: "u8 list \<Rightarrow> (u8 list \<times> u8 list \<times> u8 list) option"
  ci_open :: "u8 list \<Rightarrow> u8 list \<Rightarrow> u8 list \<Rightarrow> u8 list option"

definition openssl_cipher :: "evp \<Rightarrow> heap \<Rightarrow> secure_algorithm \<Rightarrow> u32 \<Rightarrow> u8 list \<Rightarrow> cipher" where
  "openssl_cipher e h alg key_id key =
     \<lparr>ci_algorithm_id = wire_id alg, ci_key_id = key_id,
      ci_seal = (\<lambda>plain. snd (seal_with_algorithm e alg key plain h)),
      ci_open = (\<lambda>nonce ct tag. snd (open_with_algorithm e alg key nonce ct tag h))\<rparr>"

text \<open>\<open>SecureBuilder::from_inner\<close>: the bytes of the builder, empty on every failure.\<close>

definition secure_from_inner :: "('b, 'm) codec \<Rightarrow> cipher \<Rightarrow> 'b \<Rightarrow> u8 list" where
  "secure_from_inner inner ci b =
     (let plain = cd_encode inner b in
      if plain = [] then []
      else case ci_seal ci plain of
        None \<Rightarrow> []
      | Some (nonce, ciphertext, tag) \<Rightarrow>
          (case build_secure_envelope (ci_algorithm_id ci) (ci_key_id ci) nonce ciphertext tag of
             None \<Rightarrow> []
           | Some bytes \<Rightarrow> bytes))"

definition secure_decode :: "('b, 'm) codec \<Rightarrow> cipher \<Rightarrow> ipc_buffer \<Rightarrow> 'm" where
  "secure_decode inner ci buf =
     (let fail_closed = cd_decode inner buf_new in
      if buf_is_empty buf then fail_closed
      else case parse_secure_envelope (ib_data buf) of
        None \<Rightarrow> fail_closed
      | Some envelope \<Rightarrow>
          if sv_algorithm_id envelope \<noteq> ci_algorithm_id ci then fail_closed
          else if sv_key_id envelope \<noteq> ci_key_id ci then fail_closed
          else (case ci_open ci (sv_nonce envelope) (sv_ciphertext envelope) (sv_tag envelope) of
                  None \<Rightarrow> fail_closed
                | Some plain \<Rightarrow> cd_decode inner (buf_from_vec plain)))"

definition secure_codec :: "('b, 'm) codec \<Rightarrow> cipher \<Rightarrow> (u8 list, 'm) codec" where
  "secure_codec inner ci =
     \<lparr>cd_kind = cd_kind inner, cd_encode = (\<lambda>bytes. bytes), cd_decode = secure_decode inner ci,
      cd_verify = cd_verify inner\<rparr>"

section \<open>What the secure codec guarantees\<close>

text \<open>Documented behaviour of \<open>malloc\<close>, and of an authenticated cipher with the sizes the code relies on.\<close>

definition malloc_fresh :: "evp \<Rightarrow> bool" where
  "malloc_fresh e \<longleftrightarrow> (\<forall>h n a. ev_malloc e h n = Some a \<longrightarrow> h a = None)"

definition aead_correct :: "evp \<Rightarrow> bool" where
  "aead_correct e \<longleftrightarrow>
     (\<forall>n r. ev_rand e n = Some r \<longrightarrow> length r = n)
   \<and> (\<forall>alg key nonce aad plain ct tag. ev_encrypt e alg key nonce aad plain = (ct, tag) \<longrightarrow>
        length ct = length plain \<and> length tag = kTagSize \<and> ev_decrypt e alg key nonce aad ct tag = Some plain)"

text \<open>An allocation followed by its release leaves the heap as it was.\<close>

definition blob_ok :: "heap \<Rightarrow> secure_blob \<Rightarrow> bool" where
  "blob_ok h b \<longleftrightarrow> (case bl_data b of None \<Rightarrow> True | Some a \<Rightarrow> h a = None)"

lemma allocate_blobD:
  assumes "malloc_fresh e" "allocate_blob e h n = (h', b, st)"
  shows "blob_ok h b" "fst (c_free_blob h' b) = h" "st = StOk \<Longrightarrow> bl_size b = n"
    "st = StOk \<Longrightarrow> bl_data b = None \<longleftrightarrow> n = 0" "st \<noteq> StOk \<Longrightarrow> h' = h"
    "h' = store_blob h b (replicate n 0)"
  using assms
  by (auto simp: allocate_blob_def c_free_blob_def clear_blob_def malloc_fresh_def blob_ok_def store_blob_def fun_upd_idem
      split: if_splits option.splits)

lemma store_then_free:
  "blob_ok h b \<Longrightarrow> fst (c_free_blob (store_blob h b bs) b) = h"
  "store_blob (store_blob h b bs) b bs' = store_blob h b bs'"
  by (auto simp: blob_ok_def c_free_blob_def store_blob_def fun_upd_idem split: option.splits)

lemma blob_ok_store: "blob_ok (store_blob h b bs) b' \<Longrightarrow> blob_ok h b'"
  by (auto simp: blob_ok_def store_blob_def split: option.splits if_splits)

text \<open>Three blobs, each fresh when it was allocated: what they hold can be read back, and freeing all of them restores the heap.\<close>

lemma three_blobs:
  assumes "blob_ok h nb" "blob_ok (store_blob h nb x) cb" "blob_ok (store_blob (store_blob h nb x) cb y) tb"
    and "H = store_blob (store_blob (store_blob h nb n) cb c) tb t"
  shows "free_three H tb cb nb = h"
    "fst (c_free_blob (fst (c_free_blob (fst (c_free_blob H nb)) cb)) tb) = h"
    "bl_data nb = Some a \<Longrightarrow> H a = Some n" "bl_data cb = Some a \<Longrightarrow> (fst (c_free_blob H nb)) a = Some c"
    "bl_data tb = Some a \<Longrightarrow> (fst (c_free_blob (fst (c_free_blob H nb)) cb)) a = Some t"
  using assms
  by (auto simp: free_three_def blob_ok_def store_blob_def c_free_blob_def fun_eq_iff split: option.splits if_splits)

text \<open>The blobs of a successful encryption, over the heap before the call.\<close>

definition sealed_blobs ::
  "evp \<Rightarrow> secure_algorithm \<Rightarrow> u8 list \<Rightarrow> u8 list \<Rightarrow> u8 list \<Rightarrow> nat \<Rightarrow> heap \<Rightarrow> heap \<Rightarrow> secure_blob \<Rightarrow> secure_blob \<Rightarrow> secure_blob
   \<Rightarrow> u8 list \<Rightarrow> u8 list \<Rightarrow> u8 list \<Rightarrow> bool" where
  "sealed_blobs e alg key aad plain plain_size h h' nb cb tb nonce ct tag \<longleftrightarrow>
     (\<exists>x y. blob_ok h nb \<and> blob_ok (store_blob h nb x) cb \<and> blob_ok (store_blob (store_blob h nb x) cb y) tb)
   \<and> h' = store_blob (store_blob (store_blob h nb nonce) cb ct) tb tag
   \<and> ev_rand e kNonceSize = Some nonce \<and> ev_encrypt e alg key nonce aad plain = (ct, tag)
   \<and> bl_size nb = kNonceSize \<and> bl_size tb = kTagSize \<and> bl_size cb = length ct
   \<and> (bl_data cb = None \<longleftrightarrow> plain_size = 0) \<and> bl_data nb \<noteq> None \<and> bl_data tb \<noteq> None"

lemma store_blob_size [simp]:
  "store_blob h (b\<lparr>bl_size := n\<rparr>) bs = store_blob h b bs" "blob_ok h (b\<lparr>bl_size := n\<rparr>) = blob_ok h b"
  by (simp_all add: store_blob_def blob_ok_def)

lemma aead_encrypt_result:
  assumes fresh: "malloc_fresh e"
    and enc: "aead_encrypt e alg kd ks pd ps ad as h = (h', st, nb, cb, tb)"
  shows "if st = StOk
    then \<exists>nonce ct tag. sealed_blobs e alg (data_of kd) (data_of ad) (data_of pd)
           ps h h' nb cb tb nonce ct tag
    else h' = h \<and> nb = clear_blob \<and> cb = clear_blob \<and> tb = clear_blob"
proof -
  obtain h1 n s1 where a1: "allocate_blob e h kNonceSize = (h1, n, s1)" by (cases "allocate_blob e h kNonceSize")
  obtain h2 c s2 where a2: "allocate_blob e h1 ps = (h2, c, s2)" by (cases "allocate_blob e h1 ps")
  obtain h3 t s3 where a3: "allocate_blob e h2 kTagSize = (h3, t, s3)" by (cases "allocate_blob e h2 kTagSize")
  note A1 = allocate_blobD [OF fresh a1] and A2 = allocate_blobD [OF fresh a2] and A3 = allocate_blobD [OF fresh a3]
  have ok: "blob_ok h n" "blob_ok (store_blob h n (replicate kNonceSize 0)) c"
    "blob_ok (store_blob (store_blob h n (replicate kNonceSize 0)) c (replicate ps 0)) t"
    using A1(1,6) A2(1,6) A3(1) by simp_all
  have perm: "store_blob h3 n nonce = store_blob (store_blob (store_blob h n nonce) c (replicate ps 0)) t (replicate kTagSize 0)"
    "store_blob (store_blob (store_blob h3 n nonce) c ct) t tag = store_blob (store_blob (store_blob h n nonce) c ct) t tag"
    for nonce ct tag
    using ok A1(6) A2(6) A3(6)
    by (auto simp: blob_ok_def store_blob_def fun_eq_iff split: option.splits if_splits)
  have free: "free_three h3 t c n = h" "free_three (store_blob h3 n nonce) t c n = h" for nonce
    using three_blobs(1) [OF ok, of h3] three_blobs(1) [OF ok perm(1)] A1(6) A2(6) A3(6) by simp_all
  let ?checks = "encrypt_checks e alg kd ks pd ps ad as" and ?calls = "encrypt_calls e as ps"
  consider "?checks \<noteq> StOk" | "?checks = StOk" "s1 \<noteq> StOk" | "?checks = StOk" "s1 = StOk" "s2 \<noteq> StOk"
    | "?checks = StOk" "s1 = StOk" "s2 = StOk" "s3 \<noteq> StOk" | "?checks = StOk" "s1 = StOk" "s2 = StOk" "s3 = StOk"
    by blast
  then show ?thesis
  proof cases
    case 5
    then have "bl_size n = kNonceSize" by (simp add: A1(3))
    then consider "ev_rand e (bl_size n) = None" | nonce where "ev_rand e (bl_size n) = Some nonce" "?calls \<noteq> StOk"
      | nonce ct tag where "ev_rand e kNonceSize = Some nonce" "?calls = StOk"
          "ev_encrypt e alg (data_of kd) nonce (data_of ad) (data_of pd) = (ct, tag)"
      by (metis option.exhaust surj_pair)
    then show ?thesis
    proof cases
      case (3 nonce ct tag)
      then have "h' = store_blob (store_blob (store_blob h n nonce) c ct) t tag" "st = StOk" "nb = n"
        "cb = c\<lparr>bl_size := length ct\<rparr>" "tb = t"
        using enc 5 \<open>bl_size n = kNonceSize\<close> by (auto simp: aead_encrypt_def a1 a2 a3 Let_def perm(2))
      moreover have "bl_size t = kTagSize" "bl_data n \<noteq> None" "bl_data t \<noteq> None" "bl_data c = None \<longleftrightarrow> ps = 0"
        using 5 A1(4) A2(4) A3(3,4) by (simp_all add: kNonceSize_def kTagSize_def)
      moreover have "\<exists>x y. blob_ok h n \<and> blob_ok (store_blob h n x) c \<and> blob_ok (store_blob (store_blob h n x) c y) t"
        using ok by blast
      ultimately have "sealed_blobs e alg (data_of kd) (data_of ad) (data_of pd) ps h h' nb cb tb nonce ct tag"
        using 3 \<open>bl_size n = kNonceSize\<close> by (simp add: sealed_blobs_def)
      with \<open>st = StOk\<close> show ?thesis by auto
    qed (use enc 5 free in \<open>auto simp: aead_encrypt_def a1 a2 a3 Let_def\<close>)
  qed (use enc A1(2,5) A2(2,5) A3(5) in \<open>auto simp: aead_encrypt_def a1 a2 a3 Let_def\<close>)
qed

lemma seal_result:
  assumes fresh: "malloc_fresh e" and aead: "aead_correct e"
  shows "fst (seal_with_algorithm e alg key plain h) = h"
    and "snd (seal_with_algorithm e alg key plain h) = Some (nonce, ct, tag) \<Longrightarrow>
      length nonce = kNonceSize \<and> length tag = kTagSize \<and> length ct = length plain
      \<and> ev_decrypt e alg key nonce [] ct tag = Some plain"
proof -
  obtain h' st nb cb tb where enc:
    "aead_encrypt e alg (ptr_or_null key) (length key) (ptr_or_null plain) (length plain) None 0 h = (h', st, nb, cb, tb)"
    by (cases "aead_encrypt e alg (ptr_or_null key) (length key) (ptr_or_null plain) (length plain) None 0 h")
  have d: "data_of (ptr_or_null bs) = bs" "data_of None = []" for bs by (simp_all add: data_of_def ptr_or_null_def)
  note res = aead_encrypt_result [OF fresh enc, unfolded d]
  have "fst (seal_with_algorithm e alg key plain h) = h \<and>
    (\<forall>nonce ct tag. snd (seal_with_algorithm e alg key plain h) = Some (nonce, ct, tag) \<longrightarrow>
      length nonce = kNonceSize \<and> length tag = kTagSize \<and> length ct = length plain
      \<and> ev_decrypt e alg key nonce [] ct tag = Some plain)"
  proof (cases "st = StOk")
    case True
    then obtain nn cc tt x y where sb: "blob_ok h nb" "blob_ok (store_blob h nb x) cb"
      "blob_ok (store_blob (store_blob h nb x) cb y) tb"
      "h' = store_blob (store_blob (store_blob h nb nn) cb cc) tb tt"
      and ev: "ev_rand e kNonceSize = Some nn" "ev_encrypt e alg key nn [] plain = (cc, tt)"
      and sz: "bl_size nb = kNonceSize" "bl_size tb = kTagSize" "bl_size cb = length cc"
      "bl_data cb = None \<longleftrightarrow> length plain = 0" "bl_data nb \<noteq> None" "bl_data tb \<noteq> None"
      using res by (auto simp: sealed_blobs_def)
    have len: "length nn = kNonceSize" "length cc = length plain" "length tt = kTagSize"
      "ev_decrypt e alg key nn [] cc tt = Some plain"
      using aead ev unfolding aead_correct_def by blast+
    note T = three_blobs [OF sb]
    have "copy_and_free_blob h' nb = (fst (c_free_blob h' nb), nn)"
      using T(3) sz len by (auto simp: copy_and_free_blob_def kNonceSize_def)
    moreover have "copy_and_free_blob (fst (c_free_blob h' nb)) cb = (fst (c_free_blob (fst (c_free_blob h' nb)) cb), cc)"
      using T(4) sz len by (auto simp: copy_and_free_blob_def)
    moreover have "copy_and_free_blob (fst (c_free_blob (fst (c_free_blob h' nb)) cb)) tb = (h, tt)"
      using T(2,5) sz len by (auto simp: copy_and_free_blob_def kTagSize_def)
    ultimately show ?thesis
      using True len by (simp add: seal_with_algorithm_def enc)
  next
    case False
    then show ?thesis
      using res by (simp add: seal_with_algorithm_def enc free_three_def c_free_blob_def clear_blob_def)
  qed
  then show "fst (seal_with_algorithm e alg key plain h) = h"
    "snd (seal_with_algorithm e alg key plain h) = Some (nonce, ct, tag) \<Longrightarrow>
      length nonce = kNonceSize \<and> length tag = kTagSize \<and> length ct = length plain
      \<and> ev_decrypt e alg key nonce [] ct tag = Some plain" by blast+
qed

lemma seal_checks:
  assumes "snd (seal_with_algorithm e alg key plain h) = Some r"
  shows "is_supported_key_size alg (length key)" "fits_int (length plain)" "key \<noteq> []"
proof -
  have "encrypt_checks e alg (ptr_or_null key) (length key) (ptr_or_null plain) (length plain) None 0 = StOk"
    using assms by (auto simp: seal_with_algorithm_def aead_encrypt_def Let_def split: if_splits prod.splits)
  then show "is_supported_key_size alg (length key)" "fits_int (length plain)" "key \<noteq> []"
    by (auto simp: encrypt_checks_def ptr_or_null_def split: if_splits)
qed

lemma open_result:
  assumes fresh: "malloc_fresh e"
  shows "open_with_algorithm e alg key nonce ct tag h =
    (h, if decrypt_checks e alg (ptr_or_null key) (length key) (ptr_or_null nonce) (length nonce)
             (ptr_or_null ct) (length ct) (ptr_or_null tag) (length tag) None 0 = StOk
          \<and> snd (snd (allocate_blob e h (length ct))) = StOk \<and> decrypt_calls e 0 (length ct) = StOk
        then map_option (\<lambda>p. if ct = [] then [] else p) (ev_decrypt e alg key nonce [] ct tag) else None)"
proof -
  obtain h1 b s where a: "allocate_blob e h (length ct) = (h1, b, s)" by (cases "allocate_blob e h (length ct)")
  note A = allocate_blobD [OF fresh a]
  have d: "data_of (ptr_or_null bs) = bs" "data_of None = []" for bs by (simp_all add: data_of_def ptr_or_null_def)
  let ?checks = "decrypt_checks e alg (ptr_or_null key) (length key) (ptr_or_null nonce) (length nonce)
             (ptr_or_null ct) (length ct) (ptr_or_null tag) (length tag) None 0"
  have clear: "fst (c_free_blob h clear_blob) = h" for h by (simp add: c_free_blob_def clear_blob_def)
  show ?thesis
  proof (cases "?checks = StOk \<and> s = StOk \<and> decrypt_calls e 0 (length ct) = StOk")
    case ok: True
    show ?thesis
    proof (cases "ev_decrypt e alg key nonce [] ct tag")
      case None
      then show ?thesis
        using ok A(2) by (simp add: open_with_algorithm_def aead_decrypt_def a d Let_def clear)
    next
      case (Some p)
      let ?b = "b\<lparr>bl_size := length p\<rparr>" and ?h = "store_blob h1 b p"
      have "fst (c_free_blob ?h ?b) = h"
        using A(1,6) store_then_free [of h ?b p] by (simp add: store_then_free(2))
      moreover have "copy_and_free_blob ?h ?b = (fst (c_free_blob ?h ?b), if ct = [] then [] else p)"
        using A(4) ok by (auto simp: copy_and_free_blob_def store_blob_def split: option.splits)
      ultimately show ?thesis
        using ok Some by (simp add: open_with_algorithm_def aead_decrypt_def a d Let_def)
    qed
  next
    case False
    then show ?thesis
      using A(2,5) clear by (auto simp: open_with_algorithm_def aead_decrypt_def a d Let_def)
  qed
qed

text \<open>
  No leak and no double free across the C boundary: whether an encryption or a
  decryption succeeds or fails, at whatever allocation or EVP call, when the
  adapter returns the heap is exactly what it was before: each buffer the C side
  allocated has been released, and nothing else.
\<close>

theorem crypto_releases_blobs:
  assumes "malloc_fresh e" "aead_correct e"
  shows "fst (seal_with_algorithm e alg key plain h) = h \<and> fst (open_with_algorithm e alg key nonce ct tag h) = h"
  using seal_result(1) [OF assms] open_result [OF assms(1)] by simp

text \<open>
  C6. Secure round trip: what the secure builder makes of a message with the OpenSSL
  cipher, another process with the same key, key id and algorithm decodes to
  exactly what the inner codec makes of the message's own bytes. The hypotheses
  are \<open>malloc\<close> returning fresh memory, decryption inverting encryption, and the
  receiver's allocation and EVP calls succeeding.
\<close>

theorem secure_round_trip:
  assumes "malloc_fresh e" "aead_correct e" "malloc_fresh e'" "ev_decrypt e' = ev_decrypt e"
    and "ev_available e'" "ev_malloc e' h' (length (cd_encode inner b)) \<noteq> None" "decrypt_calls e' 0 (length (cd_encode inner b)) = StOk"
    and "secure_from_inner inner (openssl_cipher e h alg kid key) b = bytes" "bytes \<noteq> []"
  shows "cd_decode (secure_codec inner (openssl_cipher e' h' alg kid key)) (buf_from_vec bytes)
    = cd_decode inner (buf_from_vec (cd_encode inner b))"
proof -
  let ?p = "cd_encode inner b"
  obtain nonce ct tag where p: "?p \<noteq> []"
    and s: "snd (seal_with_algorithm e alg key ?p h) = Some (nonce, ct, tag)"
    and env: "build_secure_envelope (wire_id alg) kid nonce ct tag = Some bytes"
    using assms(8,9)
    by (auto simp: secure_from_inner_def openssl_cipher_def Let_def split: if_splits option.splits)
  have len: "length nonce = 12" "length tag = 16" "length ct = length ?p" "ev_decrypt e alg key nonce [] ct tag = Some ?p"
    using seal_result(2) [OF assms(1,2) s] by (simp_all add: kNonceSize_def kTagSize_def)
  have "snd (snd (allocate_blob e' h' (length ct))) = StOk"
    using assms(6) len(3) by (auto simp: allocate_blob_def)
  moreover have "decrypt_checks e' alg (ptr_or_null key) (length key) (ptr_or_null nonce) (length nonce)
      (ptr_or_null ct) (length ct) (ptr_or_null tag) (length tag) None 0 = StOk"
    using assms(5) seal_checks [OF s] len by (auto simp: decrypt_checks_def ptr_or_null_def kNonceSize_def kTagSize_def fits_int_def)
  moreover have "ct \<noteq> []" using len(3) p by force
  ultimately have open': "snd (open_with_algorithm e' alg key nonce ct tag h') = Some ?p"
    using assms(4,7) len by (simp add: open_result [OF assms(3)])
  have "parse_secure_envelope bytes = Some \<lparr>sv_algorithm_id = wire_id alg, sv_key_id = kid, sv_nonce = nonce,
      sv_ciphertext = ct, sv_tag = tag\<rparr>"
    using env by (intro parse_build) (simp add: build_view_def)
  then show ?thesis
    using assms(9) open' by (simp add: secure_codec_def secure_decode_def openssl_cipher_def)
qed

text \<open>
  The secure codec fails closed: whatever bytes arrive, decoding either gives what
  the inner codec makes of an empty buffer, or the bytes are an envelope with
  the cipher's own algorithm and key id whose nonce, ciphertext and tag the
  cipher opened, and decoding gives what the inner codec makes of that plaintext.
\<close>

theorem secure_decode_fails_closed:
  "cd_decode (secure_codec inner ci) buf = cd_decode inner buf_new
   \<or> (\<exists>nonce ct tag plain.
        build_secure_envelope (ci_algorithm_id ci) (ci_key_id ci) nonce ct tag = Some (ib_data buf)
        \<and> ci_open ci nonce ct tag = Some plain
        \<and> cd_decode (secure_codec inner ci) buf = cd_decode inner (buf_from_vec plain))"
proof (cases "parse_secure_envelope (ib_data buf)")
  case (Some v)
  from build_parse [OF this] show ?thesis
    using Some
    by (auto simp: secure_codec_def secure_decode_def build_view_def Let_def split: option.splits) metis
qed (simp add: secure_codec_def secure_decode_def Let_def)

text \<open>A concrete environment: a small heap, a fixed nonce and a cipher that leaves the text as it is.\<close>

definition plain_evp :: evp where
  "plain_evp = \<lparr>ev_available = True, ev_malloc = (\<lambda>h n. find (\<lambda>a. h a = None) [0..<8]),
     ev_rand = (\<lambda>n. Some (replicate n 7)), ev_ctx_new = True, ev_call = (\<lambda>_. True),
     ev_encrypt = (\<lambda>alg key nonce aad plain. (plain, replicate kTagSize 5)),
     ev_decrypt = (\<lambda>alg key nonce aad ct tag. Some ct)\<rparr>"

lemma plain_evp_ok: "malloc_fresh plain_evp" "aead_correct plain_evp"
  by (auto simp: plain_evp_def malloc_fresh_def aead_correct_def find_Some_iff)

lemma plain_evp_seal:
  "snd (seal_with_algorithm plain_evp Aes256Gcm (replicate 32 1) [1, 2, 3] Map.empty)
     = Some (replicate 12 7, [1, 2, 3], replicate 16 5)"
  by (simp add: seal_with_algorithm_def aead_encrypt_def encrypt_checks_def encrypt_calls_def allocate_blob_def
      plain_evp_def ptr_or_null_def data_of_def is_supported_key_size_def fits_int_def store_blob_def copy_and_free_blob_def
      c_free_blob_def kNonceSize_def kTagSize_def upt_rec Let_def)

theorem crypto_releases_blobs_witness:
  "snd (seal_with_algorithm plain_evp Aes256Gcm (replicate 32 1) [1, 2, 3] Map.empty)
     = Some (replicate 12 7, [1, 2, 3], replicate 16 5)
   \<and> fst (seal_with_algorithm plain_evp Aes256Gcm (replicate 32 1) [1, 2, 3] Map.empty) = Map.empty"
  using plain_evp_seal crypto_releases_blobs [OF plain_evp_ok] by blast

definition byte_wire :: "u8 list wire" where
  "byte_wire = \<lparr>wm_encode = (\<lambda>m. m), wm_decode = Some\<rparr>"

theorem secure_round_trip_witness:
  "cd_decode (secure_codec (protobuf_codec byte_wire) (openssl_cipher plain_evp Map.empty Aes256Gcm 9 (replicate 32 1)))
     (buf_from_vec (secure_from_inner (protobuf_codec byte_wire)
        (openssl_cipher plain_evp Map.empty Aes256Gcm 9 (replicate 32 1)) (pb_from_bytes [1, 2, 3])))
   = cd_decode (protobuf_codec byte_wire) (buf_from_vec [1, 2, 3])"
proof -
  let ?ci = "openssl_cipher plain_evp Map.empty Aes256Gcm 9 (replicate 32 1)" and ?in = "protobuf_codec byte_wire"
  have enc: "cd_encode ?in (pb_from_bytes [1, 2, 3]) = [1, 2, 3]" by (simp add: protobuf_codec_def pb_from_bytes_def)
  have ne: "secure_from_inner ?in ?ci (pb_from_bytes [1, 2, 3]) \<noteq> []"
    using plain_evp_seal by (simp add: secure_from_inner_def enc openssl_cipher_def build_secure_envelope_eq)
  have env: "ev_available plain_evp" "ev_malloc plain_evp Map.empty n \<noteq> None" "decrypt_calls plain_evp 0 n = StOk" for n
    by (simp_all add: plain_evp_def decrypt_calls_def upt_rec)
  show ?thesis
    using secure_round_trip [OF plain_evp_ok plain_evp_ok(1) refl env(1), of Map.empty ?in "pb_from_bytes [1, 2, 3]"
        Map.empty Aes256Gcm 9 "replicate 32 1", OF env(2,3) refl ne] enc
    by simp
qed

end
