(* ===== verification/Service_Registry.thy ===== *)
theory Service_Registry
  imports Prelude
begin

text \<open>
  The service registry (\<open>proto/service_registry.rs\<close>): a table of 32 entries in
  shared memory, every operation under one spin lock and hence atomic. Which
  pids answer \<open>kill(pid, 0)\<close> and the clock are parameters. Strings are their
  UTF-8 bytes, as HOL strings.
\<close>

section \<open>Strings in fixed buffers\<close>

definition MAX_SERVICES :: nat where "MAX_SERVICES = 32"
definition MAX_NAME_LEN :: nat where "MAX_NAME_LEN = 64"

abbreviation NUL :: char where "NUL \<equiv> CHR 0x00"

text \<open>\<open>std::str::from_utf8\<close> succeeds.\<close>

definition in_range :: "nat \<Rightarrow> nat \<Rightarrow> char \<Rightarrow> bool" where
  "in_range lo hi c \<longleftrightarrow> lo \<le> (of_char c :: nat) \<and> (of_char c :: nat) \<le> hi"

function utf8_valid :: "string \<Rightarrow> bool" where
  "utf8_valid s =
     (case s of
        [] \<Rightarrow> True
      | a # r \<Rightarrow>
          if in_range 0 0x7F a then utf8_valid r
          else if in_range 0xC2 0xDF a then
            (case r of b # r' \<Rightarrow> in_range 0x80 0xBF b \<and> utf8_valid r' | _ \<Rightarrow> False)
          else if in_range 0xE0 0xEF a then
            (case r of b # c # r' \<Rightarrow>
               in_range (if a = CHR 0xE0 then 0xA0 else 0x80) (if a = CHR 0xED then 0x9F else 0xBF) b
               \<and> in_range 0x80 0xBF c \<and> utf8_valid r' | _ \<Rightarrow> False)
          else if in_range 0xF0 0xF4 a then
            (case r of b # c # d # r' \<Rightarrow>
               in_range (if a = CHR 0xF0 then 0x90 else 0x80) (if a = CHR 0xF4 then 0x8F else 0xBF) b
               \<and> in_range 0x80 0xBF c \<and> in_range 0x80 0xBF d \<and> utf8_valid r' | _ \<Rightarrow> False)
          else False)"
  by pat_completeness auto
termination by (relation "measure length") auto

declare utf8_valid.simps [simp del]

lemma utf8_valid_ascii: "list_all (in_range 0 0x7F) s \<Longrightarrow> utf8_valid s"
  by (induction s) (simp_all add: utf8_valid.simps)

definition copy_str :: "string \<Rightarrow> string \<Rightarrow> string" where
  "copy_str dst src =
     (let len = min (length src) (MAX_NAME_LEN - 1) in (blit 0 (take len src) dst)[len := NUL])"

text \<open>\<open>name_str\<close>, \<open>control_channel_str\<close>, \<open>reply_channel_str\<close>: up to the first zero, or empty when that is not UTF-8.\<close>

definition str_of :: "string \<Rightarrow> string" where
  "str_of buf = (let s = takeWhile (\<lambda>c. c \<noteq> NUL) buf in if utf8_valid s then s else [])"

lemma str_of_copy:
  assumes "length dst = MAX_NAME_LEN"
  shows "takeWhile (\<lambda>c. c \<noteq> NUL) (copy_str dst s) = takeWhile (\<lambda>c. c \<noteq> NUL) (take 63 s)"
proof -
  let ?len = "min (length s) 63"
  have "copy_str dst s = take 63 s @ NUL # drop (Suc ?len) dst"
  proof -
    have "blit 0 (take ?len s) dst = take ?len s @ drop ?len dst"
      using assms by (simp add: blit_def MAX_NAME_LEN_def)
    moreover have "drop ?len dst = dst ! ?len # drop (Suc ?len) dst"
      using assms by (simp add: Cons_nth_drop_Suc MAX_NAME_LEN_def)
    moreover have "take ?len s = take 63 s" by (metis min_def nat_le_linear take_all)
    ultimately show ?thesis
      unfolding copy_str_def by (simp add: MAX_NAME_LEN_def Let_def list_update_append)
  qed
  moreover have "takeWhile P (xs @ x # ys) = takeWhile P xs" if "\<not> P x" for P xs x and ys :: string
    using that by (induction xs) simp_all
  ultimately show ?thesis by simp
qed

section \<open>Entries and the table\<close>

record service_entry =
  se_name :: string
  se_control :: string
  se_reply :: string
  se_pid :: i32
  se_registered_at :: u64
  se_flags :: u32

definition entry_default :: service_entry where
  "entry_default = \<lparr>se_name = replicate MAX_NAME_LEN NUL, se_control = replicate MAX_NAME_LEN NUL,
     se_reply = replicate MAX_NAME_LEN NUL, se_pid = 0, se_registered_at = 0, se_flags = 0\<rparr>"

definition active :: "service_entry \<Rightarrow> bool" where
  "active e \<longleftrightarrow> 0 < sint (se_pid e) \<and> se_name e ! 0 \<noteq> NUL"

definition name_str :: "service_entry \<Rightarrow> string" where "name_str e = str_of (se_name e)"
definition control_channel_str :: "service_entry \<Rightarrow> string" where "control_channel_str e = str_of (se_control e)"
definition reply_channel_str :: "service_entry \<Rightarrow> string" where "reply_channel_str e = str_of (se_reply e)"

text \<open>\<open>kill(pid, 0)\<close>: success, \<open>ESRCH\<close>, or another error.\<close>

datatype kill_result = KillOk | KillESRCH | KillOther

definition is_pid_alive :: "(i32 \<Rightarrow> kill_result) \<Rightarrow> i32 \<Rightarrow> bool" where
  "is_pid_alive kill pid \<longleftrightarrow> kill pid = KillOk \<or> kill pid \<noteq> KillESRCH"

definition is_alive :: "(i32 \<Rightarrow> kill_result) \<Rightarrow> service_entry \<Rightarrow> bool" where
  "is_alive kill e \<longleftrightarrow> (if sint (se_pid e) \<le> 0 then False else is_pid_alive kill (se_pid e))"

record registry =
  rd_count :: u32
  rd_entries :: "service_entry list"

definition registry_zero :: registry where
  "registry_zero = \<lparr>rd_count = 0, rd_entries = replicate MAX_SERVICES entry_default\<rparr>"

definition registry_shm_name :: "string \<Rightarrow> string" where
  "registry_shm_name domain =
     (if domain = [] then ''__ipc_registry__default'' else ''__ipc_registry__'' @ domain)"

section \<open>Operations\<close>

definition fill_entry :: "u64 \<Rightarrow> string \<Rightarrow> string \<Rightarrow> string \<Rightarrow> i32 \<Rightarrow> service_entry" where
  "fill_entry now name ctrl reply pid =
     entry_default\<lparr>se_name := copy_str (se_name entry_default) name,
       se_control := copy_str (se_control entry_default) ctrl,
       se_reply := copy_str (se_reply entry_default) reply,
       se_pid := pid, se_registered_at := now\<rparr>"

text \<open>The first loop of \<open>register_service_as\<close>: a live duplicate refuses, a stale one is refilled.\<close>

fun register_dup ::
  "(i32 \<Rightarrow> kill_result) \<Rightarrow> string \<Rightarrow> service_entry \<Rightarrow> service_entry list \<Rightarrow> (bool \<times> service_entry list) option" where
  "register_dup kill name fresh [] = None"
| "register_dup kill name fresh (e # es) =
     (if active e \<and> name_str e = name then (if is_alive kill e then Some (False, e # es) else Some (True, fresh # es))
      else map_option (\<lambda>(b, es'). (b, e # es')) (register_dup kill name fresh es))"

text \<open>The second loop: the first slot that is empty or whose owner is dead.\<close>

fun register_empty ::
  "(i32 \<Rightarrow> kill_result) \<Rightarrow> service_entry \<Rightarrow> service_entry list \<Rightarrow> service_entry list option" where
  "register_empty kill fresh [] = None"
| "register_empty kill fresh (e # es) =
     (if \<not> active e \<or> \<not> is_alive kill e then Some (fresh # es)
      else map_option (\<lambda>es'. e # es') (register_empty kill fresh es))"

definition register_service_as ::
  "(i32 \<Rightarrow> kill_result) \<Rightarrow> u64 \<Rightarrow> string \<Rightarrow> string \<Rightarrow> string \<Rightarrow> i32 \<Rightarrow> registry \<Rightarrow> registry \<times> bool" where
  "register_service_as kill now name ctrl reply pid s =
     (if name = [] then (s, False)
      else let fresh = fill_entry now name ctrl reply pid in
        case register_dup kill name fresh (rd_entries s) of
          Some (b, es) \<Rightarrow> (s\<lparr>rd_entries := es\<rparr>, b)
        | None \<Rightarrow>
            (case register_empty kill fresh (rd_entries s) of
               Some es \<Rightarrow>
                 (s\<lparr>rd_entries := es,
                    rd_count := (if unat (rd_count s) < MAX_SERVICES then rd_count s + 1 else rd_count s)\<rparr>, True)
             | None \<Rightarrow> (s, False)))"

fun unregister_loop :: "string \<Rightarrow> i32 \<Rightarrow> service_entry list \<Rightarrow> service_entry list \<times> bool" where
  "unregister_loop name pid [] = ([], False)"
| "unregister_loop name pid (e # es) =
     (if active e \<and> name_str e = name \<and> se_pid e = pid then (entry_default # es, True)
      else case unregister_loop name pid es of (es', b) \<Rightarrow> (e # es', b))"

definition unregister_service_as :: "string \<Rightarrow> i32 \<Rightarrow> registry \<Rightarrow> registry \<times> bool" where
  "unregister_service_as name pid s =
     (case unregister_loop name pid (rd_entries s) of (es, b) \<Rightarrow> (s\<lparr>rd_entries := es\<rparr>, b))"

fun find_loop :: "(i32 \<Rightarrow> kill_result) \<Rightarrow> string \<Rightarrow> service_entry list \<Rightarrow> service_entry list \<times> service_entry option" where
  "find_loop kill name [] = ([], None)"
| "find_loop kill name (e # es) =
     (if active e \<and> name_str e = name
      then (if \<not> is_alive kill e then (case find_loop kill name es of (es', r) \<Rightarrow> (entry_default # es', r))
            else (e # es, Some e))
      else case find_loop kill name es of (es', r) \<Rightarrow> (e # es', r))"

definition find_service :: "(i32 \<Rightarrow> kill_result) \<Rightarrow> string \<Rightarrow> registry \<Rightarrow> registry \<times> service_entry option" where
  "find_service kill name s =
     (case find_loop kill name (rd_entries s) of (es, r) \<Rightarrow> (s\<lparr>rd_entries := es\<rparr>, r))"

text \<open>\<open>find_all\<close> and \<open>list\<close>: stale entries are cleaned on the way.\<close>

definition clean :: "(i32 \<Rightarrow> kill_result) \<Rightarrow> service_entry \<Rightarrow> service_entry" where
  "clean kill e = (if active e \<and> \<not> is_alive kill e then entry_default else e)"

definition starts_with :: "string \<Rightarrow> string \<Rightarrow> bool" where
  "starts_with s p \<longleftrightarrow> take (length p) s = p"

definition find_all :: "(i32 \<Rightarrow> kill_result) \<Rightarrow> string \<Rightarrow> registry \<Rightarrow> registry \<times> service_entry list" where
  "find_all kill pfx s =
     (s\<lparr>rd_entries := map (clean kill) (rd_entries s)\<rparr>,
      filter (\<lambda>e. active e \<and> is_alive kill e \<and> starts_with (name_str e) pfx) (rd_entries s))"

definition list_services :: "(i32 \<Rightarrow> kill_result) \<Rightarrow> registry \<Rightarrow> registry \<times> service_entry list" where
  "list_services kill s =
     (s\<lparr>rd_entries := map (clean kill) (rd_entries s)\<rparr>,
      filter (\<lambda>e. active e \<and> is_alive kill e) (rd_entries s))"

definition gc :: "(i32 \<Rightarrow> kill_result) \<Rightarrow> registry \<Rightarrow> registry \<times> nat" where
  "gc kill s =
     (s\<lparr>rd_entries := map (clean kill) (rd_entries s)\<rparr>,
      length (filter (\<lambda>e. active e \<and> \<not> is_alive kill e) (rd_entries s)))"

definition clear_registry :: "registry \<Rightarrow> registry" where
  "clear_registry s = s\<lparr>rd_entries := map (\<lambda>_. entry_default) (rd_entries s), rd_count := 0\<rparr>"

section \<open>What the registry promises\<close>

text \<open>
  The live entries by name. In a well-formed table no two active entries have
  the same name.
\<close>

definition live :: "(i32 \<Rightarrow> kill_result) \<Rightarrow> service_entry \<Rightarrow> bool" where
  "live kill e \<longleftrightarrow> active e \<and> is_alive kill e"

definition by_name :: "(i32 \<Rightarrow> kill_result) \<Rightarrow> service_entry list \<Rightarrow> string \<rightharpoonup> service_entry" where
  "by_name kill es = map_of (map (\<lambda>e. (name_str e, e)) (filter (live kill) es))"

definition names_ok :: "service_entry list \<Rightarrow> bool" where
  "names_ok es \<longleftrightarrow> distinct (map name_str (filter active es))"

lemma not_active_default [simp]: "\<not> active entry_default" "\<not> live kill entry_default"
  by (simp_all add: active_def entry_default_def live_def)

lemma dom_by_name: "dom (by_name kill es) = name_str ` {e \<in> set es. live kill e}"
  by (simp add: by_name_def dom_map_of_conv_image_fst image_image)

lemma by_name_None: "by_name kill es n = None \<longleftrightarrow> (\<forall>e \<in> set es. live kill e \<longrightarrow> name_str e \<noteq> n)"
  by (auto simp: by_name_def map_of_eq_None_iff image_image)

lemma by_name_replace:
  assumes "\<not> live kill e" "live kill f" "\<forall>x \<in> set (pre @ post). live kill x \<longrightarrow> name_str x \<noteq> name_str f"
  shows "by_name kill (pre @ f # post) = (by_name kill (pre @ e # post))(name_str f \<mapsto> f)"
proof -
  have "map_of (map (\<lambda>e. (name_str e, e)) (filter (live kill) post)) (name_str f) = None"
    "map_of (map (\<lambda>e. (name_str e, e)) (filter (live kill) pre)) (name_str f) = None"
    using assms(3) by (auto simp: map_of_eq_None_iff image_image)
  then show ?thesis
    using assms(1,2) by (auto simp: by_name_def fun_eq_iff map_add_def split: option.splits)
qed

lemma by_name_remove:
  assumes "live kill e" "\<not> live kill f" "\<forall>x \<in> set (pre @ post). live kill x \<longrightarrow> name_str x \<noteq> name_str e"
  shows "by_name kill (pre @ f # post) = (by_name kill (pre @ e # post))(name_str e := None)"
proof -
  have "map_of (map (\<lambda>e. (name_str e, e)) (filter (live kill) post)) (name_str e) = None"
    "map_of (map (\<lambda>e. (name_str e, e)) (filter (live kill) pre)) (name_str e) = None"
    using assms(3) by (auto simp: map_of_eq_None_iff image_image)
  then show ?thesis
    using assms(1,2) by (auto simp: by_name_def fun_eq_iff map_add_def split: option.splits)
qed

lemma by_name_skip: "\<not> live kill e \<Longrightarrow> by_name kill (pre @ e # post) = by_name kill (pre @ post)"
  by (simp add: by_name_def)

lemma distinct_live: "names_ok es \<Longrightarrow> distinct (map name_str (filter (live kill) es))"
proof -
  assume "names_ok es"
  then have "distinct (map name_str (filter (is_alive kill) (filter active es)))"
    unfolding names_ok_def by (rule distinct_map_filter)
  moreover have "(\<lambda>x. active x \<and> is_alive kill x) = live kill" by (simp add: fun_eq_iff live_def)
  ultimately show ?thesis by simp
qed

lemma by_name_Some:
  assumes "names_ok es" "e \<in> set es" "live kill e"
  shows "by_name kill es (name_str e) = Some e"
proof -
  have "distinct (map name_str (filter (live kill) es))" by (rule distinct_live [OF assms(1)])
  then show ?thesis
    using assms(2,3) by (auto simp: by_name_def intro: map_of_is_SomeI simp: o_def)
qed

lemma names_ok_app:
  "names_ok (pre @ e # post) \<Longrightarrow> active e \<Longrightarrow>
   \<forall>x \<in> set (pre @ post). active x \<longrightarrow> name_str x \<noteq> name_str e"
proof (intro ballI impI notI)
  fix x assume ok: "names_ok (pre @ e # post)" "active e" and x: "x \<in> set (pre @ post)" "active x" "name_str x = name_str e"
  have "name_str e \<notin> name_str ` {x \<in> set (pre @ post). active x}"
    using ok by (auto simp: names_ok_def)
  moreover have "name_str x \<in> name_str ` {x \<in> set (pre @ post). active x}" using x(1,2) by blast
  ultimately show False using x(3) by simp
qed

lemma names_ok_replace:
  assumes "names_ok (pre @ e # post)" "\<forall>x \<in> set (pre @ post). active x \<and> active f \<longrightarrow> name_str x \<noteq> name_str f"
  shows "names_ok (pre @ f # post)"
  using assms by (auto simp: names_ok_def split: if_splits)

lemma card_by_name:
  assumes "names_ok es"
  shows "card (dom (by_name kill es)) = length (filter (live kill) es)"
proof -
  have "distinct (map name_str (filter (live kill) es))" by (rule distinct_live [OF assms])
  moreover have "dom (by_name kill es) = set (map name_str (filter (live kill) es))"
    by (auto simp: dom_by_name)
  ultimately show ?thesis by (metis distinct_card length_map)
qed
text \<open>What the loops find: the entry they stop at, and that nothing before it matched.\<close>

lemma register_dup_None:
  "register_dup kill n f es = None \<longleftrightarrow> (\<forall>e \<in> set es. \<not> (active e \<and> name_str e = n))"
  by (induction es) auto

lemma register_dup_Some:
  "register_dup kill n f es = Some (b, es') \<Longrightarrow>
   \<exists>pre e post. es = pre @ e # post \<and> active e \<and> name_str e = n
     \<and> (if is_alive kill e then \<not> b \<and> es' = es else b \<and> es' = pre @ f # post)"
proof (induction es arbitrary: es')
  case (Cons x es)
  show ?case
  proof (cases "active x \<and> name_str x = n")
    case True
    then show ?thesis using Cons.prems by (intro exI [of _ "[]"] exI [of _ x] exI [of _ es]) (auto split: if_splits)
  next
    case False
    then obtain es1 where 1: "register_dup kill n f es = Some (b, es1)" "es' = x # es1"
      using Cons.prems by auto
    from Cons.IH [OF 1(1)] obtain pre e post where "es = pre @ e # post" "active e" "name_str e = n"
      "if is_alive kill e then \<not> b \<and> es1 = es else b \<and> es1 = pre @ f # post" by blast
    then show ?thesis using 1(2) by (intro exI [of _ "x # pre"] exI [of _ e] exI [of _ post]) (auto split: if_splits)
  qed
qed simp

lemma register_empty_None: "register_empty kill f es = None \<longleftrightarrow> (\<forall>e \<in> set es. live kill e)"
  by (induction es) (auto simp: live_def)

lemma register_empty_Some:
  "register_empty kill f es = Some es' \<Longrightarrow> \<exists>pre e post. es = pre @ e # post \<and> \<not> live kill e \<and> es' = pre @ f # post"
proof (induction es arbitrary: es')
  case (Cons x es)
  show ?case
  proof (cases "live kill x")
    case True
    then obtain es1 where 1: "register_empty kill f es = Some es1" "es' = x # es1"
      using Cons.prems by (auto simp: live_def)
    from Cons.IH [OF 1(1)] obtain pre e post where "es = pre @ e # post" "\<not> live kill e" "es1 = pre @ f # post" by blast
    then show ?thesis using 1(2) by (intro exI [of _ "x # pre"] exI [of _ e] exI [of _ post]) simp
  next
    case False
    then have "es' = f # es" using Cons.prems by (auto simp: live_def)
    then show ?thesis using False by (intro exI [of _ "[]"] exI [of _ x] exI [of _ es]) simp
  qed
qed simp

lemma unregister_loop_False:
  "unregister_loop n p es = (es', False) \<Longrightarrow> es' = es \<and> (\<forall>e \<in> set es. \<not> (active e \<and> name_str e = n \<and> se_pid e = p))"
  by (induction es arbitrary: es') (auto split: if_splits prod.splits)

lemma unregister_loop_True:
  "unregister_loop n p es = (es', True) \<Longrightarrow>
   \<exists>pre e post. es = pre @ e # post \<and> active e \<and> name_str e = n \<and> se_pid e = p \<and> es' = pre @ entry_default # post"
proof (induction es arbitrary: es')
  case (Cons x es)
  show ?case
  proof (cases "active x \<and> name_str x = n \<and> se_pid x = p")
    case True
    then show ?thesis using Cons.prems by (intro exI [of _ "[]"] exI [of _ x] exI [of _ es]) auto
  next
    case False
    then obtain es1 where 1: "unregister_loop n p es = (es1, True)" "es' = x # es1"
      using Cons.prems by (auto split: prod.splits if_splits)
    from Cons.IH [OF 1(1)] obtain pre e post where "es = pre @ e # post" "active e" "name_str e = n" "se_pid e = p"
      "es1 = pre @ entry_default # post" by blast
    then show ?thesis using 1(2) by (intro exI [of _ "x # pre"] exI [of _ e] exI [of _ post]) simp
  qed
qed simp

lemma find_loop_result:
  "find_loop kill n es = (es', r) \<Longrightarrow>
   length es' = length es \<and> r = by_name kill es n \<and> by_name kill es' = by_name kill es
   \<and> set (filter active es') \<subseteq> set es \<and> (names_ok es \<longrightarrow> names_ok es')"
proof (induction es arbitrary: es' r)
  case (Cons x es)
  obtain es1 r1 where 1: "find_loop kill n es = (es1, r1)" by fastforce
  note IH = Cons.IH [OF 1]
  show ?case
  proof (cases "active x \<and> name_str x = n \<and> is_alive kill x")
    case True
    then show ?thesis using Cons.prems by (auto simp: by_name_def live_def)
  next
    case False
    then have "r = r1" "es' = (if active x \<and> name_str x = n then entry_default else x) # es1"
      using Cons.prems 1 by (auto split: if_splits)
    then show ?thesis
      using IH False by (auto simp: by_name_def live_def names_ok_def)
  qed
qed (auto simp: by_name_def)

section \<open>The registry is a bounded directory\<close>

datatype dir_op =
    Register string string string i32 u64
  | Unregister string i32
  | Find string

datatype dir_answer = Done bool | Found "service_entry option"

text \<open>
  The specification: a map from names to entries with at most 32 of them. A name
  is registered once, only its owner's pid removes it.
\<close>

fun dir_spec :: "dir_op \<Rightarrow> (string \<rightharpoonup> service_entry) \<Rightarrow> (string \<rightharpoonup> service_entry) \<times> dir_answer" where
  "dir_spec (Register n c r p t) m =
     (if m n = None \<and> card (dom m) < MAX_SERVICES then (m(n \<mapsto> fill_entry t n c r p), Done True) else (m, Done False))"
| "dir_spec (Unregister n p) m =
     (case m n of
        Some e \<Rightarrow> if se_pid e = p then (m(n := None), Done True) else (m, Done False)
      | None \<Rightarrow> (m, Done False))"
| "dir_spec (Find n) m = (m, Found (m n))"

fun dir_impl :: "(i32 \<Rightarrow> kill_result) \<Rightarrow> dir_op \<Rightarrow> registry \<Rightarrow> registry \<times> dir_answer" where
  "dir_impl kill (Register n c r p t) s = (case register_service_as kill t n c r p s of (s', b) \<Rightarrow> (s', Done b))"
| "dir_impl kill (Unregister n p) s = (case unregister_service_as n p s of (s', b) \<Rightarrow> (s', Done b))"
| "dir_impl kill (Find n) s = (case find_service kill n s of (s', e) \<Rightarrow> (s', Found e))"

text \<open>
  Requests as the documentation has them: a name that fits its field and has no
  zero byte, and a pid of a live process.
\<close>

definition valid_name :: "string \<Rightarrow> bool" where
  "valid_name n \<longleftrightarrow> n \<noteq> [] \<and> length n < MAX_NAME_LEN \<and> NUL \<notin> set n \<and> utf8_valid n"

definition live_pid :: "(i32 \<Rightarrow> kill_result) \<Rightarrow> i32 \<Rightarrow> bool" where
  "live_pid kill p \<longleftrightarrow> 0 < sint p \<and> is_pid_alive kill p"

fun dir_good :: "(i32 \<Rightarrow> kill_result) \<Rightarrow> dir_op \<Rightarrow> bool" where
  "dir_good kill (Register n c r p t) \<longleftrightarrow> valid_name n \<and> live_pid kill p"
| "dir_good kill (Unregister n p) \<longleftrightarrow> live_pid kill p"
| "dir_good kill (Find n) \<longleftrightarrow> True"

definition registry_ok :: "registry \<Rightarrow> bool" where
  "registry_ok s \<longleftrightarrow> length (rd_entries s) = MAX_SERVICES \<and> names_ok (rd_entries s)"

definition registry_map :: "(i32 \<Rightarrow> kill_result) \<Rightarrow> registry \<Rightarrow> string \<rightharpoonup> service_entry" where
  "registry_map kill s = by_name kill (rd_entries s)"

lemma takeWhile_no_NUL: "NUL \<notin> set n \<Longrightarrow> takeWhile (\<lambda>c. c \<noteq> NUL) n = n"
  by (induction n) auto

lemma fill_entry_bytes:
  assumes "valid_name n"
  shows "takeWhile (\<lambda>c. c \<noteq> NUL) (se_name (fill_entry t n c r p)) = n"
proof -
  have "length (se_name entry_default) = MAX_NAME_LEN" by (simp add: entry_default_def)
  from str_of_copy [OF this, of n]
  have "takeWhile (\<lambda>c. c \<noteq> NUL) (se_name (fill_entry t n c r p)) = takeWhile (\<lambda>c. c \<noteq> NUL) (take 63 n)"
    by (simp add: fill_entry_def)
  moreover have "take 63 n = n" using assms by (simp add: valid_name_def MAX_NAME_LEN_def)
  ultimately show ?thesis using assms takeWhile_no_NUL [of n] by (simp add: valid_name_def)
qed

lemma fill_entry_name: "valid_name n \<Longrightarrow> name_str (fill_entry t n c r p) = n"
  by (simp add: name_str_def str_of_def fill_entry_bytes) (simp add: valid_name_def)

lemma fill_entry_live:
  assumes "valid_name n" "live_pid kill p"
  shows "live kill (fill_entry t n c r p)"
proof -
  have "se_name (fill_entry t n c r p) ! 0 \<noteq> NUL"
    using fill_entry_bytes [OF assms(1), of t c r p] assms(1)
    by (cases "se_name (fill_entry t n c r p)") (auto simp: valid_name_def split: if_splits)
  then show ?thesis
    using assms(2) by (simp add: live_def active_def is_alive_def live_pid_def fill_entry_def)
qed

lemma register_refines:
  assumes ok: "registry_ok s" and n: "valid_name n" and p: "live_pid kill p"
    and r: "register_service_as kill t n c r p s = (s', b)"
  shows "registry_ok s' \<and> dir_spec (Register n c r p t) (registry_map kill s) = (registry_map kill s', Done b)"
proof -
  let ?f = "fill_entry t n c r p" and ?es = "rd_entries s"
  have f: "live kill ?f" "name_str ?f = n" "active ?f" and ne: "n \<noteq> []"
    using fill_entry_live [OF n p] fill_entry_name [OF n] n by (simp_all add: live_def valid_name_def)
  have nk: "names_ok ?es" "length ?es = MAX_SERVICES" using ok by (simp_all add: registry_ok_def)
  have room: "card (dom (by_name kill ?es)) < MAX_SERVICES" if "e \<in> set ?es" "\<not> live kill e" for e
    using length_filter_less [of e ?es "live kill"] that nk by (simp add: card_by_name)
  show ?thesis
  proof (cases "register_dup kill n ?f ?es")
    case None
    then have no: "\<forall>e \<in> set ?es. \<not> (active e \<and> name_str e = n)" by (simp add: register_dup_None)
    then have free: "by_name kill ?es n = None" by (auto simp: by_name_None live_def)
    show ?thesis
    proof (cases "register_empty kill ?f ?es")
      case full: None
      then have "filter (live kill) ?es = ?es" by (simp add: register_empty_None filter_id_conv)
      then show ?thesis
        using r ne None full ok nk by (simp add: register_service_as_def registry_map_def card_by_name Let_def)
    next
      case (Some es)
      then obtain pre e post where sp: "?es = pre @ e # post" "\<not> live kill e" "es = pre @ ?f # post"
        using register_empty_Some by blast
      have "by_name kill es = (by_name kill ?es)(n \<mapsto> ?f)"
        using by_name_replace [of kill e ?f pre post] sp f no by (auto simp: live_def)
      moreover have "names_ok es"
        using names_ok_replace [of pre e post ?f] sp nk f no by auto
      ultimately show ?thesis
        using r ne None Some sp nk free room [of e]
        by (auto simp: register_service_as_def registry_map_def registry_ok_def Let_def)
    qed
  next
    case (Some be)
    obtain b' es where be: "be = (b', es)" by fastforce
    then obtain pre e post where sp: "?es = pre @ e # post" "active e" "name_str e = n"
      and alt: "if is_alive kill e then \<not> b' \<and> es = ?es else b' \<and> es = pre @ ?f # post"
      using register_dup_Some Some by blast
    have res: "s' = s\<lparr>rd_entries := es\<rparr>" "b = b'"
      using r ne Some be by (simp_all add: register_service_as_def Let_def)
    show ?thesis
    proof (cases "is_alive kill e")
      case True
      then have "by_name kill ?es n = Some e"
        using by_name_Some [OF nk(1), of e] sp by (simp add: live_def)
      then show ?thesis using res alt True ok by (simp add: registry_map_def)
    next
      case False
      have others: "\<forall>x \<in> set (pre @ post). active x \<longrightarrow> name_str x \<noteq> n"
        using names_ok_app [of pre e post] nk sp by simp
      have "\<not> live kill e" using False by (simp add: live_def)
      then have "by_name kill es = (by_name kill ?es)(n \<mapsto> ?f)" "by_name kill ?es n = None"
        using by_name_replace [of kill e ?f pre post] sp f others alt False by (auto simp: live_def by_name_None)
      moreover have "names_ok es"
        using names_ok_replace [of pre e post ?f] sp nk f others alt False by auto
      ultimately show ?thesis
        using res alt False nk sp room [of e] \<open>\<not> live kill e\<close> by (auto simp: registry_map_def registry_ok_def)
    qed
  qed
qed
lemma unregister_refines:
  assumes ok: "registry_ok s" and p: "live_pid kill p" and r: "unregister_service_as n p s = (s', b)"
  shows "registry_ok s' \<and> dir_spec (Unregister n p) (registry_map kill s) = (registry_map kill s', Done b)"
proof -
  let ?es = "rd_entries s"
  have nk: "names_ok ?es" "length ?es = MAX_SERVICES" using ok by (simp_all add: registry_ok_def)
  obtain es b' where u: "unregister_loop n p ?es = (es, b')" by fastforce
  then have res: "s' = s\<lparr>rd_entries := es\<rparr>" "b = b'" using r by (simp_all add: unregister_service_as_def)
  have alive: "live kill e" if "active e" "se_pid e = p" for e
    using that p by (simp add: live_def is_alive_def live_pid_def)
  show ?thesis
  proof (cases b')
    case True
    with u have "unregister_loop n p ?es = (es, True)" by simp
    from unregister_loop_True [OF this] obtain pre e post where sp: "?es = pre @ e # post" "active e" "name_str e = n" "se_pid e = p"
      "es = pre @ entry_default # post"
      by blast
    have others: "\<forall>x \<in> set (pre @ post). active x \<longrightarrow> name_str x \<noteq> n"
      using names_ok_app [of pre e post] nk sp by simp
    have "by_name kill ?es n = Some e" using by_name_Some [OF nk(1), of e] sp alive by simp
    moreover have "by_name kill es = (by_name kill ?es)(n := None)"
      using by_name_remove [of kill e entry_default pre post] sp alive others by (auto simp: live_def)
    moreover have "names_ok es" using names_ok_replace [of pre e post entry_default] sp nk by simp
    ultimately show ?thesis
      using res sp nk True by (auto simp: registry_map_def registry_ok_def)
  next
    case False
    then have no: "es = ?es" "\<forall>e \<in> set ?es. \<not> (active e \<and> name_str e = n \<and> se_pid e = p)"
      using unregister_loop_False [of n p ?es es] u by simp_all
    have "se_pid e \<noteq> p" if "by_name kill ?es n = Some e" for e
    proof -
      have "e \<in> set ?es" "live kill e" "name_str e = n"
        using map_of_SomeD [OF that [unfolded by_name_def]] by auto
      then show ?thesis using no(2) by (auto simp: live_def)
    qed
    then show ?thesis using res no ok False by (auto simp: registry_map_def split: option.splits)
  qed
qed

lemma find_refines:
  assumes ok: "registry_ok s" and r: "find_service kill n s = (s', e)"
  shows "registry_ok s' \<and> dir_spec (Find n) (registry_map kill s) = (registry_map kill s', Found e)"
proof -
  obtain es e' where f: "find_loop kill n (rd_entries s) = (es, e')" by fastforce
  then show ?thesis
    using find_loop_result [OF f] ok r by (auto simp: find_service_def registry_ok_def registry_map_def)
qed

interpretation registry: data_refinement registry_ok "registry_map kill" "dir_good kill" "dir_impl kill" dir_spec for kill
proof
  fix s x assume ok: "registry_ok s" and good: "dir_good kill x"
  have "registry_ok (fst (dir_impl kill x s))
    \<and> dir_spec x (registry_map kill s) = (registry_map kill (fst (dir_impl kill x s)), snd (dir_impl kill x s))"
  proof (cases x)
    case (Register n c r p t)
    obtain s' b where res: "register_service_as kill t n c r p s = (s', b)" by fastforce
    from register_refines [OF ok _ _ this] good show ?thesis by (simp add: Register res)
  next
    case (Unregister n p)
    obtain s' b where res: "unregister_service_as n p s = (s', b)" by fastforce
    from unregister_refines [OF ok _ this] good show ?thesis by (simp add: Unregister res)
  next
    case (Find n)
    obtain s' e where res: "find_service kill n s = (s', e)" by fastforce
    from find_refines [OF ok this] show ?thesis by (auto simp: Find res)
  qed
  then show "registry_ok (fst (dir_impl kill x s))"
    "dir_spec x (registry_map kill s) = (registry_map kill (fst (dir_impl kill x s)), snd (dir_impl kill x s))" by blast+
qed

lemma registry_zero_ok: "registry_ok registry_zero" "registry_map kill registry_zero = Map.empty"
proof -
  have f: "filter P (replicate n entry_default) = []" if "\<not> P entry_default" for P n using that by (induction n) simp_all
  show "registry_ok registry_zero" by (simp add: registry_ok_def registry_zero_def names_ok_def f)
  show "registry_map kill registry_zero = Map.empty" by (simp add: registry_map_def by_name_def registry_zero_def f)
qed

text \<open>
  C17. The registry is a directory: on a fresh segment, any sequence of registrations
  under names of 1 to 63 bytes without a zero byte, removals and lookups, made
  for processes that stay alive, is answered exactly as by a map of at most 32
  names: a name is registered once and only if there is room, only its owner
  removes it, and a lookup returns the entry that was registered.
\<close>

theorem registry_is_directory:
  assumes "list_all (dir_good kill) xs"
  shows "snd (run_ops (dir_impl kill) xs registry_zero) = snd (run_ops dir_spec xs Map.empty)"
proof -
  from registry.run_refines [OF registry_zero_ok(1) assms, unfolded registry_zero_ok(2)]
  show ?thesis by simp
qed

theorem registry_is_directory_witness:
  "snd (run_ops (dir_impl (\<lambda>_. KillOk)) [Register ''a'' ''c'' ''r'' 5 0, Register ''a'' ''x'' ''y'' 6 1, Unregister ''a'' 6,
      Find ''a'', Unregister ''a'' 5, Find ''a''] registry_zero)
   = [Done True, Done False, Done False, Found (Some (fill_entry 0 ''a'' ''c'' ''r'' 5)), Done True, Found None]"
proof -
  have p: "0 < sint (5 :: i32)" "0 < sint (6 :: i32)" by simp_all
  have "utf8_valid ''a''" by (rule utf8_valid_ascii) (simp add: in_range_def)
  then have "list_all (dir_good (\<lambda>_. KillOk)) [Register ''a'' ''c'' ''r'' 5 0, Register ''a'' ''x'' ''y'' 6 1,
      Unregister ''a'' 6, Find ''a'', Unregister ''a'' 5, Find ''a'']"
    using p by (simp add: valid_name_def MAX_NAME_LEN_def live_pid_def is_pid_alive_def)
  from registry_is_directory [OF this] show ?thesis
    by (simp add: MAX_SERVICES_def) (simp add: fill_entry_def)
qed

text \<open>\<open>list\<close>, \<open>find_all\<close> and \<open>gc\<close> return the live entries and leave the directory as it is.\<close>

lemma registry_map_clean: "registry_map kill (s\<lparr>rd_entries := map (clean kill) (rd_entries s)\<rparr>) = registry_map kill s"
proof -
  have "filter (live kill) (map (clean kill) es) = filter (live kill) es" for es
    by (induction es) (auto simp: clean_def live_def)
  then show ?thesis by (simp add: registry_map_def by_name_def)
qed

lemma list_services_live:
  assumes "registry_ok s"
  shows "set (snd (list_services kill s)) = ran (registry_map kill s)"
    "registry_map kill (fst (list_services kill s)) = registry_map kill s"
    "registry_map kill (fst (gc kill s)) = registry_map kill s"
proof -
  have "distinct (map fst (map (\<lambda>e. (name_str e, e)) (filter (live kill) (rd_entries s))))"
    using assms distinct_live by (simp add: registry_ok_def o_def)
  from ran_distinct [OF this] show "set (snd (list_services kill s)) = ran (registry_map kill s)"
    by (simp add: list_services_def registry_map_def by_name_def live_def image_image)
qed (simp_all add: list_services_def gc_def registry_map_clean)

text \<open>
  Names that do not fit: a name of 64 bytes or more is accepted, stored cut to 63
  bytes, and never found again under the name it was registered with; the same
  registration succeeds a second time as long as there is another free slot.
\<close>

theorem registry_long_name_lost:
  assumes "MAX_NAME_LEN \<le> length name" "registry_ok s" "\<forall>e \<in> set (rd_entries s). \<not> active e"
  shows "case register_service_as kill t name c r p s of (s1, b1) \<Rightarrow>
     b1 \<and> snd (find_service kill name s1) = None \<and> snd (register_service_as kill t name c r p s1)"
proof -
  let ?f = "fill_entry t name c r p"
  have len: "length (str_of (copy_str (se_name entry_default) name)) < length name"
  proof -
    have "length (se_name entry_default) = MAX_NAME_LEN" by (simp add: entry_default_def)
    from str_of_copy [OF this, of name]
    have "length (str_of (copy_str (se_name entry_default) name)) \<le> length (take 63 name)"
      using length_takeWhile_le [of "\<lambda>c. c \<noteq> NUL" "take 63 name"] by (simp add: str_of_def Let_def)
    then show ?thesis using assms(1) by (simp add: MAX_NAME_LEN_def)
  qed
  then have other: "name_str ?f \<noteq> name" by (auto simp: name_str_def fill_entry_def)
  obtain e es where es: "rd_entries s = e # es" "es \<noteq> []"
    using assms(2) by (cases "rd_entries s"; cases "tl (rd_entries s)") (auto simp: registry_ok_def MAX_SERVICES_def)
  have na: "\<not> active e" "\<forall>x \<in> set es. \<not> active x" using assms(3) es by simp_all
  have ne: "name \<noteq> []" using assms(1) by (auto simp: MAX_NAME_LEN_def)
  have dup: "register_dup kill name ?f (rd_entries s) = None" "register_dup kill name ?f (?f # es) = None"
    using assms(3) es other na by (auto simp: register_dup_None)
  have "register_empty kill ?f (?f # es) \<noteq> None"
    using es(2) na(2) by (cases es) (auto simp: register_empty_None live_def)
  then obtain es1 where e1: "register_empty kill ?f (?f # es) = Some es1" by auto
  have "find_loop kill name es = (es, None)" using na(2) by (induction es) auto
  then have f: "snd (find_loop kill name (?f # es)) = None" using other by simp
  have "register_empty kill ?f (rd_entries s) = Some (?f # es)" using es na by simp
  then obtain cnt where s1: "register_service_as kill t name c r p s = (s\<lparr>rd_entries := ?f # es, rd_count := cnt\<rparr>, True)"
    using ne dup(1) by (simp add: register_service_as_def Let_def)
  moreover have "snd (find_service kill name (s\<lparr>rd_entries := ?f # es, rd_count := cnt\<rparr>)) = None"
    using f by (simp add: find_service_def split_beta del: find_loop.simps)
  moreover have "snd (register_service_as kill t name c r p (s\<lparr>rd_entries := ?f # es, rd_count := cnt\<rparr>))"
    using ne dup(2) e1 by (simp add: register_service_as_def Let_def del: register_dup.simps register_empty.simps)
  ultimately show ?thesis by simp
qed

theorem registry_long_name_lost_witness:
  "snd (find_service (\<lambda>_. KillOk) (replicate 70 (CHR ''a''))
     (fst (register_service_as (\<lambda>_. KillOk) 0 (replicate 70 (CHR ''a'')) ''c'' ''r'' 5 registry_zero))) = None"
proof -
  have "\<forall>e \<in> set (rd_entries registry_zero). \<not> active e" by (simp add: registry_zero_def)
  from registry_long_name_lost [OF _ registry_zero_ok(1) this, of "replicate 70 (CHR ''a'')" "\<lambda>_. KillOk" 0 "''c''" "''r''" 5]
  show ?thesis by (simp add: MAX_NAME_LEN_def split: prod.splits)
qed

end
