(* ===== verification/Names.thy ===== *)
theory Names
  imports Abi "HOL-Library.Sublist"
begin

text \<open>
  The names of the shared objects: \<open>shm_name.rs\<close> (the FNV-1a hash, the hex form and
  the shortening of long POSIX names) and the name builders of \<open>channel.rs\<close> and
  \<open>waiter.rs\<close>. A Rust string is the list of its UTF-8 bytes, as a HOL string;
  slicing one inside a character is a panic.
\<close>

section \<open>Hash and hex form\<close>

definition fnv1a_64 :: "string \<Rightarrow> u64" where
  "fnv1a_64 d = foldl (\<lambda>hash b. (hash XOR of_char b) * 0x100000001b3) 0xcbf29ce484222325 d"

definition DIGITS :: string where
  "DIGITS = ''0123456789abcdef''"

text \<open>The loop \<open>for i in (0..16).rev()\<close> fills the buffer from its end.\<close>

definition to_hex :: "u64 \<Rightarrow> string" where
  "to_hex val =
     fst (fold (\<lambda>i (buf, v). (buf[i := DIGITS ! unat (v AND 0xf)], drop_bit 4 v))
       (rev [0..<16]) (replicate 16 (CHR 0x00), val))"

lemma fold_hex:
  "n \<le> length buf \<Longrightarrow>
   fst (fold (\<lambda>i (buf, v). (buf[i := DIGITS ! unat (v AND 0xf)], drop_bit 4 v)) (rev [0..<n]) (buf, v))
     = map (\<lambda>i. DIGITS ! unat (drop_bit (4 * (n - 1 - i)) v AND 0xf)) [0..<n] @ drop n buf"
proof (induction n arbitrary: buf v)
  case (Suc n)
  let ?b = "buf[n := DIGITS ! unat (v AND 0xf)]"
  have "drop n ?b = (DIGITS ! unat (v AND 0xf)) # drop (Suc n) buf"
    using Suc.prems by (simp add: Cons_nth_drop_Suc [symmetric])
  moreover have "4 * (n - 1 - i) + 4 = 4 * (Suc n - 1 - i)" if "i < n" for i using that by simp
  ultimately show ?case
    using Suc.IH [of ?b "drop_bit 4 v"] Suc.prems by (simp add: drop_bit_drop_bit)
qed simp

lemma to_hex_eq: "to_hex v = map (\<lambda>i. DIGITS ! unat (drop_bit (4 * (15 - i)) v AND 0xf)) [0..<16]"
  using fold_hex [of 16 "replicate 16 (CHR 0x00)" v] by (simp add: to_hex_def)

lemma length_to_hex [simp]: "length (to_hex v) = 16"
  by (simp add: to_hex_eq)

lemma nibble_mask: "(0xf :: u64) = mask 4"
  by (simp add: mask_eq_exp_minus_1)

lemma unat_nibble: "unat (w AND 0xf :: u64) < 16"
proof -
  have "w AND 0xf = take_bit 4 w" unfolding nibble_mask by (simp add: take_bit_eq_mask and.commute)
  then have "unat (w AND 0xf) = take_bit 4 (unat w)" by (simp only: unsigned_take_bit_eq)
  then show ?thesis using take_bit_nat_less_exp [of 4 "unat w"] by simp
qed

lemma DIGITS_inject: "i < 16 \<Longrightarrow> j < 16 \<Longrightarrow> DIGITS ! i = DIGITS ! j \<longleftrightarrow> i = j"
proof -
  assume "i < 16" "j < 16"
  moreover have "distinct DIGITS" "length DIGITS = 16" by (simp_all add: DIGITS_def)
  ultimately show ?thesis by (simp add: nth_eq_iff_index_eq)
qed

lemma to_hex_inject: "to_hex v = to_hex w \<longleftrightarrow> v = w"
proof
  assume *: "to_hex v = to_hex w"
  have nib: "drop_bit (4 * k) v AND 0xf = drop_bit (4 * k) w AND 0xf" if "k < 16" for k
  proof -
    have "15 - k < 16" "15 - (15 - k) = k" using that by simp_all
    then have "DIGITS ! unat (drop_bit (4 * k) v AND 0xf) = DIGITS ! unat (drop_bit (4 * k) w AND 0xf)"
      using arg_cong [OF *, of "\<lambda>s. s ! (15 - k)"] by (simp add: to_hex_eq)
    then show ?thesis by (simp add: DIGITS_inject unat_nibble word_unat_eq_iff)
  qed
  show "v = w"
  proof (rule bit_word_eqI)
    fix n assume "n < LENGTH(64)"
    then have "n div 4 < 16" by simp
    from nib [OF this] have "bit (drop_bit (4 * (n div 4)) v AND mask 4) (n mod 4)
        = bit (drop_bit (4 * (n div 4)) w AND mask 4) (n mod 4)" by (simp add: nibble_mask)
    moreover have "n mod 4 < 64" using mod_less_divisor [of 4 n] by linarith
    ultimately show "bit v n = bit w n" by (simp add: bit_and_iff bit_drop_bit_eq bit_mask_iff)
  qed
qed simp

section \<open>POSIX names\<close>

datatype str_panic = NotCharBoundary

definition is_char_boundary :: "string \<Rightarrow> nat \<Rightarrow> bool" where
  "is_char_boundary s i \<longleftrightarrow>
     i = 0 \<or> i = length s \<or> i < length s \<and> \<not> (128 \<le> (of_char (s ! i) :: nat) \<and> (of_char (s ! i) :: nat) < 192)"

text \<open>\<open>&s[a..b]\<close>\<close>

definition str_slice :: "nat \<Rightarrow> nat \<Rightarrow> string \<Rightarrow> str_panic + string" where
  "str_slice a b s =
     (if is_char_boundary s a \<and> is_char_boundary s b then Inr (take (b - a) (drop a s)) else Inl NotCharBoundary)"

text \<open>\<open>SHM_NAME_MAX\<close> is 31 on macOS and 0, no limit, elsewhere.\<close>

definition SHM_NAME_MAX_macos :: nat where "SHM_NAME_MAX_macos = 31"
definition SHM_NAME_MAX_other :: nat where "SHM_NAME_MAX_other = 0"

definition HASH_SUFFIX_LEN :: nat where "HASH_SUFFIX_LEN = 1 + 16"

definition with_slash :: "string \<Rightarrow> string" where
  "with_slash name = (case name of c # _ \<Rightarrow> if c = CHR ''/'' then name else CHR ''/'' # name | [] \<Rightarrow> ''/'')"

definition make_shm_name :: "nat \<Rightarrow> string \<Rightarrow> str_panic + string" where
  "make_shm_name SHM_NAME_MAX name =
     (let result = with_slash name in
      if SHM_NAME_MAX = 0 then Inr result
      else if length result \<le> SHM_NAME_MAX then Inr result
      else
        let prefix_len = (if HASH_SUFFIX_LEN + 1 < SHM_NAME_MAX then SHM_NAME_MAX - HASH_SUFFIX_LEN - 1 else 0);
            hex = to_hex (fnv1a_64 result)
        in if 0 < prefix_len
           then (case str_slice 1 (length result) result of
                   Inl p \<Rightarrow> Inl p
                 | Inr original_body \<Rightarrow>
                     (case str_slice 0 (min prefix_len (length original_body)) original_body of
                        Inl p \<Rightarrow> Inl p
                      | Inr pre \<Rightarrow> Inr (''/'' @ pre @ ''_'' @ hex)))
           else Inr (''/'' @ ''_'' @ hex))"

lemma hd_with_slash: "\<exists>b. with_slash name = CHR ''/'' # b"
  by (auto simp: with_slash_def split: list.splits)

lemma with_slash_idem: "with_slash (CHR ''/'' # s) = CHR ''/'' # s"
  by (simp add: with_slash_def)

text \<open>The short form of a name that is too long for macOS.\<close>

lemma make_shm_name_long:
  assumes "31 < length (with_slash a)" "make_shm_name SHM_NAME_MAX_macos a = Inr r"
  shows "r = ''/'' @ take 13 (tl (with_slash a)) @ ''_'' @ to_hex (fnv1a_64 (with_slash a))"
proof -
  obtain b where b: "with_slash a = CHR ''/'' # b" using hd_with_slash by blast
  have "min 13 (length b) = 13" using assms(1) b by simp
  then show ?thesis
    using assms b
    by (auto simp: make_shm_name_def SHM_NAME_MAX_macos_def HASH_SUFFIX_LEN_def str_slice_def Let_def
        split: sum.splits if_splits)
qed

text \<open>
  C30. POSIX names on macOS: whatever name \<open>make_shm_name\<close> returns starts with a slash,
  fits the 31 bytes of \<open>PSHMNAMLEN\<close> and is its own POSIX name; a name that already
  fits is only given its slash. Two names that are both too long get the same
  POSIX name only if they agree in their first 13 bytes and their FNV-1a hashes
  collide.
\<close>

theorem make_shm_name_fits:
  assumes "make_shm_name SHM_NAME_MAX_macos a = Inr r"
  shows "(\<exists>s. r = CHR ''/'' # s) \<and> length r \<le> SHM_NAME_MAX_macos
    \<and> make_shm_name SHM_NAME_MAX_macos r = Inr r
    \<and> (length (with_slash a) \<le> SHM_NAME_MAX_macos \<longrightarrow> r = with_slash a)
    \<and> (length (with_slash a) > SHM_NAME_MAX_macos \<and> length (with_slash b) > SHM_NAME_MAX_macos
        \<and> make_shm_name SHM_NAME_MAX_macos b = Inr r \<longrightarrow>
       fnv1a_64 (with_slash a) = fnv1a_64 (with_slash b)
       \<and> take 13 (tl (with_slash a)) = take 13 (tl (with_slash b)))"
proof (cases "31 < length (with_slash a)")
  case True
  let ?short = "\<lambda>n. ''/'' @ take 13 (tl (with_slash n)) @ ''_'' @ to_hex (fnv1a_64 (with_slash n))"
  have r: "r = ?short a" by (rule make_shm_name_long [OF True assms])
  then have "length r \<le> 31" "make_shm_name SHM_NAME_MAX_macos r = Inr r"
    using True by (auto simp: make_shm_name_def with_slash_idem SHM_NAME_MAX_macos_def Let_def)
  moreover have "fnv1a_64 (with_slash a) = fnv1a_64 (with_slash b) \<and> take 13 (tl (with_slash a)) = take 13 (tl (with_slash b))"
    if "31 < length (with_slash b)" "make_shm_name SHM_NAME_MAX_macos b = Inr r"
  proof -
    have "?short a = ?short b" using r make_shm_name_long [OF that] by simp
    moreover have "length (take 13 (tl (with_slash a))) = length (take 13 (tl (with_slash b)))"
      using True that(1) by simp
    ultimately show ?thesis by (simp add: to_hex_inject)
  qed
  ultimately show ?thesis using r True by (simp add: SHM_NAME_MAX_macos_def)
next
  case False
  then have "r = with_slash a"
    using assms by (simp add: make_shm_name_def SHM_NAME_MAX_macos_def Let_def)
  then show ?thesis
    using False hd_with_slash [of a]
    by (auto simp: make_shm_name_def with_slash_idem SHM_NAME_MAX_macos_def Let_def)
qed

theorem make_shm_name_fits_witness:
  "make_shm_name SHM_NAME_MAX_macos ''__THOTH_SHM__QU_CONN__xchan__64__8'' = Inr ''/__THOTH_SHM___7d090bf7fa85c547''
   \<and> length ''/__THOTH_SHM___7d090bf7fa85c547'' \<le> SHM_NAME_MAX_macos"
proof -
  have n: "make_shm_name SHM_NAME_MAX_macos ''__THOTH_SHM__QU_CONN__xchan__64__8'' = Inr ''/__THOTH_SHM___7d090bf7fa85c547''"
    by code_simp
  show ?thesis using n make_shm_name_fits [OF n] by blast
qed

text \<open>A cut inside a character panics; on ASCII names it never does.\<close>

lemma make_shm_name_ascii:
  assumes "\<forall>c \<in> set name. (of_char c :: nat) < 128"
  shows "\<exists>r. make_shm_name m name = Inr r"
proof -
  obtain b where b: "with_slash name = CHR ''/'' # b" using hd_with_slash by blast
  then have "set b \<subseteq> set name" by (auto simp: with_slash_def split: list.splits if_splits)
  with assms have asc: "\<forall>c \<in> set b. (of_char c :: nat) < 128" by blast
  then have bnd: "is_char_boundary b i" if "i \<le> length b" for i
  proof (cases "i < length b")
    case True
    then have "(of_char (b ! i) :: nat) < 128" using asc nth_mem by blast
    then show ?thesis using True by (simp add: is_char_boundary_def)
  qed (use that in \<open>simp add: is_char_boundary_def\<close>)
  have "is_char_boundary (CHR ''/'' # b) 1"
    using bnd [of 0] asc by (cases b) (auto simp: is_char_boundary_def)
  then have "str_slice 1 (length (with_slash name)) (with_slash name) = Inr b"
    unfolding b str_slice_def by (simp add: is_char_boundary_def)
  moreover have "str_slice 0 (min k (length b)) b = Inr (take (min k (length b)) b)" for k
    using bnd [of "min k (length b)"] by (simp add: str_slice_def is_char_boundary_def [of b 0])
  ultimately show ?thesis by (auto simp: make_shm_name_def Let_def)
qed

section \<open>Names of a channel's objects\<close>

text \<open>\<open>usize\<close> in a format string.\<close>

function dec :: "nat \<Rightarrow> string" where
  "dec n = (if n < 10 then [char_of (48 + n)] else dec (n div 10) @ [char_of (48 + n mod 10)])"
  by pat_completeness auto
termination by (relation "measure id") auto

declare dec.simps [simp del]

fun RING_ALIGN :: "align_class \<Rightarrow> nat" where
  "RING_ALIGN Align8 = 8"
| "RING_ALIGN Align16 = 16"

definition ring_shm_name :: "align_class \<Rightarrow> string \<Rightarrow> string \<Rightarrow> string" where
  "ring_shm_name a pfx name =
     pfx @ ''__THOTH_SHM__QU_CONN__'' @ name @ ''__'' @ dec data_length @ ''__'' @ dec (RING_ALIGN a)"

definition cc_id_shm_name :: "string \<Rightarrow> string" where
  "cc_id_shm_name pfx = pfx @ ''__THOTH_SHM__CA_CONN__''"

definition msg_id_shm_name :: "string \<Rightarrow> string \<Rightarrow> string" where
  "msg_id_shm_name pfx name = pfx @ ''__THOTH_SHM__AC_CONN__'' @ name"

definition liveness_shm_name :: "string \<Rightarrow> string \<Rightarrow> string" where
  "liveness_shm_name pfx name = pfx @ ''__THOTH_SHM__LV_CONN__'' @ name"

text \<open>The three waiters of \<open>open\<close>, and the objects a waiter opens.\<close>

definition waiter_names :: "string \<Rightarrow> string \<Rightarrow> string list" where
  "waiter_names pfx name =
     map (\<lambda>tag. pfx @ ''__THOTH_SHM__'' @ tag @ name) [''WT_CONN__'', ''RD_CONN__'', ''CC_CONN__'']"

definition waiter_cond_name :: "string \<Rightarrow> string" where
  "waiter_cond_name name = name @ ''_WAITER_COND_''"

definition waiter_lock_name :: "string \<Rightarrow> string" where
  "waiter_lock_name name = name @ ''_WAITER_LOCK_''"

lemma name_goldens:
  "ring_shm_name Align8 [] ''xchan'' = name_golden_ring Align8"
  "ring_shm_name Align16 [] ''xchan'' = name_golden_ring Align16"
  "cc_id_shm_name [] = name_golden_cc_id"
  "msg_id_shm_name [] ''xchan'' = name_golden_msg_id"
  "liveness_shm_name [] ''xchan'' = name_golden_liveness"
  "make_shm_name SHM_NAME_MAX_macos (name_golden_ring Align8) = Inr (name_golden_ring_posix Align8)"
  "make_shm_name SHM_NAME_MAX_other (name_golden_ring Align16) = Inr (name_golden_ring_posix Align16)"
  by code_simp+

text \<open>Every shared object \<open>open\<close> creates for a channel, with those of its waiters.\<close>

definition waiter_objects :: "string \<Rightarrow> string list" where
  "waiter_objects w = [waiter_cond_name w, waiter_lock_name w,
     waiter_cond_name w @ sync_abi_suffix_condition, waiter_lock_name w @ sync_abi_suffix_mutex]"

definition channel_objects :: "align_class \<Rightarrow> string \<Rightarrow> string \<Rightarrow> string list" where
  "channel_objects a pfx name =
     [ring_shm_name a pfx name, msg_id_shm_name pfx name, liveness_shm_name pfx name]
     @ concat (map waiter_objects (waiter_names pfx name))"

text \<open>
  An object name is the prefix, the common part, a tag of nine characters, the
  channel name and a suffix; the tags and suffixes are a constant table.
\<close>

definition object_tags :: "align_class \<Rightarrow> (string \<times> string) list" where
  "object_tags a =
     [(''QU_CONN__'', ''__'' @ dec data_length @ ''__'' @ dec (RING_ALIGN a)), (''AC_CONN__'', []), (''LV_CONN__'', [])]
     @ concat (map (\<lambda>t. map (Pair t) [''_WAITER_COND_'', ''_WAITER_LOCK_'',
          ''_WAITER_COND_'' @ sync_abi_suffix_condition, ''_WAITER_LOCK_'' @ sync_abi_suffix_mutex])
        [''WT_CONN__'', ''RD_CONN__'', ''CC_CONN__''])"

lemma channel_objects_tags:
  "channel_objects a pfx name = map (\<lambda>(t, s). pfx @ ''__THOTH_SHM__'' @ t @ name @ s) (object_tags a)"
  by (simp add: channel_objects_def waiter_names_def waiter_objects_def waiter_cond_name_def waiter_lock_name_def
      ring_shm_name_def msg_id_shm_name_def liveness_shm_name_def object_tags_def)

lemma object_tags_ok:
  "distinct (object_tags a)"
  "list_all (\<lambda>(t, s). length t = 9 \<and> t \<noteq> ''CA_CONN__'') (object_tags a)"
  "list_all (\<lambda>(t, s). list_all (\<lambda>(t', s'). t = t' \<longrightarrow> s = s' \<or> \<not> suffix s s' \<and> \<not> suffix s' s) (object_tags a)) (object_tags a)"
  by (cases a; simp only:; code_simp)+

lemma object_name_eq:
  assumes "(t, s) \<in> set (object_tags a)" "(t', s') \<in> set (object_tags a)"
    and eq: "t @ name @ s = t' @ name' @ s'"
  shows "t = t' \<and> s = s' \<and> name = name'"
proof -
  have "length t = 9" "length t' = 9"
    using assms(1,2) object_tags_ok(2) [of a] by (auto simp: list_all_iff)
  then have t: "t = t'" "name @ s = name' @ s'" using eq by simp_all
  have "suffix s s' \<or> suffix s' s"
    using t(2) by (metis suffix_same_cases suffixI)
  then have "s = s'" using object_tags_ok(3) [of a] assms(1,2) t(1) by (auto simp: list_all_iff)
  with t show ?thesis by simp
qed

text \<open>
  Channels of one prefix do not share objects: the fifteen objects of a channel
  have fifteen names, none of them the prefix-wide endpoint counter's, and a
  channel of another name has none of them in common.
\<close>

theorem channel_objects_disjoint:
  "distinct (channel_objects a pfx name)
   \<and> cc_id_shm_name pfx \<notin> set (channel_objects a pfx name)
   \<and> (name \<noteq> name' \<longrightarrow> set (channel_objects a pfx name) \<inter> set (channel_objects a pfx name') = {})"
proof (intro conjI impI)
  have "inj_on (\<lambda>(t, s). pfx @ ''__THOTH_SHM__'' @ t @ name @ s) (set (object_tags a))"
    by (auto simp: inj_on_def dest: object_name_eq)
  then show "distinct (channel_objects a pfx name)"
    using object_tags_ok(1) by (simp add: channel_objects_tags distinct_map)
next
  show "cc_id_shm_name pfx \<notin> set (channel_objects a pfx name)"
  proof
    assume "cc_id_shm_name pfx \<in> set (channel_objects a pfx name)"
    then obtain t s where ts: "(t, s) \<in> set (object_tags a)" "''CA_CONN__'' = t @ name @ s"
      by (auto simp: channel_objects_tags cc_id_shm_name_def)
    have t: "length t = 9" "t \<noteq> ''CA_CONN__''" using object_tags_ok(2) [of a] ts(1) by (auto simp: list_all_iff)
    have "length ''CA_CONN__'' = length t + length (name @ s)" unfolding ts(2) by simp
    then have "name @ s = []" using t(1) by simp
    with ts(2) t(2) show False by simp
  qed
next
  assume "name \<noteq> name'"
  then show "set (channel_objects a pfx name) \<inter> set (channel_objects a pfx name') = {}"
    by (auto simp: channel_objects_tags dest: object_name_eq)
qed

theorem channel_objects_disjoint_witness:
  "set (channel_objects Align16 [] ''a'') \<inter> set (channel_objects Align16 [] ''b'') = {}"
  using channel_objects_disjoint [of Align16 "[]" "''a''" "''b''"] by simp

end
