(* ===== verification/Service_Group.thy ===== *)
theory Service_Group
  imports Service_Registry Names
begin

text \<open>
  Child processes (\<open>proto/process_manager.rs\<close>, the POSIX side) and redundant service
  groups on top of them (\<open>proto/service_group.rs\<close>). The operating system is the
  table of processes, a fresh one wherever the code looks; what a polling loop
  sees is the list of the states of the world at its iterations, and a loop that
  is still running at the end of the list is \<open>None\<close>. Between two looks at the
  registry other processes may change it: an iteration carries that change.
\<close>

section \<open>Processes\<close>

datatype wait_status = Exited i32 | Signaled i32

text \<open>A child that has ended stays in the table as a zombie until its parent waits for it.\<close>

datatype pstate = NoProcess | Running | Zombie wait_status

type_synonym ptable = "u32 \<Rightarrow> pstate"

text \<open>\<open>kill(pid, 0)\<close> succeeds for every entry of the table.\<close>

definition kill0 :: "ptable \<Rightarrow> u32 \<Rightarrow> kill_result" where
  "kill0 pt pid = (case pt pid of NoProcess \<Rightarrow> KillESRCH | _ \<Rightarrow> KillOk)"

text \<open>\<open>waitpid(pid, WNOHANG)\<close> for a child of the caller.\<close>

datatype wait_answer = WaitError | WaitNone | WaitGot wait_status

definition waitpid :: "ptable \<Rightarrow> u32 \<Rightarrow> wait_answer" where
  "waitpid pt pid = (case pt pid of NoProcess \<Rightarrow> WaitError | Running \<Rightarrow> WaitNone | Zombie s \<Rightarrow> WaitGot s)"

record process_handle =
  ph_pid :: u32
  ph_name :: string
  ph_executable :: string

definition invalid_handle :: process_handle where
  "invalid_handle = \<lparr>ph_pid = 0, ph_name = [], ph_executable = []\<rparr>"

definition handle_valid :: "process_handle \<Rightarrow> bool" where
  "handle_valid h \<longleftrightarrow> 0 < ph_pid h"

definition handle_alive :: "ptable \<Rightarrow> process_handle \<Rightarrow> bool" where
  "handle_alive pt h \<longleftrightarrow>
     (if \<not> handle_valid h then False else kill0 pt (ph_pid h) = KillOk \<or> kill0 pt (ph_pid h) \<noteq> KillESRCH)"

record wait_result =
  wr_exited :: bool
  wr_exit_code :: i32
  wr_signaled :: bool
  wr_signal :: i32

definition wait_default :: wait_result where
  "wait_default = \<lparr>wr_exited = False, wr_exit_code = 0, wr_signaled = False, wr_signal = 0\<rparr>"

text \<open>\<open>CString::new\<close> refuses an interior zero byte; \<open>posix_spawn\<close> answers a pid or an error.\<close>

definition cstring_ok :: "string \<Rightarrow> bool" where
  "cstring_ok s \<longleftrightarrow> NUL \<notin> set s"

definition spawn :: "u32 option \<Rightarrow> string \<Rightarrow> string \<Rightarrow> string list \<Rightarrow> process_handle" where
  "spawn posix_spawn name executable args =
     (let h = invalid_handle\<lparr>ph_name := name, ph_executable := executable\<rparr> in
      if \<not> cstring_ok executable then h
      else if \<not> list_all cstring_ok args then h
      else case posix_spawn of None \<Rightarrow> h | Some pid \<Rightarrow> h\<lparr>ph_pid := pid\<rparr>)"

definition spawn_simple :: "u32 option \<Rightarrow> string \<Rightarrow> string \<Rightarrow> process_handle" where
  "spawn_simple posix_spawn name executable = spawn posix_spawn name executable []"

definition wait_decode :: "wait_status \<Rightarrow> wait_result" where
  "wait_decode st = (case st of
     Exited c \<Rightarrow> wait_default\<lparr>wr_exited := True, wr_exit_code := c\<rparr>
   | Signaled s \<Rightarrow> wait_default\<lparr>wr_signaled := True, wr_signal := s\<rparr>)"

text \<open>The loop of \<open>wait_for_exit\<close>: at each iteration what \<open>waitpid\<close> answers and the time.\<close>

fun wait_loop :: "nat \<Rightarrow> u32 \<Rightarrow> (ptable \<times> nat) list \<Rightarrow> wait_result option" where
  "wait_loop deadline pid [] = None"
| "wait_loop deadline pid ((pt, now) # ws) =
     (case waitpid pt pid of
        WaitGot st \<Rightarrow> Some (wait_decode st)
      | WaitError \<Rightarrow> Some wait_default
      | WaitNone \<Rightarrow> if deadline \<le> now then Some wait_default else wait_loop deadline pid ws)"

definition wait_for_exit :: "process_handle \<Rightarrow> nat \<Rightarrow> nat \<Rightarrow> (ptable \<times> nat) list \<Rightarrow> wait_result option" where
  "wait_for_exit h timeout start ws =
     (if \<not> handle_valid h then Some wait_default else wait_loop (start + timeout) (ph_pid h) ws)"

text \<open>
  \<open>request_shutdown\<close> and \<open>force_kill\<close>: the signal they send and whether the call
  succeeded. \<open>shutdown\<close> gets what its two waits and the liveness test between
  them see, and answers the signals it sent with its result.
\<close>

datatype signal = SIGTERM | SIGKILL

definition request_shutdown :: "ptable \<Rightarrow> process_handle \<Rightarrow> signal list \<times> bool" where
  "request_shutdown pt h =
     (if \<not> handle_valid h then ([], False) else ([SIGTERM], kill0 pt (ph_pid h) = KillOk))"

definition force_kill :: "ptable \<Rightarrow> process_handle \<Rightarrow> signal list \<times> bool" where
  "force_kill pt h =
     (if \<not> handle_valid h then ([], False) else ([SIGKILL], kill0 pt (ph_pid h) = KillOk))"

record wait_view =
  wv_ptable :: ptable
  wv_start :: nat
  wv_polls :: "(ptable \<times> nat) list"

definition shutdown :: "process_handle \<Rightarrow> nat \<Rightarrow> wait_view \<Rightarrow> wait_view \<Rightarrow> (signal list \<times> wait_result) option" where
  "shutdown h grace v v' =
     (if \<not> handle_valid h then Some ([], wait_default)
      else let sent = fst (request_shutdown (wv_ptable v) h) in
        case wait_for_exit h grace (wv_start v) (wv_polls v) of
          None \<Rightarrow> None
        | Some r \<Rightarrow>
            if \<not> wr_exited r \<and> \<not> wr_signaled r \<and> handle_alive (wv_ptable v') h
            then map_option (\<lambda>r'. (sent @ fst (force_kill (wv_ptable v') h), r'))
                   (wait_for_exit h 1000 (wv_start v') (wv_polls v'))
            else Some (sent, r))"

section \<open>Groups\<close>

datatype instance_role = Primary | Standby | Dead

record managed_instance =
  mi_id :: nat
  mi_role :: instance_role
  mi_proc :: process_handle
  mi_entry :: service_entry
  mi_name :: string

record group_config =
  gc_service_name :: string
  gc_executable :: string
  gc_replicas :: nat
  gc_auto_respawn :: bool
  gc_spawn_timeout :: nat

text \<open>The registry is shared; its contents travel with the group that borrows it.\<close>

record service_group =
  sg_registry :: registry
  sg_config :: group_config
  sg_instances :: "managed_instance list"
  sg_primary_idx :: "nat option"

definition config_new :: "string \<Rightarrow> string \<Rightarrow> group_config" where
  "config_new service_name executable =
     \<lparr>gc_service_name = service_name, gc_executable = executable, gc_replicas = 2,
      gc_auto_respawn = True, gc_spawn_timeout = 5000\<rparr>"

definition instance_new :: "string \<Rightarrow> nat \<Rightarrow> managed_instance" where
  "instance_new service_name i =
     \<lparr>mi_id = i, mi_role = Dead, mi_proc = invalid_handle, mi_entry = entry_default,
      mi_name = service_name @ ''.'' @ dec i\<rparr>"

definition group_new :: "registry \<Rightarrow> group_config \<Rightarrow> service_group" where
  "group_new reg cfg =
     \<lparr>sg_registry = reg, sg_config = cfg,
      sg_instances = map (instance_new (gc_service_name cfg)) [0..<gc_replicas cfg],
      sg_primary_idx = None\<rparr>"

definition inst_alive :: "ptable \<Rightarrow> managed_instance \<Rightarrow> bool" where
  "inst_alive pt m \<longleftrightarrow> handle_alive pt (mi_proc m)"

definition set_inst :: "nat \<Rightarrow> managed_instance \<Rightarrow> service_group \<Rightarrow> service_group" where
  "set_inst i m g = g\<lparr>sg_instances := (sg_instances g)[i := m]\<rparr>"

text \<open>
  One spawn attempt: the process table at \<open>gc\<close>, what \<open>posix_spawn\<close> answers, the
  time, and for every iteration of the wait what other processes did to the
  registry since the last one, the process table and the time.
\<close>

record world =
  w_change :: "registry \<Rightarrow> registry"
  w_ptable :: ptable
  w_now :: nat

record attempt =
  at_ptable :: ptable
  at_spawn :: "u32 option"
  at_start :: nat
  at_worlds :: "world list"

fun spawn_wait ::
  "nat \<Rightarrow> string \<Rightarrow> process_handle \<Rightarrow> process_handle \<Rightarrow> registry \<Rightarrow> world list
   \<Rightarrow> (registry \<times> service_entry option) option" where
  "spawn_wait deadline name old h reg [] = None"
| "spawn_wait deadline name old h reg (w # ws) =
     (case find_service (kill0 (w_ptable w)) name (w_change w reg) of
        (reg', Some e) \<Rightarrow> Some (reg', Some e)
      | (reg', None) \<Rightarrow>
          if \<not> handle_alive (w_ptable w) old \<and> \<not> handle_alive (w_ptable w) h then Some (reg', None)
          else if deadline \<le> w_now w then Some (reg', None)
          else spawn_wait deadline name old h reg' ws)"

definition spawn_instance :: "nat \<Rightarrow> attempt \<Rightarrow> service_group \<Rightarrow> (service_group \<times> bool) option" where
  "spawn_instance i att g =
     (let reg = fst (gc (kill0 (at_ptable att)) (sg_registry g));
          g0 = g\<lparr>sg_registry := reg\<rparr>;
          inst = sg_instances g ! i;
          h = spawn (at_spawn att) (mi_name inst) (gc_executable (sg_config g)) [dec i] in
      if \<not> handle_valid h then Some (g0, False)
      else case spawn_wait (at_start att + gc_spawn_timeout (sg_config g)) (mi_name inst) (mi_proc inst) h reg (at_worlds att) of
        None \<Rightarrow> None
      | Some (reg', None) \<Rightarrow> Some (g\<lparr>sg_registry := reg'\<rparr>, False)
      | Some (reg', Some e) \<Rightarrow>
          Some (set_inst i (inst\<lparr>mi_proc := h, mi_entry := e, mi_role := Standby\<rparr>) (g\<lparr>sg_registry := reg'\<rparr>), True))"

text \<open>
  The looks at the processes: every liveness test of an instance is a system call of its own, at a time of its own. The process table that the test of
  instance \<open>i\<close> sees in the loop of \<open>health_check\<close>, in the search of \<open>elect_primary\<close> and in its inner loop.
\<close>

record looks =
  lk_mark :: "nat \<Rightarrow> ptable"
  lk_find :: "nat \<Rightarrow> ptable"
  lk_rest :: "nat \<Rightarrow> ptable"

text \<open>\<open>elect_primary\<close>: the first live instance leads, every other live one stands by.\<close>

definition elect_role :: "looks \<Rightarrow> nat \<Rightarrow> nat \<Rightarrow> managed_instance \<Rightarrow> managed_instance" where
  "elect_role lk i j m =
     (if j = i then m\<lparr>mi_role := Primary\<rparr>
      else if inst_alive (lk_rest lk j) m then m\<lparr>mi_role := Standby\<rparr> else m)"

definition first_alive :: "looks \<Rightarrow> managed_instance list \<Rightarrow> nat option" where
  "first_alive lk ms = List.find (\<lambda>i. inst_alive (lk_find lk i) (ms ! i)) [0..<length ms]"

definition elect_primary :: "looks \<Rightarrow> service_group \<Rightarrow> service_group \<times> bool" where
  "elect_primary lk g =
     (case first_alive lk (sg_instances g) of
        None \<Rightarrow> (g\<lparr>sg_primary_idx := None\<rparr>, False)
      | Some i \<Rightarrow>
          (g\<lparr>sg_primary_idx := Some i,
             sg_instances := map (\<lambda>j. elect_role lk i j (sg_instances g ! j)) [0..<length (sg_instances g)]\<rparr>, True))"

text \<open>\<open>respawn_dead\<close> and the loop of \<open>start\<close>, with the attempt each instance gets.\<close>

fun spawn_all :: "bool \<Rightarrow> (nat \<Rightarrow> attempt) \<Rightarrow> nat list \<Rightarrow> service_group \<Rightarrow> service_group option" where
  "spawn_all only_dead att [] g = Some g"
| "spawn_all only_dead att (i # is) g =
     (if only_dead \<and> mi_role (sg_instances g ! i) \<noteq> Dead then spawn_all only_dead att is g
      else case spawn_instance i (att i) g of
        None \<Rightarrow> None
      | Some (g', b) \<Rightarrow> spawn_all only_dead att is g')"

definition respawn_dead :: "(nat \<Rightarrow> attempt) \<Rightarrow> service_group \<Rightarrow> service_group option" where
  "respawn_dead att g = spawn_all True att [0..<length (sg_instances g)] g"

definition start_group :: "(nat \<Rightarrow> attempt) \<Rightarrow> looks \<Rightarrow> service_group \<Rightarrow> (service_group \<times> bool) option" where
  "start_group att lk g =
     map_option (elect_primary lk) (spawn_all False att [0..<length (sg_instances g)] g)"

text \<open>The loop of \<open>health_check\<close> over the instances, then election and respawning.\<close>

definition mark_dead :: "ptable \<Rightarrow> managed_instance \<Rightarrow> managed_instance" where
  "mark_dead pt m = (if mi_role m = Dead then m else if \<not> inst_alive pt m then m\<lparr>mi_role := Dead\<rparr> else m)"

definition mark_all :: "looks \<Rightarrow> managed_instance list \<Rightarrow> managed_instance list" where
  "mark_all lk ms = map (\<lambda>j. mark_dead (lk_mark lk j) (ms ! j)) [0..<length ms]"

definition failover_needed :: "looks \<Rightarrow> managed_instance list \<Rightarrow> bool" where
  "failover_needed lk ms \<longleftrightarrow>
     list_ex (\<lambda>j. mi_role (ms ! j) = Primary \<and> \<not> inst_alive (lk_mark lk j) (ms ! j)) [0..<length ms]"

definition maybe_respawn :: "(nat \<Rightarrow> attempt) \<Rightarrow> service_group \<Rightarrow> service_group option" where
  "maybe_respawn att g = (if gc_auto_respawn (sg_config g) then respawn_dead att g else Some g)"

definition health_check ::
  "looks \<Rightarrow> (nat \<Rightarrow> attempt) \<Rightarrow> service_group \<Rightarrow> (service_group \<times> bool) option" where
  "health_check lk att g =
     (let g1 = g\<lparr>sg_instances := mark_all lk (sg_instances g)\<rparr> in
      if failover_needed lk (sg_instances g)
      then map_option (\<lambda>g2. (g2, True)) (maybe_respawn att (fst (elect_primary lk g1)))
      else map_option (\<lambda>g2. (g2, False)) (maybe_respawn att g1))"

definition primary :: "service_group \<Rightarrow> managed_instance option" where
  "primary g =
     (case sg_primary_idx g of
        None \<Rightarrow> None
      | Some idx \<Rightarrow> let inst = sg_instances g ! idx in if mi_role inst = Primary then Some inst else None)"

definition alive_count :: "ptable \<Rightarrow> service_group \<Rightarrow> nat" where
  "alive_count pt g = length (filter (inst_alive pt) (sg_instances g))"

text \<open>\<open>stop\<close> with what the shutdown of each instance sees, and the signals it sent.\<close>

fun stop_loop ::
  "nat \<Rightarrow> (ptable \<times> wait_view \<times> wait_view) list \<Rightarrow> managed_instance list
   \<Rightarrow> (managed_instance list \<times> (u32 \<times> signal) list) option" where
  "stop_loop grace vs [] = Some ([], [])"
| "stop_loop grace [] (m # ms) = None"
| "stop_loop grace ((pt, v, v') # vs) (m # ms) =
     (case (if inst_alive pt m then map_option fst (shutdown (mi_proc m) grace v v') else Some []) of
        None \<Rightarrow> None
      | Some sent \<Rightarrow>
          map_option (\<lambda>(ms', out). (m\<lparr>mi_role := Dead\<rparr> # ms', map (Pair (ph_pid (mi_proc m))) sent @ out))
            (stop_loop grace vs ms))"

definition stop_group ::
  "nat \<Rightarrow> (ptable \<times> wait_view \<times> wait_view) list \<Rightarrow> service_group
   \<Rightarrow> (service_group \<times> (u32 \<times> signal) list) option" where
  "stop_group grace vs g =
     map_option (\<lambda>(ms, out). (g\<lparr>sg_instances := ms, sg_primary_idx := None\<rparr>, out))
       (stop_loop grace vs (sg_instances g))"

text \<open>\<open>force_failover\<close>: kill the primary and wait for it (\<open>v\<close>), then elect and respawn.\<close>

definition kill_primary :: "wait_view \<Rightarrow> service_group \<Rightarrow> (service_group \<times> signal list) option" where
  "kill_primary v g =
     (case sg_primary_idx g of
        None \<Rightarrow> Some (g, [])
      | Some idx \<Rightarrow>
          let inst = sg_instances g ! idx; g' = set_inst idx (inst\<lparr>mi_role := Dead\<rparr>) g in
          if inst_alive (wv_ptable v) inst
          then map_option (\<lambda>r. (g', fst (force_kill (wv_ptable v) (mi_proc inst))))
                 (wait_for_exit (mi_proc inst) 2000 (wv_start v) (wv_polls v))
          else Some (g', []))"

definition force_failover ::
  "wait_view \<Rightarrow> looks \<Rightarrow> (nat \<Rightarrow> attempt) \<Rightarrow> service_group \<Rightarrow> (service_group \<times> bool \<times> signal list) option" where
  "force_failover v lk att g =
     (case kill_primary v g of
        None \<Rightarrow> None
      | Some (g1, sent) \<Rightarrow>
          (case elect_primary lk g1 of (g2, ok) \<Rightarrow> map_option (\<lambda>g3. (g3, ok, sent)) (maybe_respawn att g2)))"

section \<open>Lemmas\<close>

lemma waitpid_none: "waitpid pt pid = WaitNone \<longleftrightarrow> pt pid = Running"
  by (simp add: waitpid_def split: pstate.split)

text \<open>A loop ends at the latest at the first iteration that sees the deadline passed.\<close>

lemma wait_loop_returns:
  "(pt, now) \<in> set ws \<Longrightarrow> deadline \<le> now \<Longrightarrow> \<exists>r. wait_loop deadline pid ws = Some r"
  by (induction ws) (auto split: wait_answer.split)

lemma spawn_wait_returns:
  "w \<in> set ws \<Longrightarrow> deadline \<le> w_now w \<Longrightarrow> \<exists>r. spawn_wait deadline name old h reg ws = Some r"
  by (induction ws arbitrary: reg) (auto split: prod.split option.split)

lemma handle_alive_iff: "handle_alive pt h \<longleftrightarrow> 0 < ph_pid h \<and> pt (ph_pid h) \<noteq> NoProcess"
  by (auto simp: handle_alive_def handle_valid_def kill0_def split: pstate.splits)

text \<open>What spawning may change: dead instances (or any, at the start) become standby ones.\<close>

definition respawned :: "bool \<Rightarrow> service_group \<Rightarrow> service_group \<Rightarrow> bool" where
  "respawned only_dead g g' \<longleftrightarrow>
     sg_primary_idx g' = sg_primary_idx g \<and> sg_config g' = sg_config g
     \<and> length (sg_instances g') = length (sg_instances g)
     \<and> (\<forall>j < length (sg_instances g).
          sg_instances g' ! j = sg_instances g ! j
          \<or> (only_dead \<longrightarrow> mi_role (sg_instances g ! j) = Dead) \<and> mi_role (sg_instances g' ! j) = Standby)"

lemma respawned_refl: "respawned b g g"
  by (simp add: respawned_def)

lemma respawned_trans: "respawned b g g' \<Longrightarrow> respawned b g' g'' \<Longrightarrow> respawned b g g''"
  unfolding respawned_def by (metis instance_role.distinct(6))

lemma spawn_instance_respawned:
  assumes "spawn_instance i att g = Some (g', b)" "i < length (sg_instances g)"
    "only \<longrightarrow> mi_role (sg_instances g ! i) = Dead"
  shows "respawned only g g'"
  using assms
  by (auto simp: spawn_instance_def respawned_def set_inst_def Let_def nth_list_update
      split: if_splits option.splits prod.splits)

lemma spawn_all_respawned:
  assumes "spawn_all only att is g = Some g'" "set is \<subseteq> {..<length (sg_instances g)}"
  shows "respawned only g g'"
  using assms
proof (induction "only" att "is" g rule: spawn_all.induct)
  case (2 only att i "is" g)
  show ?case
  proof (cases "only \<and> mi_role (sg_instances g ! i) \<noteq> Dead")
    case True
    then show ?thesis using 2 by simp
  next
    case False
    then obtain g1 b where g1: "spawn_instance i (att i) g = Some (g1, b)" "spawn_all only att is g1 = Some g'"
      using "2.prems" by (auto split: option.splits)
    have r: "respawned only g g1"
      using spawn_instance_respawned [OF g1(1)] "2.prems"(2) False by auto
    moreover have "respawned only g1 g'"
      using "2.IH"(2) [OF False g1(1) refl g1(2)] "2.prems"(2) r by (simp add: respawned_def)
    ultimately show ?thesis by (rule respawned_trans)
  qed
qed (simp add: respawned_refl)

lemma maybe_respawn_respawned: "maybe_respawn att g = Some g' \<Longrightarrow> respawned True g g'"
  by (auto simp: maybe_respawn_def respawn_dead_def respawned_refl lessThan_atLeast0
      intro: spawn_all_respawned split: if_splits)

lemma first_alive_Some:
  "first_alive lk ms = Some i \<longleftrightarrow> i < length ms \<and> inst_alive (lk_find lk i) (ms ! i) \<and> (\<forall>j<i. \<not> inst_alive (lk_find lk j) (ms ! j))"
  by (auto simp: first_alive_def find_Some_iff)

lemma first_alive_None: "first_alive lk ms = None \<longleftrightarrow> (\<forall>j < length ms. \<not> inst_alive (lk_find lk j) (ms ! j))"
  by (auto simp: first_alive_def find_None_iff)

lemma elect_role_sel [simp]:
  "mi_proc (elect_role lk i j m) = mi_proc m"
  "mi_role (elect_role lk i j m) = (if j = i then Primary else if inst_alive (lk_rest lk j) m then Standby else mi_role m)"
  by (simp_all add: elect_role_def)

lemma mark_dead_sel [simp]:
  "mi_proc (mark_dead pt m) = mi_proc m"
  "mi_role (mark_dead pt m) = (if inst_alive pt m then mi_role m else Dead)"
  by (simp_all add: mark_dead_def)

lemma mark_all_sel [simp]:
  "length (mark_all lk ms) = length ms"
  "j < length ms \<Longrightarrow> mark_all lk ms ! j = mark_dead (lk_mark lk j) (ms ! j)"
  by (simp_all add: mark_all_def)

lemma failover_needed_conv:
  "failover_needed lk ms \<longleftrightarrow> (\<exists>j < length ms. mi_role (ms ! j) = Primary \<and> \<not> inst_alive (lk_mark lk j) (ms ! j))"
  by (auto simp: failover_needed_def list_ex_iff)

section \<open>At most one primary\<close>

definition group_ok :: "service_group \<Rightarrow> bool" where
  "group_ok g \<longleftrightarrow>
     (\<forall>i < length (sg_instances g). mi_role (sg_instances g ! i) = Primary \<longrightarrow> sg_primary_idx g = Some i)
     \<and> (\<forall>i. sg_primary_idx g = Some i \<longrightarrow> i < length (sg_instances g))"

definition no_primary :: "service_group \<Rightarrow> bool" where
  "no_primary g \<longleftrightarrow> (\<forall>m \<in> set (sg_instances g). mi_role m \<noteq> Primary)"

lemma group_okD:
  "group_ok g \<Longrightarrow> i < length (sg_instances g) \<Longrightarrow> mi_role (sg_instances g ! i) = Primary \<Longrightarrow> sg_primary_idx g = Some i"
  "group_ok g \<Longrightarrow> sg_primary_idx g = Some i \<Longrightarrow> i < length (sg_instances g)"
  unfolding group_ok_def by blast+

lemma group_okI:
  "(\<And>i. i < length (sg_instances g) \<Longrightarrow> mi_role (sg_instances g ! i) = Primary \<Longrightarrow> sg_primary_idx g = Some i) \<Longrightarrow>
   (\<And>i. sg_primary_idx g = Some i \<Longrightarrow> i < length (sg_instances g)) \<Longrightarrow> group_ok g"
  unfolding group_ok_def by blast

lemma no_primaryD: "no_primary g \<Longrightarrow> i < length (sg_instances g) \<Longrightarrow> mi_role (sg_instances g ! i) \<noteq> Primary"
  by (simp add: no_primary_def)

lemma respawned_ok: "respawned b g g' \<Longrightarrow> group_ok g \<Longrightarrow> group_ok g'"
  unfolding respawned_def group_ok_def by (metis instance_role.distinct(1))

lemma respawned_no_primary: "respawned b g g' \<Longrightarrow> no_primary g \<Longrightarrow> no_primary g'"
  unfolding respawned_def no_primary_def all_set_conv_all_nth by (metis instance_role.distinct(1))

text \<open>An election keeps the invariant when no instance has the role of the primary any more.\<close>

lemma elect_no_primary_ok:
  assumes "no_primary g"
  shows "group_ok (fst (elect_primary lk g))"
proof (cases "first_alive lk (sg_instances g)")
  case None
  then have "fst (elect_primary lk g) = g\<lparr>sg_primary_idx := None\<rparr>" by (simp add: elect_primary_def)
  then show ?thesis using no_primaryD [OF assms] by (auto simp: group_ok_def)
next
  case (Some i)
  then have "fst (elect_primary lk g) = g\<lparr>sg_primary_idx := Some i,
      sg_instances := map (\<lambda>j. elect_role lk i j (sg_instances g ! j)) [0..<length (sg_instances g)]\<rparr>"
    by (simp add: elect_primary_def)
  then show ?thesis using Some no_primaryD [OF assms] by (auto simp: group_ok_def first_alive_Some split: if_splits)
qed

lemma marked_ok: "group_ok g \<Longrightarrow> group_ok (g\<lparr>sg_instances := mark_all lk (sg_instances g)\<rparr>)"
  by (rule group_okI) (auto intro: group_okD split: if_splits)

text \<open>The one primary that is found dead loses its role.\<close>

lemma marked_no_primary:
  assumes "group_ok g" "failover_needed lk (sg_instances g)"
  shows "no_primary (g\<lparr>sg_instances := mark_all lk (sg_instances g)\<rparr>)"
proof -
  obtain i where i: "i < length (sg_instances g)" "mi_role (sg_instances g ! i) = Primary" "\<not> inst_alive (lk_mark lk i) (sg_instances g ! i)"
    using assms(2) by (auto simp: failover_needed_conv)
  have "mi_role (sg_instances g ! j) \<noteq> Primary" if "j < length (sg_instances g)" "j \<noteq> i" for j
    using group_okD(1) [OF assms(1) that(1)] group_okD(1) [OF assms(1) i(1,2)] that(2) by auto
  then have "mi_role (mark_dead (lk_mark lk j) (sg_instances g ! j)) \<noteq> Primary" if "j < length (sg_instances g)" for j
    using that i(3) by (cases "j = i") auto
  then show ?thesis by (simp add: no_primary_def all_set_conv_all_nth)
qed

lemma health_check_ok:
  assumes "health_check lk att g = Some (g', b)" "group_ok g"
  shows "group_ok g'"
  using assms(1) marked_ok [OF assms(2), of lk] elect_no_primary_ok [OF marked_no_primary [OF assms(2)]]
  by (auto simp: health_check_def Let_def dest!: maybe_respawn_respawned intro: respawned_ok split: if_splits)

lemma kill_primary_no_primary:
  assumes "kill_primary v g = Some (g', sent)" "group_ok g"
  shows "no_primary g'"
proof (cases "sg_primary_idx g")
  case None
  then have "g' = g" using assms(1) by (simp add: kill_primary_def)
  then show ?thesis using None group_okD(1) [OF assms(2)] by (auto simp: no_primary_def in_set_conv_nth)
next
  case (Some i)
  then have g': "g' = set_inst i ((sg_instances g ! i)\<lparr>mi_role := Dead\<rparr>) g"
    using assms(1) by (auto simp: kill_primary_def Let_def split: if_splits)
  have "mi_role (sg_instances g ! j) \<noteq> Primary" if "j < length (sg_instances g)" "j \<noteq> i" for j
    using group_okD(1) [OF assms(2) that(1)] Some that(2) by auto
  then show ?thesis unfolding g' no_primary_def all_set_conv_all_nth
    using group_okD(2) [OF assms(2) Some] by (simp add: set_inst_def nth_list_update)
qed

lemma force_failover_ok:
  assumes "force_failover v lk att g = Some (g', r)" "group_ok g"
  shows "group_ok g'"
proof -
  obtain g1 sent g2 ok where g: "kill_primary v g = Some (g1, sent)" "elect_primary lk g1 = (g2, ok)"
    "maybe_respawn att g2 = Some g'"
    using assms(1) by (auto simp: force_failover_def split: option.splits prod.splits)
  have "group_ok g2"
    using elect_no_primary_ok [OF kill_primary_no_primary [OF g(1) assms(2)], of lk] g(2) by simp
  then show ?thesis using g(3) by (blast intro: respawned_ok maybe_respawn_respawned)
qed

lemma start_group_ok:
  assumes "start_group att lk g = Some (g', b)" "no_primary g"
  shows "group_ok g'"
proof -
  obtain g1 where g1: "spawn_all False att [0..<length (sg_instances g)] g = Some g1" "elect_primary lk g1 = (g', b)"
    using assms(1) by (auto simp: start_group_def)
  have "no_primary g1"
    using spawn_all_respawned [OF g1(1)] assms(2) by (auto simp: lessThan_atLeast0 intro: respawned_no_primary)
  then show ?thesis using elect_no_primary_ok [of g1 lk] g1(2) by simp
qed

lemma stop_loop_dead: "stop_loop grace vs ms = Some (ms', out) \<Longrightarrow> \<forall>m \<in> set ms'. mi_role m = Dead"
  by (induction grace vs ms arbitrary: ms' out rule: stop_loop.induct) (auto split: option.splits)

lemma stop_group_ok: "stop_group grace vs g = Some (g', out) \<Longrightarrow> group_ok g'"
  by (auto simp: stop_group_def group_ok_def dest!: stop_loop_dead)

lemma group_new_no_primary: "no_primary (group_new reg cfg)"
  by (auto simp: group_new_def no_primary_def instance_new_def)

lemma group_new_ok: "group_ok (group_new reg cfg)"
  by (auto simp: group_new_def group_ok_def instance_new_def)

text \<open>
  The life of a group: calls in any order, whatever the processes do meanwhile. In an orderly life \<open>start\<close> is only called while \<open>primary\<close> answers
  \<open>None\<close>; the code does not ask for that.
\<close>

datatype group_call = Call_Start | Call_Health | Call_Failover | Call_Stop

inductive group_step :: "group_call \<Rightarrow> service_group \<Rightarrow> service_group \<Rightarrow> bool" where
  gs_start: "start_group att lk g = Some (g', b) \<Longrightarrow> group_step Call_Start g g'"
| gs_health: "health_check lk att g = Some (g', b) \<Longrightarrow> group_step Call_Health g g'"
| gs_failover: "force_failover v lk att g = Some (g', r) \<Longrightarrow> group_step Call_Failover g g'"
| gs_stop: "stop_group grace vs g = Some (g', out) \<Longrightarrow> group_step Call_Stop g g'"

definition orderly_step :: "service_group \<Rightarrow> service_group \<Rightarrow> bool" where
  "orderly_step g g' \<longleftrightarrow> (\<exists>c. group_step c g g' \<and> (c = Call_Start \<longrightarrow> primary g = None))"

lemma filter_unique:
  "i < length xs \<Longrightarrow> P (xs ! i) \<Longrightarrow> (\<forall>j < length xs. P (xs ! j) \<longrightarrow> j = i) \<Longrightarrow> filter P xs = [xs ! i]"
proof (induction xs arbitrary: i)
  case (Cons x xs)
  show ?case
  proof (cases i)
    case 0
    have "\<not> P (xs ! k)" if "k < length xs" for k using spec [OF Cons.prems(3), of "Suc k"] that 0 by auto
    then have "\<forall>y \<in> set xs. \<not> P y" by (simp add: all_set_conv_all_nth)
    then show ?thesis using 0 Cons.prems(2) by simp
  next
    case (Suc k)
    have k: "k < length xs" "P (xs ! k)" using Cons.prems(1,2) Suc by simp_all
    have "\<not> P x" using spec [OF Cons.prems(3), of 0] Suc by auto
    moreover have "\<forall>j < length xs. P (xs ! j) \<longrightarrow> j = k"
    proof (intro allI impI)
      show "j = k" if "j < length xs" "P (xs ! j)" for j using spec [OF Cons.prems(3), of "Suc j"] that Suc by simp
    qed
    then have "filter P xs = [xs ! k]" using k by (intro Cons.IH)
    ultimately show ?thesis using Suc by simp
  qed
qed simp

lemma group_ok_primary:
  assumes "group_ok g"
  shows "filter (\<lambda>m. mi_role m = Primary) (sg_instances g) = (case primary g of None \<Rightarrow> [] | Some m \<Rightarrow> [m])"
proof (cases "no_primary g")
  case True
  then have "primary g = None"
    using group_okD(2) [OF assms] no_primaryD [OF True]
    by (cases "sg_primary_idx g") (simp_all add: primary_def)
  then show ?thesis using True by (simp add: no_primary_def)
next
  case False
  then obtain i where i: "i < length (sg_instances g)" "mi_role (sg_instances g ! i) = Primary"
    by (auto simp: no_primary_def in_set_conv_nth)
  have p: "sg_primary_idx g = Some i" by (rule group_okD(1) [OF assms i])
  have "primary g = Some (sg_instances g ! i)" using i p by (simp add: primary_def)
  moreover have "\<forall>j < length (sg_instances g). mi_role (sg_instances g ! j) = Primary \<longrightarrow> j = i"
    using group_okD(1) [OF assms] p by (metis option.inject)
  then have "filter (\<lambda>m. mi_role m = Primary) (sg_instances g) = [sg_instances g ! i]"
    using i by (intro filter_unique)
  ultimately show ?thesis by simp
qed

lemma primary_None: "group_ok g \<Longrightarrow> primary g = None \<Longrightarrow> no_primary g"
  using group_ok_primary [of g] by (auto simp: no_primary_def filter_empty_conv)

lemma orderly_step_ok:
  assumes "orderly_step g g'" "group_ok g"
  shows "group_ok g'"
proof -
  obtain c where c: "group_step c g g'" "c = Call_Start \<longrightarrow> primary g = None" using assms(1) by (auto simp: orderly_step_def)
  show ?thesis
    using c(1)
  proof cases
    case gs_start
    then show ?thesis using start_group_ok primary_None [OF assms(2)] c(2) by blast
  qed (use assms(2) in \<open>auto intro: health_check_ok force_failover_ok stop_group_ok\<close>)
qed

interpretation service_group: invariant_system "group_new reg cfg" orderly_step group_ok
  by unfold_locales (auto intro: group_new_ok orderly_step_ok)

section \<open>Failover\<close>

lemma respawned_primary: "respawned True g g' \<Longrightarrow> group_ok g \<Longrightarrow> primary g' = primary g"
proof (cases "sg_primary_idx g")
  case (Some i)
  assume r: "respawned True g g'" and g: "group_ok g"
  have i: "i < length (sg_instances g)" by (rule group_okD(2) [OF g Some])
  have "sg_instances g' ! i = sg_instances g ! i
    \<or> mi_role (sg_instances g ! i) = Dead \<and> mi_role (sg_instances g' ! i) = Standby" "sg_primary_idx g' = Some i"
    using r i Some by (auto simp: respawned_def)
  then show ?thesis using Some by (auto simp: primary_def Let_def)
qed (simp add: respawned_def primary_def)

lemma elect_primary_primary:
  "map_option mi_proc (primary (fst (elect_primary lk g))) = map_option (\<lambda>i. mi_proc (sg_instances g ! i)) (first_alive lk (sg_instances g))"
proof (cases "first_alive lk (sg_instances g)")
  case None
  then show ?thesis by (simp add: elect_primary_def primary_def)
next
  case (Some i)
  then have i: "i < length (sg_instances g)" by (simp add: first_alive_Some)
  then have "primary (fst (elect_primary lk g)) = Some (elect_role lk i i (sg_instances g ! i))"
    using Some by (simp add: elect_primary_def primary_def)
  then show ?thesis using Some by simp
qed

lemma first_alive_mark [simp]: "first_alive lk (mark_all lk ms) = first_alive lk ms"
  unfolding first_alive_def by (rule find_cong) (simp_all add: inst_alive_def)

lemma failover_needed_iff:
  assumes "group_ok g"
  shows "failover_needed lk (sg_instances g) \<longleftrightarrow>
    (\<exists>i m. sg_primary_idx g = Some i \<and> primary g = Some m \<and> \<not> inst_alive (lk_mark lk i) m)"
proof
  assume "failover_needed lk (sg_instances g)"
  then obtain i where i: "i < length (sg_instances g)" "mi_role (sg_instances g ! i) = Primary" "\<not> inst_alive (lk_mark lk i) (sg_instances g ! i)"
    by (auto simp: failover_needed_conv)
  then show "\<exists>i m. sg_primary_idx g = Some i \<and> primary g = Some m \<and> \<not> inst_alive (lk_mark lk i) m"
    using group_okD(1) [OF assms i(1,2)] by (simp add: primary_def)
next
  assume "\<exists>i m. sg_primary_idx g = Some i \<and> primary g = Some m \<and> \<not> inst_alive (lk_mark lk i) m"
  then show "failover_needed lk (sg_instances g)"
    using group_okD(2) [OF assms] by (auto simp: failover_needed_conv primary_def Let_def split: if_splits)
qed

lemma mark_dead_primary:
  assumes "group_ok g" "\<not> failover_needed lk (sg_instances g)"
  shows "primary (g\<lparr>sg_instances := mark_all lk (sg_instances g)\<rparr>) = primary g"
proof (cases "sg_primary_idx g")
  case (Some i)
  have i: "i < length (sg_instances g)" by (rule group_okD(2) [OF assms(1) Some])
  then have "mi_role (sg_instances g ! i) = Primary \<Longrightarrow> inst_alive (lk_mark lk i) (sg_instances g ! i)"
    using assms(2) by (auto simp: failover_needed_conv)
  then show ?thesis using Some i by (auto simp: primary_def Let_def mark_dead_def)
qed (simp add: primary_def)

lemma health_check_primary:
  assumes g: "group_ok g" and h: "health_check lk att g = Some (g', b)"
  shows "b \<longleftrightarrow> (\<exists>i m. sg_primary_idx g = Some i \<and> primary g = Some m \<and> \<not> inst_alive (lk_mark lk i) m)"
    and "b \<Longrightarrow> map_option mi_proc (primary g') = map_option (\<lambda>i. mi_proc (sg_instances g ! i)) (first_alive lk (sg_instances g))"
    and "\<not> b \<Longrightarrow> primary g' = primary g"
proof -
  let ?g1 = "g\<lparr>sg_instances := mark_all lk (sg_instances g)\<rparr>"
  have b: "b = failover_needed lk (sg_instances g)"
    using h by (auto simp: health_check_def Let_def split: if_splits)
  then show "b \<longleftrightarrow> (\<exists>i m. sg_primary_idx g = Some i \<and> primary g = Some m \<and> \<not> inst_alive (lk_mark lk i) m)"
    using failover_needed_iff [OF g] by simp
  show "map_option mi_proc (primary g') = map_option (\<lambda>i. mi_proc (sg_instances g ! i)) (first_alive lk (sg_instances g))" if b
  proof -
    have ok: "group_ok (fst (elect_primary lk ?g1))" using that b by (intro elect_no_primary_ok marked_no_primary [OF g]) simp
    have "maybe_respawn att (fst (elect_primary lk ?g1)) = Some g'"
      using h b that by (auto simp: health_check_def Let_def)
    then have "primary g' = primary (fst (elect_primary lk ?g1))"
      by (intro respawned_primary [OF _ ok] maybe_respawn_respawned)
    then have "map_option mi_proc (primary g') = map_option (\<lambda>i. mi_proc (sg_instances ?g1 ! i)) (first_alive lk (sg_instances g))"
      using elect_primary_primary [of lk ?g1] by simp
    moreover have "mi_proc (sg_instances ?g1 ! i) = mi_proc (sg_instances g ! i)" if "first_alive lk (sg_instances g) = Some i" for i
      using that by (simp add: first_alive_Some)
    ultimately show ?thesis by (cases "first_alive lk (sg_instances g)") simp_all
  qed
  show "primary g' = primary g" if "\<not> b"
  proof -
    have "maybe_respawn att ?g1 = Some g'" using h b that by (auto simp: health_check_def Let_def)
    then have "primary g' = primary ?g1"
      by (intro respawned_primary [OF _ marked_ok [OF g]] maybe_respawn_respawned)
    then show ?thesis using mark_dead_primary [OF g] b that by simp
  qed
qed

text \<open>A group that lost its primary while no instance was alive.\<close>

definition headless :: "service_group \<Rightarrow> bool" where
  "headless g \<longleftrightarrow> no_primary g \<and> sg_primary_idx g = None"

lemma headless_primary: "headless g \<Longrightarrow> primary g = None"
  by (simp add: headless_def primary_def)

lemma respawned_headless: "respawned b g g' \<Longrightarrow> headless g \<Longrightarrow> headless g'"
  unfolding headless_def by (metis respawned_no_primary respawned_def)

lemma marked_headless: "headless g \<Longrightarrow> headless (g\<lparr>sg_instances := mark_all lk (sg_instances g)\<rparr>)"
  by (auto simp: headless_def no_primary_def mark_all_def)

lemma health_check_headless:
  assumes "headless g" "health_check lk att g = Some (g', b)"
  shows "headless g' \<and> \<not> b"
proof -
  have "\<not> failover_needed lk (sg_instances g)"
    using assms(1) by (auto simp: headless_def no_primary_def failover_needed_conv)
  then have b: "\<not> b" "maybe_respawn att (g\<lparr>sg_instances := mark_all lk (sg_instances g)\<rparr>) = Some g'"
    using assms(2) by (auto simp: health_check_def Let_def)
  then show ?thesis using respawned_headless [OF maybe_respawn_respawned [OF b(2)] marked_headless [OF assms(1)]] by simp
qed

text \<open>Any number of further health checks.\<close>

fun health_run :: "(looks \<times> (nat \<Rightarrow> attempt)) list \<Rightarrow> service_group \<Rightarrow> service_group option" where
  "health_run [] g = Some g"
| "health_run ((lk, att) # hs) g =
     (case health_check lk att g of None \<Rightarrow> None | Some (g', b) \<Rightarrow> health_run hs g')"

lemma health_run_headless: "health_run hs g = Some g' \<Longrightarrow> headless g \<Longrightarrow> headless g'"
  by (induction hs g arbitrary: g' rule: health_run.induct)
    (auto split: option.splits dest: health_check_headless)

text \<open>Looks that all see the same processes.\<close>

definition seen :: "ptable \<Rightarrow> looks" where
  "seen pt = \<lparr>lk_mark = (\<lambda>_. pt), lk_find = (\<lambda>_. pt), lk_rest = (\<lambda>_. pt)\<rparr>"

lemma health_check_all_dead:
  assumes "group_ok g" "primary g \<noteq> None" "alive_count pt g = 0" "health_check (seen pt) att g = Some (g', b)"
  shows "headless g'"
proof -
  let ?g1 = "g\<lparr>sg_instances := mark_all (seen pt) (sg_instances g)\<rparr>"
  have a: "\<forall>m \<in> set (sg_instances g). \<not> inst_alive pt m"
    using assms(3) by (auto simp: alive_count_def filter_empty_conv)
  then have f: "first_alive (seen pt) (sg_instances g) = None" by (simp add: first_alive_None seen_def)
  obtain i m where m: "sg_primary_idx g = Some i" "primary g = Some m" "m = sg_instances g ! i"
    using assms(2) by (auto simp: primary_def Let_def split: option.splits if_splits)
  then have "m \<in> set (sg_instances g)" using group_okD(2) [OF assms(1)] by simp
  then have n: "failover_needed (seen pt) (sg_instances g)"
    using failover_needed_iff [OF assms(1), of "seen pt"] m a by (simp add: seen_def)
  then have "maybe_respawn att (fst (elect_primary (seen pt) ?g1)) = Some g'"
    using assms(4) by (auto simp: health_check_def Let_def)
  moreover have "headless (fst (elect_primary (seen pt) ?g1))"
    using f marked_no_primary [OF assms(1) n] by (auto simp: elect_primary_def headless_def no_primary_def)
  ultimately show ?thesis by (blast intro: respawned_headless maybe_respawn_respawned)
qed

section \<open>Properties\<close>


text \<open>A group of two instances that register at once, and what may become of it.\<close>

definition two_new :: service_group where "two_new = group_new registry_zero (config_new ''s'' ''x'')"

definition two_att :: "ptable \<Rightarrow> u32 \<Rightarrow> u32 \<Rightarrow> nat \<Rightarrow> attempt" where
  "two_att pt p0 p1 i = (let pid = (if i = 0 then p0 else p1); name = (if i = 0 then ''s.0'' else ''s.1'') in
     \<lparr>at_ptable = pt, at_spawn = Some pid, at_start = 0,
      at_worlds = [\<lparr>w_change = (\<lambda>r. fst (register_service_as (kill0 pt) 0 name ''c'' ''r'' pid r)),
        w_ptable = pt, w_now = 0\<rparr>]\<rparr>)"

text \<open>The first instance cannot be started again; the second one registers.\<close>

definition half_att :: "u32 \<Rightarrow> nat \<Rightarrow> attempt" where
  "half_att p1 i = (two_att (\<lambda>pid. if pid = 7 then NoProcess else Running) 7 p1 i)\<lparr>at_spawn := if i = 0 then None else Some p1\<rparr>"

definition all_run :: ptable where "all_run pid = Running"
definition first_gone :: ptable where "first_gone pid = (if pid = 7 then NoProcess else Running)"
definition first_zombie :: ptable where "first_zombie pid = (if pid = 7 then Zombie (Signaled 9) else Running)"
definition all_gone :: ptable where "all_gone pid = NoProcess"
definition new_run :: ptable where "new_run pid = (if pid = 9 \<or> pid = 10 then Running else NoProcess)"

definition two_start :: "(service_group \<times> bool) option" where
  "two_start = start_group (two_att all_run 7 8) (seen all_run) two_new"

lemma two_start_orderly: "two_start = Some (g, r) \<Longrightarrow> rtranclp orderly_step two_new g"
proof (rule r_into_rtranclp)
  have "primary two_new = None" by (simp add: two_new_def group_new_def primary_def)
  then show "orderly_step two_new g" if "two_start = Some (g, r)"
    using that by (auto simp: two_start_def orderly_step_def intro: gs_start)
qed

definition pids :: "service_group \<Rightarrow> u32 list" where "pids g = map (\<lambda>m. ph_pid (mi_proc m)) (sg_instances g)"

lemma two_runs:
  "case two_start of None \<Rightarrow> False | Some (g, r) \<Rightarrow>
     map mi_role (sg_instances g) = [Primary, Standby] \<and> pids g = [7, 8] \<and> alive_count all_gone g = 0
     \<and> (case health_check (seen first_gone) (two_att first_gone 9 10) g of None \<Rightarrow> False
        | Some (g', b) \<Rightarrow> b \<and> map mi_role (sg_instances g') = [Standby, Primary] \<and> pids g' = [9, 8])
     \<and> (case health_check (seen first_zombie) (two_att first_zombie 9 10) g of None \<Rightarrow> False | Some (g', b) \<Rightarrow> True)
     \<and> (case health_check (seen all_gone) (two_att new_run 9 10) g of None \<Rightarrow> False
        | Some (g', b) \<Rightarrow>
          (case health_run [(seen new_run, two_att new_run 9 10)] g' of None \<Rightarrow> False
           | Some g'' \<Rightarrow> pids g'' = [9, 10] \<and> alive_count new_run g'' = 2))"
  by code_simp

lemma two_startE:
  obtains g where "rtranclp orderly_step two_new g"
    "map mi_role (sg_instances g) = [Primary, Standby]" "pids g = [7, 8]" "alive_count all_gone g = 0"
    "\<exists>g'. health_check (seen first_gone) (two_att first_gone 9 10) g = Some (g', True)
      \<and> map mi_role (sg_instances g') = [Standby, Primary] \<and> pids g' = [9, 8]"
    "\<exists>g' b. health_check (seen first_zombie) (two_att first_zombie 9 10) g = Some (g', b)"
    "\<exists>g' b g''. health_check (seen all_gone) (two_att new_run 9 10) g = Some (g', b)
      \<and> health_run [(seen new_run, two_att new_run 9 10)] g' = Some g''
      \<and> pids g'' = [9, 10] \<and> alive_count new_run g'' = 2"
proof -
  obtain g r where g: "two_start = Some (g, r)" using two_runs by (auto split: option.splits)
  show thesis using two_start_orderly [OF g] that [of g] two_runs [unfolded g] by (auto split: option.splits prod.splits)
qed


text \<open>
  A \<open>start\<close> on a running group breaks this. In a run, the primary's process dies, \<open>start\<close> cannot spawn it again and elects the other instance, and both
  have the role of the primary. The next health check then reports a failover, although the process of the instance that \<open>primary\<close> answers is alive.
\<close>

definition two_lead :: "service_group \<Rightarrow> bool" where
  "two_lead g \<longleftrightarrow> map mi_role (sg_instances g) = [Primary, Primary] \<and> map_option mi_id (primary g) = Some 1
     \<and> map_option snd (health_check (seen first_gone) (half_att 8) g) = Some True"

theorem restart_two_primaries:
  "\<exists>g g'. rtranclp orderly_step two_new g \<and> group_step Call_Start g g' \<and> map mi_role (sg_instances g') = [Primary, Primary]
     \<and> map_option mi_id (primary g') = Some 1 \<and> map_option snd (health_check (seen first_gone) (half_att 8) g') = Some True"
proof -
  have "case two_start of None \<Rightarrow> False | Some (g, r) \<Rightarrow>
    (case start_group (half_att 8) (seen first_gone) g of None \<Rightarrow> False | Some (g', b) \<Rightarrow> two_lead g')"
    by code_simp
  then obtain g r g' b where g: "two_start = Some (g, r)" "start_group (half_att 8) (seen first_gone) g = Some (g', b)" "two_lead g'"
    by (auto split: option.splits)
  have "group_step Call_Start g g'" using g(2) by (rule gs_start)
  then show ?thesis
    using two_start_orderly [OF g(1)] g(3) unfolding two_lead_def by (intro exI [of _ g] exI [of _ g'] conjI) simp_all
qed



text \<open>
  Once a health check finds the primary gone while no instance is alive, no later
  health check elects one: the respawned instances are all on standby, whatever their
  number and however often the group is checked.
\<close>

theorem group_stays_headless:
  assumes "rtranclp orderly_step (group_new reg cfg) g" "primary g \<noteq> None" "alive_count pt g = 0"
    "health_check (seen pt) att g = Some (g1, b)" "health_run hs g1 = Some g'"
  shows "primary g' = None"
  using health_run_headless [OF assms(5)] headless_primary
    health_check_all_dead [OF service_group.reachable_inv [OF assms(1)] assms(2-4)] by blast

lemma primary_of_roles:
  "rtranclp orderly_step two_new g \<Longrightarrow> map mi_role (sg_instances g) = [Primary, Standby] \<Longrightarrow>
   primary g = Some (sg_instances g ! 0)"
proof -
  assume g: "rtranclp orderly_step two_new g" and r: "map mi_role (sg_instances g) = [Primary, Standby]"
  then obtain m m' where m: "sg_instances g = [m, m']" "mi_role m = Primary" "mi_role m' = Standby" by auto
  show ?thesis
    using group_ok_primary [OF service_group.reachable_inv [OF g [unfolded two_new_def]]] m
    by (auto split: option.splits)
qed

theorem group_stays_headless_witness:
  "\<exists>g g1 b g'. rtranclp orderly_step two_new g \<and> primary g \<noteq> None
     \<and> health_check (seen all_gone) (two_att new_run 9 10) g = Some (g1, b)
     \<and> health_run [(seen new_run, two_att new_run 9 10)] g1 = Some g'
     \<and> alive_count new_run g' = 2 \<and> primary g' = None"
proof -
  obtain g where g: "rtranclp orderly_step two_new g" "map mi_role (sg_instances g) = [Primary, Standby]"
    "alive_count all_gone g = 0"
    "\<exists>g' b g''. health_check (seen all_gone) (two_att new_run 9 10) g = Some (g', b)
      \<and> health_run [(seen new_run, two_att new_run 9 10)] g' = Some g''
      \<and> pids g'' = [9, 10] \<and> alive_count new_run g'' = 2"
    by (rule two_startE)
  have p: "primary g \<noteq> None" using primary_of_roles [OF g(1,2)] by simp
  obtain g1 b g' where g': "health_check (seen all_gone) (two_att new_run 9 10) g = Some (g1, b)"
    "health_run [(seen new_run, two_att new_run 9 10)] g1 = Some g'" "alive_count new_run g' = 2"
    using g(4) by blast
  show ?thesis using g(1) p g' group_stays_headless [OF g(1) [unfolded two_new_def] p g(3) g'(1,2)] by blast
qed

text \<open>
  A primary whose process has ended but is not waited for, a zombie of the group's own
  process, counts as alive: the health check reports nothing and keeps it as the primary.
\<close>

theorem zombie_primary_kept:
  assumes "rtranclp orderly_step (group_new reg cfg) g" "primary g = Some m"
    "0 < ph_pid (mi_proc m)" "pt (ph_pid (mi_proc m)) = Zombie st" "health_check (seen pt) att g = Some (g', b)"
  shows "\<not> b \<and> primary g' = Some m"
  using health_check_primary [OF service_group.reachable_inv [OF assms(1)] assms(5)] assms(2-4)
  by (simp add: inst_alive_def handle_alive_iff seen_def)

theorem zombie_primary_kept_witness:
  "\<exists>g g' b. rtranclp orderly_step two_new g \<and> pids g = [7, 8]
     \<and> health_check (seen first_zombie) (two_att first_zombie 9 10) g = Some (g', b)
     \<and> \<not> b \<and> primary g' = Some (sg_instances g ! 0)"
proof -
  obtain g where g: "rtranclp orderly_step two_new g" "map mi_role (sg_instances g) = [Primary, Standby]"
    "pids g = [7, 8]" "\<exists>g' b. health_check (seen first_zombie) (two_att first_zombie 9 10) g = Some (g', b)"
    by (rule two_startE)
  have p: "primary g = Some (sg_instances g ! 0)" by (rule primary_of_roles [OF g(1,2)])
  have z: "0 < ph_pid (mi_proc (sg_instances g ! 0))"
    "first_zombie (ph_pid (mi_proc (sg_instances g ! 0))) = Zombie (Signaled 9)"
    using g(3) by (auto simp: pids_def first_zombie_def)
  obtain g' b where g': "health_check (seen first_zombie) (two_att first_zombie 9 10) g = Some (g', b)"
    using g(4) by blast
  show ?thesis using g(1,3) g' zombie_primary_kept [OF g(1) [unfolded two_new_def] p z g'] by blast
qed

text \<open>A clock that reaches the deadline of every attempt.\<close>

definition clock_advances :: "group_config \<Rightarrow> (nat \<Rightarrow> attempt) \<Rightarrow> bool" where
  "clock_advances cfg att \<longleftrightarrow>
     (\<forall>i. \<exists>w \<in> set (at_worlds (att i)). at_start (att i) + gc_spawn_timeout cfg \<le> w_now w)"

lemma spawn_instance_returns:
  assumes "clock_advances (sg_config g) att"
  shows "\<exists>r. spawn_instance i (att i) g = Some r"
proof -
  obtain w where w: "w \<in> set (at_worlds (att i))" "at_start (att i) + gc_spawn_timeout (sg_config g) \<le> w_now w"
    using assms by (auto simp: clock_advances_def)
  let ?h = "spawn (at_spawn (att i)) (mi_name (sg_instances g ! i)) (gc_executable (sg_config g)) [dec i]"
  let ?reg = "fst (gc (kill0 (at_ptable (att i))) (sg_registry g))"
  obtain reg' r where "spawn_wait (at_start (att i) + gc_spawn_timeout (sg_config g)) (mi_name (sg_instances g ! i))
      (mi_proc (sg_instances g ! i)) ?h ?reg (at_worlds (att i)) = Some (reg', r)"
    using spawn_wait_returns [OF w] by (metis surj_pair)
  then show ?thesis by (cases r) (auto simp: spawn_instance_def Let_def)
qed

lemma spawn_instance_config: "spawn_instance i att g = Some (g', b) \<Longrightarrow> sg_config g' = sg_config g"
  by (auto simp: spawn_instance_def set_inst_def Let_def split: if_splits option.splits prod.splits)

lemma spawn_all_returns:
  "clock_advances (sg_config g) att \<Longrightarrow> \<exists>g'. spawn_all only att is g = Some g'"
proof (induction "only" att "is" g rule: spawn_all.induct)
  case (2 only att i "is" g)
  show ?case
  proof (cases "only \<and> mi_role (sg_instances g ! i) \<noteq> Dead")
    case True
    then show ?thesis using 2 by simp
  next
    case False
    obtain g1 b where g1: "spawn_instance i (att i) g = Some (g1, b)"
      using spawn_instance_returns [OF "2.prems", of i] by auto
    then show ?thesis
      using "2.IH"(2) [OF False g1 refl] "2.prems" False spawn_instance_config [OF g1] by auto
  qed
qed simp

text \<open>
  C34. When the clock passes the deadlines, starting a group and checking it return: the
  waits for a registration end at the latest one poll after \<open>spawn_timeout\<close>.
\<close>

theorem group_calls_return:
  assumes "clock_advances (sg_config g) att"
  shows "(\<exists>r. start_group att lk g = Some r) \<and> (\<exists>r. health_check lk att g = Some r)"
proof -
  let ?g1 = "g\<lparr>sg_instances := mark_all lk (sg_instances g)\<rparr>"
  have c: "sg_config (fst (elect_primary lk ?g1)) = sg_config g"
    by (simp add: elect_primary_def split: option.split)
  have "\<exists>g'. maybe_respawn att h = Some g'" if "sg_config h = sg_config g" for h
    using spawn_all_returns [of h att True] assms that by (simp add: maybe_respawn_def respawn_dead_def)
  from this [of "fst (elect_primary lk ?g1)"] this [of ?g1] c
  have "\<exists>r. health_check lk att g = Some r" by (auto simp: health_check_def Let_def)
  moreover have "\<exists>r. start_group att lk g = Some r"
    using spawn_all_returns [OF assms, of False "[0..<length (sg_instances g)]"] by (auto simp: start_group_def)
  ultimately show ?thesis by blast
qed

theorem group_calls_return_witness:
  "\<exists>r. start_group (\<lambda>_. \<lparr>at_ptable = all_run, at_spawn = Some 7, at_start = 1,
     at_worlds = [\<lparr>w_change = id, w_ptable = all_run, w_now = 2\<rparr>, \<lparr>w_change = id, w_ptable = all_run, w_now = 5001\<rparr>]\<rparr>)
     (seen all_run) two_new = Some r"
  by (rule conjunct1 [OF group_calls_return])
    (simp add: clock_advances_def two_new_def group_new_def config_new_def)

end
