(* ===== verification/Sync_Abi.thy ===== *)
theory Sync_Abi
  imports Abi
begin

text \<open>
  The ABI stamp beside every cross-process mutex and condition variable
  (\<open>sync_abi.rs\<close>): the first opener writes which layout it uses, later ones
  check that theirs is the same. The stamp is shared memory; \<open>abi_access\<close> is one
  access of \<open>init_or_validate_within\<close> or \<open>validate\<close>, with the readings of the clock
  (in nanoseconds) as inputs.
\<close>

section \<open>What a port expects\<close>

datatype platform = MacOs | Linux | OtherPosix | Windows

datatype primitive_kind = MutexKind | ConditionKind

fun kind_id :: "primitive_kind \<Rightarrow> u32" where
  "kind_id MutexKind = 1"
| "kind_id ConditionKind = 2"

fun sidecar_suffix :: "primitive_kind \<Rightarrow> string" where
  "sidecar_suffix MutexKind = sync_abi_suffix_mutex"
| "sidecar_suffix ConditionKind = sync_abi_suffix_condition"

fun label :: "primitive_kind \<Rightarrow> string" where
  "label MutexKind = ''mutex''"
| "label ConditionKind = ''condition''"

fun SYNC_BACKEND_ID :: "platform \<Rightarrow> u32" where
  "SYNC_BACKEND_ID MacOs = syncabi_backend_ulock"
| "SYNC_BACKEND_ID Linux = syncabi_backend_linux_a0"
| "SYNC_BACKEND_ID OtherPosix = syncabi_backend_posix_pthread"
| "SYNC_BACKEND_ID Windows = syncabi_backend_win32"

text \<open>The sizes of the pthread types are the C library's: \<open>ps\<close> gives them.\<close>

fun expected_payload_size :: "(primitive_kind \<Rightarrow> u32) \<Rightarrow> platform \<Rightarrow> primitive_kind \<Rightarrow> u32" where
  "expected_payload_size ps MacOs MutexKind = of_nat ulock_mutex_size"
| "expected_payload_size ps Linux MutexKind = of_nat a0_mtx_size"
| "expected_payload_size ps MacOs ConditionKind = of_nat ulock_cond_size"
| "expected_payload_size ps Linux ConditionKind = of_nat a0_cnd_size"
| "expected_payload_size ps OtherPosix k = ps k"
| "expected_payload_size ps Windows k = 0"

record abi_expected =
  ae_major :: u32
  ae_minor :: u32
  ae_backend :: u32
  ae_kind :: u32
  ae_payload :: u32

definition SYNC_ABI_MAGIC :: u32 where "SYNC_ABI_MAGIC = syncabi_magic"
definition SYNC_ABI_INIT_IN_PROGRESS :: u32 where "SYNC_ABI_INIT_IN_PROGRESS = 0xffffffff"
definition SYNC_ABI_VERSION_MAJOR :: u32 where "SYNC_ABI_VERSION_MAJOR = 1"
definition SYNC_ABI_VERSION_MINOR :: u32 where "SYNC_ABI_VERSION_MINOR = 0"
definition SYNC_ABI_INIT_TIMEOUT :: int where "SYNC_ABI_INIT_TIMEOUT = 2000000000"

definition expected_for :: "(primitive_kind \<Rightarrow> u32) \<Rightarrow> platform \<Rightarrow> primitive_kind \<Rightarrow> abi_expected" where
  "expected_for ps p k =
     \<lparr>ae_major = SYNC_ABI_VERSION_MAJOR, ae_minor = SYNC_ABI_VERSION_MINOR, ae_backend = SYNC_BACKEND_ID p,
      ae_kind = kind_id k, ae_payload = expected_payload_size ps p k\<rparr>"

definition metadata_name :: "string \<Rightarrow> primitive_kind \<Rightarrow> string" where
  "metadata_name name k = name @ sidecar_suffix k"

definition backend_mismatch_hint :: "platform \<Rightarrow> u32 \<Rightarrow> u32 \<Rightarrow> string" where
  "backend_mismatch_hint p expected actual =
     (if p = MacOs \<and> (expected = 2 \<and> actual = 3 \<or> expected = 3 \<and> actual = 2)
      then ''; macOS profile mismatch: apple_ulock (2) cannot interop with apple_mach (3)'' else [])"

section \<open>The stamp\<close>

record stamp =
  st_magic :: u32
  st_body :: abi_expected

text \<open>The five fields are written and read one at a time, in this order.\<close>

definition copy_field :: "nat \<Rightarrow> abi_expected \<Rightarrow> abi_expected \<Rightarrow> abi_expected" where
  "copy_field k src dst =
     (if k = 0 then dst\<lparr>ae_major := ae_major src\<rparr>
      else if k = 1 then dst\<lparr>ae_minor := ae_minor src\<rparr>
      else if k = 2 then dst\<lparr>ae_backend := ae_backend src\<rparr>
      else if k = 3 then dst\<lparr>ae_kind := ae_kind src\<rparr>
      else dst\<lparr>ae_payload := ae_payload src\<rparr>)"

datatype abi_error = EmptyName | AcquireFailed | InitStalled | BadMagic u32 | Mismatch abi_expected

definition abi_zero :: abi_expected where
  "abi_zero = \<lparr>ae_major = 0, ae_minor = 0, ae_backend = 0, ae_kind = 0, ae_payload = 0\<rparr>"

text \<open>Where an opener is: the wait counter and the deadline are locals of the loop.\<close>

datatype abi_pc =
    ALoad u32 "int option"
  | ACas
  | AStore nat
  | APublish
  | ARead nat abi_expected
  | ADone "abi_error + unit"
  | ADead

definition saturating_inc :: "u32 \<Rightarrow> u32" where
  "saturating_inc n = (if n = 0xffffffff then n else n + 1)"

definition abi_access ::
  "int \<Rightarrow> abi_expected \<Rightarrow> int \<Rightarrow> int \<Rightarrow> abi_pc \<Rightarrow> stamp \<Rightarrow> abi_pc \<times> stamp" where
  "abi_access init_timeout e now now' pc st = (case pc of
     ALoad spins deadline \<Rightarrow>
       let magic = st_magic st in
       ((if magic = SYNC_ABI_MAGIC then ARead 0 abi_zero
         else if magic = SYNC_ABI_INIT_IN_PROGRESS
         then let d = (case deadline of None \<Rightarrow> now + init_timeout | Some d \<Rightarrow> d) in
           if d \<le> now' then ADone (Inl InitStalled) else ALoad (saturating_inc spins) (Some d)
         else if magic = 0 then ACas
         else ADone (Inl (BadMagic magic))), st)
   | ACas \<Rightarrow>
       if st_magic st = 0 then (AStore 0, st\<lparr>st_magic := SYNC_ABI_INIT_IN_PROGRESS\<rparr>) else (ALoad 0 None, st)
   | AStore k \<Rightarrow>
       (if k = 4 then APublish else AStore (k + 1), st\<lparr>st_body := copy_field k e (st_body st)\<rparr>)
   | APublish \<Rightarrow> (ADone (Inr ()), st\<lparr>st_magic := SYNC_ABI_MAGIC\<rparr>)
   | ARead k actual \<Rightarrow>
       let actual' = copy_field k (st_body st) actual in
       (if k = 4 then ADone (if actual' = e then Inr () else Inl (Mismatch actual')) else ARead (k + 1) actual', st)
   | ADone r \<Rightarrow> (ADone r, st)
   | ADead \<Rightarrow> (ADead, st))"

text \<open>\<open>ensure\<close> up to the loop, and the names whose storage the clear functions unlink.\<close>

definition ensure :: "(string \<Rightarrow> bool) \<Rightarrow> string \<Rightarrow> primitive_kind \<Rightarrow> abi_pc" where
  "ensure acquire name k =
     (if name = [] then ADone (Inl EmptyName)
      else if \<not> acquire (metadata_name name k) then ADone (Inl AcquireFailed)
      else ALoad 0 None)"

definition open_mutex_guard :: "(string \<Rightarrow> bool) \<Rightarrow> string \<Rightarrow> abi_pc" where
  "open_mutex_guard acquire name = ensure acquire name MutexKind"

definition open_condition_guard :: "(string \<Rightarrow> bool) \<Rightarrow> string \<Rightarrow> abi_pc" where
  "open_condition_guard acquire name = ensure acquire name ConditionKind"

definition clear_mutex_storage :: "string \<Rightarrow> (string \<rightharpoonup> stamp) \<Rightarrow> string \<rightharpoonup> stamp" where
  "clear_mutex_storage name shm = shm(metadata_name name MutexKind := None)"

definition clear_condition_storage :: "string \<Rightarrow> (string \<rightharpoonup> stamp) \<Rightarrow> string \<rightharpoonup> stamp" where
  "clear_condition_storage name shm = shm(metadata_name name ConditionKind := None)"

section \<open>Any number of openers\<close>

record abi_sys =
  as_stamp :: stamp
  as_pcs :: "nat \<Rightarrow> abi_pc"

definition abi_start :: abi_sys where
  "abi_start = \<lparr>as_stamp = \<lparr>st_magic = 0, st_body = abi_zero\<rparr>, as_pcs = (\<lambda>_. ALoad 0 None)\<rparr>"

definition abi_move :: "(nat \<Rightarrow> abi_expected) \<Rightarrow> nat \<Rightarrow> int \<Rightarrow> int \<Rightarrow> abi_sys \<Rightarrow> abi_sys" where
  "abi_move ex i now now' s =
     (case abi_access SYNC_ABI_INIT_TIMEOUT (ex i) now now' (as_pcs s i) (as_stamp s) of
        (pc, st) \<Rightarrow> \<lparr>as_stamp = st, as_pcs = (as_pcs s)(i := pc)\<rparr>)"

text \<open>Openers that do not return may be killed at any point.\<close>

inductive abi_step :: "(nat \<Rightarrow> abi_expected) \<Rightarrow> abi_sys \<Rightarrow> abi_sys \<Rightarrow> bool" for ex where
  abi_moves: "abi_step ex s (abi_move ex i now now' s)"
| abi_dies: "(\<And>r. as_pcs s i \<noteq> ADone r) \<Longrightarrow> abi_step ex s (s\<lparr>as_pcs := (as_pcs s)(i := ADead)\<rparr>)"

section \<open>Lemmas\<close>

definition fields :: "abi_expected \<Rightarrow> u32 list" where
  "fields e = [ae_major e, ae_minor e, ae_backend e, ae_kind e, ae_payload e]"

definition agree :: "nat \<Rightarrow> abi_expected \<Rightarrow> abi_expected \<Rightarrow> bool" where
  "agree k a b \<longleftrightarrow> take k (fields a) = take k (fields b)"

lemma agree_0 [simp]: "agree 0 a b"
  by (simp add: agree_def)

lemma agree_copy:
  assumes "k < 5" "agree k a b"
  shows "agree (Suc k) (copy_field k b a) b"
proof -
  consider "k = 0" | "k = 1" | "k = 2" | "k = 3" | "k = 4" using assms(1) by linarith
  then show ?thesis using assms(2) by cases (simp_all add: agree_def copy_field_def fields_def)
qed

lemma agree_all: "agree 5 a b \<longleftrightarrow> a = b"
  by (cases a; cases b) (auto simp: agree_def fields_def)

lemma copy_last: "agree 4 a b \<Longrightarrow> copy_field 4 b a = b"
  using agree_copy [of 4 a b] by (simp add: agree_all)

text \<open>
  Before the stamp is claimed, while one opener writes it, and once it is
  published: what the openers may be doing.
\<close>

fun waiting_pc :: "abi_pc \<Rightarrow> bool" where
  "waiting_pc (ALoad _ _) = True"
| "waiting_pc ACas = True"
| "waiting_pc ADead = True"
| "waiting_pc (ADone r) \<longleftrightarrow> r = Inl InitStalled"
| "waiting_pc _ = False"

fun writing_pc :: "abi_expected \<Rightarrow> abi_expected \<Rightarrow> abi_pc \<Rightarrow> bool" where
  "writing_pc e b (AStore k) \<longleftrightarrow> k < 5 \<and> agree k b e"
| "writing_pc e b APublish \<longleftrightarrow> b = e"
| "writing_pc e b ADead \<longleftrightarrow> True"
| "writing_pc e b _ \<longleftrightarrow> False"

fun checked_pc :: "abi_expected \<Rightarrow> abi_expected \<Rightarrow> abi_pc \<Rightarrow> bool" where
  "checked_pc e b (ARead k a) \<longleftrightarrow> k < 5 \<and> agree k a b"
| "checked_pc e b (ADone r) \<longleftrightarrow> (case r of
     Inr u \<Rightarrow> e = b | Inl x \<Rightarrow> (case x of InitStalled \<Rightarrow> True | Mismatch a \<Rightarrow> a = b \<and> e \<noteq> b | _ \<Rightarrow> False))"
| "checked_pc e b p \<longleftrightarrow> waiting_pc p"

lemma waiting_checked: "waiting_pc p \<Longrightarrow> checked_pc e b p"
  by (cases p) auto

definition abi_inv :: "(nat \<Rightarrow> abi_expected) \<Rightarrow> abi_sys \<Rightarrow> bool" where
  "abi_inv ex s \<longleftrightarrow>
     st_magic (as_stamp s) = 0 \<and> (\<forall>i. waiting_pc (as_pcs s i))
   \<or> st_magic (as_stamp s) = SYNC_ABI_INIT_IN_PROGRESS
       \<and> (\<exists>w. writing_pc (ex w) (st_body (as_stamp s)) (as_pcs s w) \<and> (\<forall>i. i \<noteq> w \<longrightarrow> waiting_pc (as_pcs s i)))
   \<or> st_magic (as_stamp s) = SYNC_ABI_MAGIC
       \<and> (\<exists>w. st_body (as_stamp s) = ex w) \<and> (\<forall>i. checked_pc (ex i) (st_body (as_stamp s)) (as_pcs s i))"

lemma magic_distinct [simp]:
  "SYNC_ABI_MAGIC \<noteq> 0" "SYNC_ABI_INIT_IN_PROGRESS \<noteq> 0" "SYNC_ABI_MAGIC \<noteq> SYNC_ABI_INIT_IN_PROGRESS"
  "0 \<noteq> SYNC_ABI_MAGIC" "0 \<noteq> SYNC_ABI_INIT_IN_PROGRESS" "SYNC_ABI_INIT_IN_PROGRESS \<noteq> SYNC_ABI_MAGIC"
  by (simp_all add: SYNC_ABI_MAGIC_def SYNC_ABI_INIT_IN_PROGRESS_def syncabi_magic_def)

lemma access_unclaimed:
  assumes "st_magic st = 0" "waiting_pc p" "abi_access T e now now' p st = (p', st')"
  shows "waiting_pc p' \<and> st' = st \<or> p' = AStore 0 \<and> st' = st\<lparr>st_magic := SYNC_ABI_INIT_IN_PROGRESS\<rparr>"
  using assms by (cases p) (auto simp: abi_access_def Let_def split: if_splits)

lemma access_waiting:
  assumes "st_magic st = SYNC_ABI_INIT_IN_PROGRESS" "waiting_pc p" "abi_access T e now now' p st = (p', st')"
  shows "waiting_pc p' \<and> st' = st"
  using assms by (cases p) (auto simp: abi_access_def Let_def split: if_splits)

lemma access_writing:
  assumes "st_magic st = SYNC_ABI_INIT_IN_PROGRESS" "writing_pc e (st_body st) p" "abi_access T e now now' p st = (p', st')"
  shows "writing_pc e (st_body st') p' \<and> st_magic st' = SYNC_ABI_INIT_IN_PROGRESS
    \<or> p' = ADone (Inr ()) \<and> st_magic st' = SYNC_ABI_MAGIC \<and> st_body st' = e"
proof (cases p)
  case (AStore k)
  then have k: "k < 5" "agree k (st_body st) e" using assms(2) by auto
  show ?thesis
  proof (cases "k = 4")
    case True
    then show ?thesis using assms AStore k copy_last [of "st_body st" e] by (auto simp: abi_access_def)
  next
    case False
    then show ?thesis using assms AStore k agree_copy [OF k] by (auto simp: abi_access_def)
  qed
qed (use assms in \<open>auto simp: abi_access_def\<close>)

lemma access_published:
  assumes "st_magic st = SYNC_ABI_MAGIC" "checked_pc e (st_body st) p" "abi_access T e now now' p st = (p', st')"
  shows "checked_pc e (st_body st) p' \<and> st' = st"
proof (cases p)
  case (ARead k a)
  then have k: "k < 5" "agree k a (st_body st)" using assms(2) by auto
  show ?thesis
  proof (cases "k = 4")
    case True
    then show ?thesis using assms ARead k copy_last [of a "st_body st"]
      by (auto simp: abi_access_def Let_def)
  next
    case False
    then show ?thesis using assms ARead k agree_copy [OF k] by (auto simp: abi_access_def Let_def)
  qed
qed (use assms in \<open>auto simp: abi_access_def Let_def\<close>)

lemma abi_inv_cases:
  assumes "abi_inv ex s"
  obtains (unclaimed) "st_magic (as_stamp s) = 0" "\<And>i. waiting_pc (as_pcs s i)"
  | (writing) w where "st_magic (as_stamp s) = SYNC_ABI_INIT_IN_PROGRESS"
      "writing_pc (ex w) (st_body (as_stamp s)) (as_pcs s w)" "\<And>i. i \<noteq> w \<Longrightarrow> waiting_pc (as_pcs s i)"
  | (published) w where "st_magic (as_stamp s) = SYNC_ABI_MAGIC" "st_body (as_stamp s) = ex w"
      "\<And>i. checked_pc (ex i) (st_body (as_stamp s)) (as_pcs s i)"
  using assms unfolding abi_inv_def by blast

lemma abi_inv_unclaimed: "st_magic (as_stamp s) = 0 \<Longrightarrow> (\<And>i. waiting_pc (as_pcs s i)) \<Longrightarrow> abi_inv ex s"
  by (simp add: abi_inv_def)

lemma abi_inv_writing:
  "st_magic (as_stamp s) = SYNC_ABI_INIT_IN_PROGRESS \<Longrightarrow> writing_pc (ex w) (st_body (as_stamp s)) (as_pcs s w) \<Longrightarrow>
   (\<And>i. i \<noteq> w \<Longrightarrow> waiting_pc (as_pcs s i)) \<Longrightarrow> abi_inv ex s"
  unfolding abi_inv_def by blast

lemma abi_inv_published:
  "st_magic (as_stamp s) = SYNC_ABI_MAGIC \<Longrightarrow> st_body (as_stamp s) = ex w \<Longrightarrow>
   (\<And>i. checked_pc (ex i) (st_body (as_stamp s)) (as_pcs s i)) \<Longrightarrow> abi_inv ex s"
  unfolding abi_inv_def by blast

lemma abi_move_inv:
  assumes "abi_inv ex s"
  shows "abi_inv ex (abi_move ex i now now' s)"
proof -
  obtain p st where a: "abi_access SYNC_ABI_INIT_TIMEOUT (ex i) now now' (as_pcs s i) (as_stamp s) = (p, st)" by fastforce
  then have m: "abi_move ex i now now' s = \<lparr>as_stamp = st, as_pcs = (as_pcs s)(i := p)\<rparr>"
    by (simp add: abi_move_def)
  from assms show ?thesis
  proof (cases rule: abi_inv_cases)
    case unclaimed
    from access_unclaimed [OF unclaimed(1) unclaimed(2) a] show ?thesis
    proof
      assume "waiting_pc p \<and> st = as_stamp s"
      then show ?thesis unfolding m using unclaimed by (intro abi_inv_unclaimed) auto
    next
      assume "p = AStore 0 \<and> st = (as_stamp s)\<lparr>st_magic := SYNC_ABI_INIT_IN_PROGRESS\<rparr>"
      then show ?thesis unfolding m using unclaimed by (intro abi_inv_writing [of _ _ i]) auto
    qed
  next
    case (writing w)
    show ?thesis
    proof (cases "i = w")
      case True
      from access_writing [OF writing(1) writing(2) a [unfolded True]] show ?thesis
      proof
        assume "writing_pc (ex w) (st_body st) p \<and> st_magic st = SYNC_ABI_INIT_IN_PROGRESS"
        then show ?thesis unfolding m using writing(3) True by (intro abi_inv_writing [of _ _ w]) auto
      next
        assume "p = ADone (Inr ()) \<and> st_magic st = SYNC_ABI_MAGIC \<and> st_body st = ex w"
        then show ?thesis unfolding m using writing(3) True
          by (intro abi_inv_published [of _ _ w]) (auto intro: waiting_checked)
      qed
    next
      case False
      then show ?thesis
        unfolding m using access_waiting [OF writing(1) writing(3) [OF False] a] writing
        by (intro abi_inv_writing [of _ _ w]) auto
    qed
  next
    case (published w)
    then show ?thesis unfolding m using access_published [OF published(1) published(3) a]
      by (intro abi_inv_published [of _ _ w]) auto
  qed
qed

lemma abi_die_inv:
  assumes "abi_inv ex s" "\<And>r. as_pcs s i \<noteq> ADone r"
  shows "abi_inv ex (s\<lparr>as_pcs := (as_pcs s)(i := ADead)\<rparr>)"
  using assms(1)
proof (cases rule: abi_inv_cases)
  case unclaimed
  then show ?thesis by (intro abi_inv_unclaimed) auto
next
  case (writing w)
  then show ?thesis by (intro abi_inv_writing [of _ _ w]) auto
next
  case (published w)
  then show ?thesis by (intro abi_inv_published [of _ _ w]) auto
qed

interpretation abi: invariant_system abi_start "abi_step ex" "abi_inv ex"
proof
  show "abi_inv ex abi_start" by (simp add: abi_start_def abi_inv_unclaimed)
  show "abi_inv ex s'" if "abi_inv ex s" "abi_step ex s s'" for s s'
    using that(2,1) by cases (auto intro: abi_move_inv abi_die_inv)
qed

lemma expected_for_inject: "expected_for ps p k = expected_for ps p' k' \<longleftrightarrow> p = p' \<and> k = k'"
proof -
  have "SYNC_BACKEND_ID p = SYNC_BACKEND_ID p' \<longleftrightarrow> p = p'"
    by (cases p; cases p') (simp_all add: syncabi_backend_ulock_def syncabi_backend_linux_a0_def
        syncabi_backend_posix_pthread_def syncabi_backend_win32_def)
  moreover have "kind_id k = kind_id k' \<longleftrightarrow> k = k'" by (cases k; cases k') simp_all
  ultimately show ?thesis by (auto simp: expected_for_def)
qed

lemma abi_returned:
  assumes "rtranclp (abi_step ex) abi_start s" "as_pcs s i = ADone r"
  shows "r = Inl InitStalled
    \<or> st_magic (as_stamp s) = SYNC_ABI_MAGIC \<and> checked_pc (ex i) (st_body (as_stamp s)) (ADone r)"
  using abi.reachable_inv [OF assms(1)]
proof (cases rule: abi_inv_cases)
  case unclaimed
  then show ?thesis using unclaimed(2) [of i] assms(2) by simp
next
  case (writing w)
  then show ?thesis using writing(2) writing(3) [of i] assms(2) by (cases "i = w") auto
next
  case (published w)
  then show ?thesis using published(3) [of i] assms(2) by simp
qed

section \<open>Properties\<close>

text \<open>
  C25. However the accesses of any number of openers of a fresh stamp interleave, and
  whichever of them are killed: all that are let through use the same backend for the
  same kind of primitive; any other returned opener either waited in vain for the stamp
  or is told exactly the layout of those that were let through, which is not its own.
\<close>

theorem sync_abi_agreement:
  assumes "rtranclp (abi_step (\<lambda>i. expected_for ps (plat i) (kind i))) abi_start s" "as_pcs s i = ADone (Inr ())"
  shows "(\<forall>j. as_pcs s j = ADone (Inr ()) \<longrightarrow> plat j = plat i \<and> kind j = kind i)
    \<and> (\<forall>j e. as_pcs s j = ADone (Inl e) \<longrightarrow> e = InitStalled
         \<or> e = Mismatch (expected_for ps (plat i) (kind i)) \<and> (plat j, kind j) \<noteq> (plat i, kind i))"
proof (intro conjI allI impI)
  have b: "expected_for ps (plat i) (kind i) = st_body (as_stamp s)" using abi_returned [OF assms] by simp
  have "plat j = plat i \<and> kind j = kind i" if "as_pcs s j = ADone (Inr ())" for j
  proof -
    have "expected_for ps (plat j) (kind j) = st_body (as_stamp s)" using abi_returned [OF assms(1) that] by simp
    then show ?thesis using b expected_for_inject by metis
  qed
  then show "plat j = plat i" "kind j = kind i" if "as_pcs s j = ADone (Inr ())" for j using that by blast+
  show "e = InitStalled
      \<or> e = Mismatch (expected_for ps (plat i) (kind i)) \<and> (plat j, kind j) \<noteq> (plat i, kind i)"
    if "as_pcs s j = ADone (Inl e)" for j e
    using abi_returned [OF assms(1) that] unfolding b [symmetric]
    by (cases e) (auto simp: expected_for_inject)
qed

fun abi_run :: "(nat \<Rightarrow> abi_expected) \<Rightarrow> nat list \<Rightarrow> abi_sys \<Rightarrow> abi_sys" where
  "abi_run ex [] s = s"
| "abi_run ex (i # is) s = abi_run ex is (abi_move ex i 0 0 s)"

lemma abi_run_steps: "rtranclp (abi_step ex) s (abi_run ex is s)"
  by (induction "is" arbitrary: s) (auto intro: converse_rtranclp_into_rtranclp abi_moves)

text \<open>Two Linux processes and a macOS one open a mutex; the second one races with the first.\<close>

definition mixed_plat :: "nat \<Rightarrow> platform" where
  "mixed_plat i = (if i = 2 then MacOs else Linux)"

definition mixed_run :: abi_sys where
  "mixed_run = abi_run (\<lambda>i. expected_for (\<lambda>_. 40) (mixed_plat i) MutexKind)
     ([0, 1, 0, 1] @ replicate 6 0 @ replicate 6 1 @ replicate 6 2) abi_start"

lemma mixed_run_pcs:
  "as_pcs mixed_run 0 = ADone (Inr ()) \<and> as_pcs mixed_run 1 = ADone (Inr ())
   \<and> (case as_pcs mixed_run 2 of ADone (Inl (Mismatch e)) \<Rightarrow> True | _ \<Rightarrow> False)"
  by code_simp

theorem sync_abi_agreement_witness:
  "as_pcs mixed_run 1 = ADone (Inr ())
   \<and> as_pcs mixed_run 2 = ADone (Inl (Mismatch (expected_for (\<lambda>_. 40) Linux MutexKind)))"
proof -
  have r: "rtranclp (abi_step (\<lambda>i. expected_for (\<lambda>_. 40) (mixed_plat i) ((\<lambda>_. MutexKind) i))) abi_start mixed_run"
    unfolding mixed_run_def by (rule abi_run_steps)
  obtain e where "as_pcs mixed_run 2 = ADone (Inl (Mismatch e))"
    using mixed_run_pcs by (auto split: abi_pc.splits sum.splits abi_error.splits)
  then show ?thesis
    using sync_abi_agreement [OF r, of 1] mixed_run_pcs by (auto simp: mixed_plat_def)
qed

end
