(* ===== verification/Linux_Mutex.thy ===== *)
theory Linux_Mutex
  imports Abi "HOL-Library.Signed_Division"
begin

text \<open>
  The Linux mutex and condition variable (\<open>platform/linux.rs\<close>): the bits of the
  futex word, the deadlines, the robust list the kernel walks when a thread dies,
  and the lock protocol between user space and the kernel, one step per access to
  the futex word. What the priority-inheritance futex calls do to the word is the
  kernel's: it is a parameter of the steps.
\<close>

unbundle bit_operations_syntax

section \<open>The futex word\<close>

definition FUTEX_TID_MASK :: u32 where "FUTEX_TID_MASK = 0x3fffffff"
definition FUTEX_OWNER_DIED :: u32 where "FUTEX_OWNER_DIED = 0x40000000"
definition FTX_NOTRECOVERABLE :: u32 where "FTX_NOTRECOVERABLE = FUTEX_TID_MASK OR FUTEX_OWNER_DIED"
definition NS_PER_SEC :: int where "NS_PER_SEC = 1000000000"
definition INFINITE_MS :: u64 where "INFINITE_MS = 0xffffffff"

definition ftx_tid :: "u32 \<Rightarrow> u32" where "ftx_tid ftx = ftx AND FUTEX_TID_MASK"
definition ftx_owner_died :: "u32 \<Rightarrow> bool" where "ftx_owner_died ftx \<longleftrightarrow> ftx AND FUTEX_OWNER_DIED \<noteq> 0"
definition ftx_notrecoverable :: "u32 \<Rightarrow> bool" where
  "ftx_notrecoverable ftx \<longleftrightarrow> ftx AND FTX_NOTRECOVERABLE = FTX_NOTRECOVERABLE"

section \<open>Deadlines\<close>

record timespec =
  tv_sec :: int
  tv_nsec :: int

text \<open>Rust's division truncates, and the remainder has the sign of the dividend.\<close>

definition clock_add :: "timespec \<Rightarrow> int \<Rightarrow> timespec" where
  "clock_add ts add_nsec =
     (let sec = tv_sec ts + add_nsec sdiv NS_PER_SEC; nsec = tv_nsec ts + add_nsec smod NS_PER_SEC in
      if NS_PER_SEC \<le> nsec then \<lparr>tv_sec = sec + 1, tv_nsec = nsec - NS_PER_SEC\<rparr>
      else if nsec < 0 then \<lparr>tv_sec = sec - 1, tv_nsec = nsec + NS_PER_SEC\<rparr>
      else \<lparr>tv_sec = sec, tv_nsec = nsec\<rparr>)"

datatype errno = EINTR | EAGAIN | ETIMEDOUT | EOWNERDEAD | ENOTRECOVERABLE | EPERM | EINVAL | EBUSY | EDEADLK | EOther nat

text \<open>A clock call answers the time or an error.\<close>

definition clock_convert :: "errno + timespec \<Rightarrow> timespec \<Rightarrow> errno + timespec \<Rightarrow> errno + timespec" where
  "clock_convert orig_now orig_ts target_now =
     (case orig_now of
        Inl e \<Rightarrow> Inl e
      | Inr o_now \<Rightarrow> (case target_now of
          Inl e \<Rightarrow> Inl e
        | Inr t_now \<Rightarrow> Inr (clock_add t_now
            ((tv_sec orig_ts - tv_sec o_now) * NS_PER_SEC + (tv_nsec orig_ts - tv_nsec o_now)))))"

definition make_deadline :: "errno + timespec \<Rightarrow> u64 \<Rightarrow> errno + timespec" where
  "make_deadline now tm =
     (let add_ns = tm * 1000000 in
      if sint add_ns < 0 then Inl EINVAL
      else case now of Inl e \<Rightarrow> Inl e | Inr ts \<Rightarrow> Inr (clock_add ts (sint add_ns)))"

definition deadline_valid :: "timespec \<Rightarrow> bool" where
  "deadline_valid ts \<longleftrightarrow>
     \<not> (tv_sec ts < 0 \<or> tv_nsec ts < 0 \<or> (tv_sec ts = 0 \<and> tv_nsec ts = 0) \<or> NS_PER_SEC \<le> tv_nsec ts)"

definition normal :: "timespec \<Rightarrow> bool" where
  "normal ts \<longleftrightarrow> 0 \<le> tv_nsec ts \<and> tv_nsec ts < NS_PER_SEC"

definition total_ns :: "timespec \<Rightarrow> int" where
  "total_ns ts = tv_sec ts * NS_PER_SEC + tv_nsec ts"

lemma clock_add_exact: "normal ts \<Longrightarrow> normal (clock_add ts d) \<and> total_ns (clock_add ts d) = total_ns ts + d"
proof -
  assume n: "normal ts"
  have "d sdiv NS_PER_SEC * NS_PER_SEC + d smod NS_PER_SEC = d" by (simp add: sdiv_mult_smod_eq)
  moreover have "\<bar>d smod NS_PER_SEC\<bar> < NS_PER_SEC"
    by (simp add: NS_PER_SEC_def signed_modulo_int_def abs_mult sgn_if)
  ultimately show ?thesis using n
    by (auto simp: clock_add_def normal_def total_ns_def Let_def algebra_simps)
qed

text \<open>A converted deadline is as far from now on the other clock.\<close>

lemma clock_convert_exact:
  assumes "normal t_now"
  shows "\<exists>ts'. clock_convert (Inr o_now) ts (Inr t_now) = Inr ts'
    \<and> normal ts' \<and> total_ns ts' - total_ns t_now = total_ns ts - total_ns o_now"
  using clock_add_exact [OF assms, of "total_ns ts - total_ns o_now"]
  by (simp add: clock_convert_def total_ns_def algebra_simps)

lemma make_deadline_exact:
  assumes "normal now" "uint tm < 9223372036854"
  shows "\<exists>ts. make_deadline (Inr now) tm = Inr ts \<and> normal ts \<and> total_ns ts = total_ns now + uint tm * 1000000"
proof -
  have t: "0 \<le> uint tm * 1000000" "uint tm * 1000000 < 2 ^ 63" using assms(2) by simp_all
  then have "uint tm * 1000000 mod 2 ^ 64 = uint tm * 1000000"
    by (intro mod_pos_pos_trivial) simp_all
  then have u: "uint (tm * 1000000) = uint tm * 1000000" by (simp add: uint_word_ariths)
  have "sint (tm * 1000000) = signed_take_bit 63 (uint (tm * 1000000))" by (simp only: sint_uint) simp
  also have "\<dots> = uint tm * 1000000" unfolding u using t by (intro signed_take_bit_int_eq_self) linarith+
  finally have "sint (tm * 1000000) = uint tm * 1000000" .
  then show ?thesis using clock_add_exact [OF assms(1), of "uint tm * 1000000"] t(1) by (simp add: make_deadline_def)
qed

section \<open>The robust list\<close>

text \<open>
  The list is threaded through the mutexes a thread holds: an address has a
  \<open>next\<close> and a \<open>prev\<close>, and the head is the address of the thread's own list head.
  The operations are the stores they make, in order, since the thread may be
  killed after any of them.
\<close>

record robust =
  rl_head :: nat
  rl_next :: "nat \<Rightarrow> nat"
  rl_prev :: "nat \<Rightarrow> nat"
  rl_pending :: "nat option"

datatype rl_store = SetNext nat nat | SetPrev nat nat | SetPending "nat option"

fun rl_apply :: "robust \<Rightarrow> rl_store \<Rightarrow> robust" where
  "rl_apply s (SetNext a v) = s\<lparr>rl_next := (rl_next s)(a := v)\<rparr>"
| "rl_apply s (SetPrev a v) = s\<lparr>rl_prev := (rl_prev s)(a := v)\<rparr>"
| "rl_apply s (SetPending p) = s\<lparr>rl_pending := p\<rparr>"

definition robust_init :: "robust \<Rightarrow> rl_store list" where
  "robust_init s = [SetNext (rl_head s) (rl_head s), SetPending None]"

definition robust_op_start :: "nat \<Rightarrow> rl_store list" where
  "robust_op_start mtx = [SetPending (Some mtx)]"

definition robust_op_end :: "rl_store list" where
  "robust_op_end = [SetPending None]"

definition robust_is_head :: "robust \<Rightarrow> nat \<Rightarrow> bool" where
  "robust_is_head s a \<longleftrightarrow> a = rl_head s"

definition robust_op_add :: "robust \<Rightarrow> nat \<Rightarrow> rl_store list" where
  "robust_op_add s mtx =
     (let head = rl_head s; old_first = rl_next s head in
      [SetPrev mtx head, SetNext mtx old_first, SetNext head mtx]
      @ (if \<not> robust_is_head s old_first then [SetPrev old_first mtx] else []))"

definition robust_op_del :: "robust \<Rightarrow> nat \<Rightarrow> rl_store list" where
  "robust_op_del s mtx =
     (let prv = rl_prev s mtx; nxt = rl_next s mtx in
      [SetNext prv nxt] @ (if \<not> robust_is_head s nxt then [SetPrev nxt prv] else []))"

text \<open>The list of mutexes: forward links and back links agree.\<close>

fun forward :: "robust \<Rightarrow> nat \<Rightarrow> nat list \<Rightarrow> bool" where
  "forward s a [] \<longleftrightarrow> rl_next s a = rl_head s"
| "forward s a (x # xs) \<longleftrightarrow> rl_next s a = x \<and> forward s x xs"

fun backward :: "robust \<Rightarrow> nat \<Rightarrow> nat list \<Rightarrow> bool" where
  "backward s a [] \<longleftrightarrow> True"
| "backward s a (x # xs) \<longleftrightarrow> rl_prev s x = a \<and> backward s x xs"

definition robust_list :: "robust \<Rightarrow> nat list \<Rightarrow> bool" where
  "robust_list s xs \<longleftrightarrow> forward s (rl_head s) xs \<and> backward s (rl_head s) xs \<and> distinct (rl_head s # xs)"

lemma rl_frame [simp]: "rl_head (rl_apply s x) = rl_head s"
  by (cases x) simp_all

lemma rl_frame_fold [simp]: "rl_head (foldl rl_apply s xs) = rl_head s"
  by (induction xs arbitrary: s) simp_all

lemma forward_cong:
  "forward s a xs \<Longrightarrow> (\<And>x. x \<in> set (a # xs) \<Longrightarrow> rl_next s' x = rl_next s x) \<Longrightarrow> rl_head s' = rl_head s \<Longrightarrow> forward s' a xs"
  by (induction xs arbitrary: a) auto

lemma backward_cong:
  "backward s a xs \<Longrightarrow> (\<And>x. x \<in> set xs \<Longrightarrow> rl_prev s' x = rl_prev s x) \<Longrightarrow> backward s' a xs"
  by (induction xs arbitrary: a) auto

lemma forward_append: "forward s a (xs @ y # ys) \<longleftrightarrow> forward (s\<lparr>rl_head := y\<rparr>) a xs \<and> forward s y ys"
  by (induction xs arbitrary: a) auto

lemma backward_append:
  "backward s a (xs @ y # ys) \<longleftrightarrow> backward s a xs \<and> rl_prev s y = last (a # xs) \<and> backward s y ys"
  by (induction xs arbitrary: a) auto

lemma forward_end: "forward s a xs \<Longrightarrow> rl_next s (last (a # xs)) = rl_head s"
  by (induction xs arbitrary: a) auto

text \<open>The kernel's walk finds one list only.\<close>

lemma forward_unique:
  "forward s a xs \<Longrightarrow> forward s a ys \<Longrightarrow> rl_head s \<notin> set xs \<Longrightarrow> rl_head s \<notin> set ys \<Longrightarrow> xs = ys"
proof (induction xs arbitrary: a ys)
  case Nil
  then show ?case by (cases ys) auto
next
  case (Cons x xs)
  then show ?case by (cases ys) auto
qed

lemma robust_add_list:
  assumes "robust_list s xs" "m \<noteq> rl_head s" "m \<notin> set xs"
  shows "robust_list (foldl rl_apply s (robust_op_add s m)) (m # xs)"
proof (cases xs)
  case Nil
  then show ?thesis using assms
    by (auto simp: robust_list_def robust_op_add_def robust_is_head_def Let_def)
next
  case (Cons y ys)
  then have y: "rl_next s (rl_head s) = y" "y \<noteq> rl_head s" "y \<noteq> m" "rl_head s \<notin> set ys" "m \<notin> set ys" "y \<notin> set ys"
    and f: "forward s y ys" "backward s y ys"
    using assms by (auto simp: robust_list_def)
  let ?s = "foldl rl_apply s (robust_op_add s m)"
  have s: "rl_next ?s = (rl_next s)(m := y, rl_head s := m)" "rl_prev ?s = (rl_prev s)(m := rl_head s, y := m)"
    using y by (simp_all add: robust_op_add_def robust_is_head_def Let_def)
  have "forward ?s y ys" by (rule forward_cong [OF f(1)]) (use y in \<open>auto simp: s\<close>)
  moreover have "backward ?s y ys" by (rule backward_cong [OF f(2)]) (use y in \<open>auto simp: s\<close>)
  ultimately show ?thesis using y Cons assms by (auto simp: robust_list_def s)
qed

lemma robust_del_list:
  assumes "robust_list s (xs @ m # ys)"
  shows "robust_list (foldl rl_apply s (robust_op_del s m)) (xs @ ys)"
proof -
  let ?p = "last (rl_head s # xs)"
  have d: "distinct (rl_head s # xs @ m # ys)" using assms by (simp add: robust_list_def)
  have f: "forward (s\<lparr>rl_head := m\<rparr>) (rl_head s) xs" "forward s m ys"
    and b: "backward s (rl_head s) xs" "rl_prev s m = ?p" "backward s m ys"
    using assms unfolding robust_list_def by (simp_all only: forward_append backward_append)
  let ?s = "foldl rl_apply s (robust_op_del s m)"
  have p: "?p \<in> set (rl_head s # xs)" by (rule last_in_set) simp
  show ?thesis
  proof (cases ys)
    case Nil
    then have "rl_next s m = rl_head s" using f(2) by simp
    then have s: "rl_next ?s = (rl_next s)(?p := rl_head s)" "rl_prev ?s = rl_prev s"
      using b(2) by (simp_all add: robust_op_del_def robust_is_head_def Let_def)
    have "forward ?s (rl_head s) xs"
    proof (cases xs rule: rev_cases)
      case (snoc zs z)
      have "forward (s\<lparr>rl_head := z\<rparr>) (rl_head s) zs" using f(1) snoc by (simp add: forward_append)
      then have "forward (?s\<lparr>rl_head := z\<rparr>) (rl_head s) zs"
        by (rule forward_cong) (use d snoc in \<open>auto simp: s\<close>)
      then show ?thesis using snoc by (simp add: forward_append s)
    qed (simp add: s)
    moreover have "backward ?s (rl_head s) xs" by (rule backward_cong [OF b(1)]) (simp add: s)
    ultimately show ?thesis using Nil d by (simp add: robust_list_def)
  next
    case (Cons y zs)
    then have y: "rl_next s m = y" "y \<noteq> rl_head s" using f(2) d by auto
    then have s: "rl_next ?s = (rl_next s)(?p := y)" "rl_prev ?s = (rl_prev s)(y := ?p)"
      using b(2) by (simp_all add: robust_op_del_def robust_is_head_def Let_def)
    have "forward (?s\<lparr>rl_head := y\<rparr>) (rl_head s) xs"
    proof (cases xs rule: rev_cases)
      case (snoc us z)
      have "forward (s\<lparr>rl_head := z\<rparr>) (rl_head s) us" using f(1) snoc by (simp add: forward_append)
      then have "forward (?s\<lparr>rl_head := z\<rparr>) (rl_head s) us"
        by (rule forward_cong) (use d snoc in \<open>auto simp: s\<close>)
      then show ?thesis using snoc by (simp add: forward_append s)
    qed (simp add: s)
    moreover have "forward ?s y zs"
      by (rule forward_cong [of s]) (use f(2) p d Cons in \<open>auto simp: s\<close>)
    moreover have "backward ?s (rl_head s) xs" by (rule backward_cong [OF b(1)]) (use d Cons in \<open>auto simp: s\<close>)
    moreover have "backward ?s y zs" by (rule backward_cong [of s]) (use b(3) d Cons in \<open>auto simp: s\<close>)
    ultimately show ?thesis using Cons d
      by (auto simp: robust_list_def forward_append backward_append s)
  qed
qed

text \<open>
  The bookkeeping of \<open>mtx_timedlock\<close> and of \<open>mtx_unlock\<close> as one sequence of stores;
  the word of the mutex is taken between the first store and the next, and given
  back before the last.
\<close>

definition lock_stores :: "robust \<Rightarrow> nat \<Rightarrow> rl_store list" where
  "lock_stores s m = robust_op_start m @ robust_op_add s m @ robust_op_end"

definition unlock_stores :: "robust \<Rightarrow> nat \<Rightarrow> rl_store list" where
  "unlock_stores s m = robust_op_start m @ robust_op_del s m @ robust_op_end"

text \<open>What the kernel finds when the thread dies: the walk from the head, then the pending one.\<close>

definition kernel_sees :: "robust \<Rightarrow> nat list \<Rightarrow> bool" where
  "kernel_sees s ys \<longleftrightarrow> forward s (rl_head s) ys \<and> rl_head s \<notin> set ys"

lemma kernel_sees_cong:
  "kernel_sees s ys \<Longrightarrow> rl_next s' = rl_next s \<Longrightarrow> rl_head s' = rl_head s \<Longrightarrow> kernel_sees s' ys"
  unfolding kernel_sees_def by (metis forward_cong)

lemma robust_list_sees: "robust_list s xs \<Longrightarrow> kernel_sees s xs"
  by (simp add: robust_list_def kernel_sees_def)

lemma robust_list_pending: "robust_list (s\<lparr>rl_pending := p\<rparr>) xs \<longleftrightarrow> robust_list s xs"
proof -
  have "forward (s\<lparr>rl_pending := p\<rparr>) a xs \<longleftrightarrow> forward s a xs" "backward (s\<lparr>rl_pending := p\<rparr>) a xs \<longleftrightarrow> backward s a xs" for a
    by (induction xs arbitrary: a) auto
  then show ?thesis by (simp add: robust_list_def)
qed

lemma lock_stores_prefix:
  assumes "k \<le> length (lock_stores s m)"
  shows "rl_next (foldl rl_apply s (take k (lock_stores s m)))
      \<in> {rl_next s, (rl_next s)(m := rl_next s (rl_head s)), rl_next (foldl rl_apply s (robust_op_add s m))}
    \<and> (0 < k \<longrightarrow> k < length (lock_stores s m) \<longrightarrow> rl_pending (foldl rl_apply s (take k (lock_stores s m))) = Some m)
    \<and> (k = length (lock_stores s m)
        \<longrightarrow> foldl rl_apply s (take k (lock_stores s m)) = (foldl rl_apply s (robust_op_add s m))\<lparr>rl_pending := None\<rparr>)"
  using assms
  by (auto simp: lock_stores_def robust_op_start_def robust_op_add_def robust_op_end_def Let_def take_Cons'
      less_Suc_eq le_Suc_eq split: if_splits)

lemma unlock_stores_prefix:
  assumes "k \<le> length (unlock_stores s m)"
  shows "rl_next (foldl rl_apply s (take k (unlock_stores s m)))
      \<in> {rl_next s, rl_next (foldl rl_apply s (robust_op_del s m))}
    \<and> (0 < k \<longrightarrow> k < length (unlock_stores s m) \<longrightarrow> rl_pending (foldl rl_apply s (take k (unlock_stores s m))) = Some m)
    \<and> (k = length (unlock_stores s m)
        \<longrightarrow> foldl rl_apply s (take k (unlock_stores s m)) = (foldl rl_apply s (robust_op_del s m))\<lparr>rl_pending := None\<rparr>)"
  using assms
  by (auto simp: unlock_stores_def robust_op_start_def robust_op_del_def robust_op_end_def Let_def take_Cons'
      less_Suc_eq le_Suc_eq split: if_splits)

lemma lock_crash_safe:
  assumes l: "robust_list s xs" and m: "m \<noteq> rl_head s" "m \<notin> set xs" and k: "k \<le> length (lock_stores s m)"
  shows "\<exists>ys \<in> {xs, m # xs}. kernel_sees (foldl rl_apply s (take k (lock_stores s m))) ys
     \<and> (k = length (lock_stores s m) \<longrightarrow> ys = m # xs)"
proof -
  let ?s = "foldl rl_apply s (take k (lock_stores s m))"
  have full: "robust_list (foldl rl_apply s (robust_op_add s m)) (m # xs)" by (rule robust_add_list [OF l m])
  have 0: "kernel_sees s xs" by (rule robust_list_sees [OF l])
  have 2: "kernel_sees (foldl rl_apply s (robust_op_add s m)) (m # xs)" by (rule robust_list_sees [OF full])
  have 1: "kernel_sees (s\<lparr>rl_next := (rl_next s)(m := v)\<rparr>) xs" for v
    using 0 m unfolding kernel_sees_def by (auto intro: forward_cong)
  show ?thesis
  proof (cases "k = length (lock_stores s m)")
    case True
    then have "?s = (foldl rl_apply s (robust_op_add s m))\<lparr>rl_pending := None\<rparr>"
      using lock_stores_prefix [OF k] by blast
    then have "kernel_sees ?s (m # xs)" by (intro kernel_sees_cong [OF 2]) simp_all
    then show ?thesis by blast
  next
    case False
    from lock_stores_prefix [OF k] consider "rl_next ?s = rl_next s"
      | "rl_next ?s = (rl_next s)(m := rl_next s (rl_head s))" | "rl_next ?s = rl_next (foldl rl_apply s (robust_op_add s m))"
      by blast
    then show ?thesis
    proof cases
      case 1
      have "kernel_sees ?s xs" by (rule kernel_sees_cong [OF 0 1]) simp
      then show ?thesis using False by blast
    next
      case 2
      have "kernel_sees ?s xs" by (rule kernel_sees_cong [OF 1]) (simp_all add: 2)
      then show ?thesis using False by blast
    next
      case 3
      have "kernel_sees ?s (m # xs)" by (rule kernel_sees_cong [OF 2 3]) simp
      then show ?thesis by blast
    qed
  qed
qed

lemma unlock_crash_safe:
  assumes l: "robust_list s xs" and m: "m \<in> set xs" and k: "k \<le> length (unlock_stores s m)"
  shows "\<exists>ys \<in> {xs, remove1 m xs}. kernel_sees (foldl rl_apply s (take k (unlock_stores s m))) ys
     \<and> (k = length (unlock_stores s m) \<longrightarrow> ys = remove1 m xs)"
proof -
  let ?s = "foldl rl_apply s (take k (unlock_stores s m))"
  obtain us vs where xs: "xs = us @ m # vs" "m \<notin> set us" using split_list_first [OF m] by blast
  then have r: "remove1 m xs = us @ vs" by (simp add: remove1_append)
  have full: "robust_list (foldl rl_apply s (robust_op_del s m)) (remove1 m xs)"
    unfolding r by (rule robust_del_list) (use l xs in simp)
  have 0: "kernel_sees s xs" by (rule robust_list_sees [OF l])
  have 2: "kernel_sees (foldl rl_apply s (robust_op_del s m)) (remove1 m xs)" by (rule robust_list_sees [OF full])
  show ?thesis
  proof (cases "k = length (unlock_stores s m)")
    case True
    then have "?s = (foldl rl_apply s (robust_op_del s m))\<lparr>rl_pending := None\<rparr>"
      using unlock_stores_prefix [OF k] by blast
    then have "kernel_sees ?s (remove1 m xs)" by (intro kernel_sees_cong [OF 2]) simp_all
    then show ?thesis by blast
  next
    case False
    from unlock_stores_prefix [OF k] consider "rl_next ?s = rl_next s"
      | "rl_next ?s = rl_next (foldl rl_apply s (robust_op_del s m))"
      by blast
    then show ?thesis
    proof cases
      case 1
      have "kernel_sees ?s xs" by (rule kernel_sees_cong [OF 0 1]) simp
      then show ?thesis using False by blast
    next
      case 2
      have "kernel_sees ?s (remove1 m xs)" by (rule kernel_sees_cong [OF \<open>kernel_sees _ (remove1 m xs)\<close> 2]) simp
      then show ?thesis by blast
    qed
  qed
qed

text \<open>A thread's history of locks and unlocks, from a list that \<open>init_thread\<close> has set up.\<close>

datatype rl_op = RLock nat | RUnlock nat

fun op_mtx :: "rl_op \<Rightarrow> nat" where
  "op_mtx (RLock m) = m"
| "op_mtx (RUnlock m) = m"

fun rl_stores :: "robust \<Rightarrow> rl_op \<Rightarrow> rl_store list" where
  "rl_stores s (RLock m) = lock_stores s m"
| "rl_stores s (RUnlock m) = unlock_stores s m"

fun rl_run :: "robust \<Rightarrow> rl_op list \<Rightarrow> robust" where
  "rl_run s [] = s"
| "rl_run s (x # xs) = rl_run (foldl rl_apply s (rl_stores s x)) xs"

definition rl_fresh :: "robust \<Rightarrow> robust" where
  "rl_fresh s = foldl rl_apply s (robust_init s)"

fun held_after :: "nat list \<Rightarrow> rl_op \<Rightarrow> nat list" where
  "held_after ms (RLock m) = m # ms"
| "held_after ms (RUnlock m) = remove1 m ms"

text \<open>A mutex is locked only while not held, and unlocked only while held; none is at the head's address.\<close>

fun op_allowed :: "nat \<Rightarrow> nat list \<Rightarrow> rl_op \<Rightarrow> bool" where
  "op_allowed h ms (RLock m) \<longleftrightarrow> m \<noteq> h \<and> m \<notin> set ms"
| "op_allowed h ms (RUnlock m) \<longleftrightarrow> m \<in> set ms"

fun history_ok :: "nat \<Rightarrow> nat list \<Rightarrow> rl_op list \<Rightarrow> bool" where
  "history_ok h ms [] \<longleftrightarrow> True"
| "history_ok h ms (x # xs) \<longleftrightarrow> op_allowed h ms x \<and> history_ok h (held_after ms x) xs"

lemma rl_fresh_list: "robust_list (rl_fresh s) []"
  by (simp add: rl_fresh_def robust_init_def robust_list_def)

lemma rl_op_list:
  assumes "robust_list s ms" "op_allowed (rl_head s) ms x"
  shows "robust_list (foldl rl_apply s (rl_stores s x)) (held_after ms x)"
proof (cases x)
  case (RLock m)
  have "foldl rl_apply s (take (length (lock_stores s m)) (lock_stores s m))
      = (foldl rl_apply s (robust_op_add s m))\<lparr>rl_pending := None\<rparr>"
    using lock_stores_prefix [of "length (lock_stores s m)" s m] by blast
  then show ?thesis using RLock assms by (simp add: robust_list_pending robust_add_list)
next
  case (RUnlock m)
  then obtain us vs where ms: "ms = us @ m # vs" "m \<notin> set us" using split_list_first assms(2) by fastforce
  have "foldl rl_apply s (take (length (unlock_stores s m)) (unlock_stores s m))
      = (foldl rl_apply s (robust_op_del s m))\<lparr>rl_pending := None\<rparr>"
    using unlock_stores_prefix [of "length (unlock_stores s m)" s m] by blast
  then show ?thesis using RUnlock assms ms by (simp add: robust_list_pending robust_del_list remove1_append)
qed

lemma rl_run_list:
  "robust_list s ms \<Longrightarrow> history_ok (rl_head s) ms xs \<Longrightarrow>
   robust_list (rl_run s xs) (foldl held_after ms xs) \<and> rl_head (rl_run s xs) = rl_head s"
proof (induction xs arbitrary: s ms)
  case (Cons x xs)
  then show ?case using rl_op_list [of s ms x] by simp
qed simp

lemma history_ok_append: "history_ok h ms (xs @ [x]) \<longleftrightarrow> history_ok h ms xs \<and> op_allowed h (foldl held_after ms xs) x"
  by (induction xs arbitrary: ms) auto

lemma stores_crash_safe:
  assumes "robust_list s ms" "op_allowed (rl_head s) ms x" "k \<le> length (rl_stores s x)"
  shows "\<exists>ys \<in> {ms, held_after ms x}. kernel_sees (foldl rl_apply s (take k (rl_stores s x))) ys
     \<and> (k = length (rl_stores s x) \<longrightarrow> ys = held_after ms x)
     \<and> (0 < k \<longrightarrow> k < length (rl_stores s x) \<longrightarrow>
          rl_pending (foldl rl_apply s (take k (rl_stores s x))) = Some (op_mtx x))"
proof (cases x)
  case (RLock m)
  then show ?thesis
    using lock_crash_safe [OF assms(1), of m k] lock_stores_prefix [of k s m] assms(2,3) by auto
next
  case (RUnlock m)
  then show ?thesis
    using unlock_crash_safe [OF assms(1), of m k] unlock_stores_prefix [of k s m] assms(2,3) by auto
qed

text \<open>
  C12. The robust list at every instant: after any history of locks and unlocks by a thread,
  a kill after any store of the next one leaves the kernel a list to walk that is either
  the mutexes held before or those held after it, and while the operation runs its own
  mutex is the pending one, so that no mutex the thread holds is missed.
\<close>

theorem robust_list_crash_safe:
  fixes s0 :: robust and xs :: "rl_op list"
  defines "s \<equiv> rl_run (rl_fresh s0) xs"
  assumes "history_ok (rl_head s0) [] (xs @ [x])" "k \<le> length (rl_stores s x)"
  shows "\<exists>ys \<in> {foldl held_after [] xs, foldl held_after [] (xs @ [x])}.
     kernel_sees (foldl rl_apply s (take k (rl_stores s x))) ys
     \<and> (k = length (rl_stores s x) \<longrightarrow> ys = foldl held_after [] (xs @ [x]))
     \<and> (0 < k \<longrightarrow> k < length (rl_stores s x) \<longrightarrow>
          rl_pending (foldl rl_apply s (take k (rl_stores s x))) = Some (op_mtx x))"
proof -
  have h: "rl_head (rl_fresh s0) = rl_head s0" by (simp add: rl_fresh_def)
  have "history_ok (rl_head (rl_fresh s0)) [] xs" using assms(2) by (simp add: h history_ok_append)
  from rl_run_list [OF rl_fresh_list this]
  have l: "robust_list s (foldl held_after [] xs)" "rl_head s = rl_head s0" by (simp_all add: s_def h)
  have "op_allowed (rl_head s) (foldl held_after [] xs) x" using assms(2) by (simp add: history_ok_append l(2))
  from stores_crash_safe [OF l(1) this assms(3)] show ?thesis by simp
qed

text \<open>Three locks and an unlock from the middle, killed while the second one is unlinked.\<close>

definition list_demo :: robust where
  "list_demo = \<lparr>rl_head = 0, rl_next = (\<lambda>_. 0), rl_prev = (\<lambda>_. 0), rl_pending = None\<rparr>"

theorem robust_list_crash_safe_witness:
  "\<exists>ys \<in> {[3, 2, 1], [3, 1]}.
     kernel_sees (foldl rl_apply (rl_run (rl_fresh list_demo) [RLock 1, RLock 2, RLock 3])
       (take 2 (rl_stores (rl_run (rl_fresh list_demo) [RLock 1, RLock 2, RLock 3]) (RUnlock 2)))) ys"
proof -
  have h: "history_ok (rl_head list_demo) [] ([RLock 1, RLock 2, RLock 3] @ [RUnlock 2])"
    by (simp add: list_demo_def)
  have k: "2 \<le> length (rl_stores (rl_run (rl_fresh list_demo) [RLock 1, RLock 2, RLock 3]) (RUnlock 2))"
    by (simp add: unlock_stores_def robust_op_start_def robust_op_del_def robust_op_end_def Let_def)
  show ?thesis using robust_list_crash_safe [OF h k] by auto
qed

section \<open>Locking\<close>

text \<open>
  Who called \<open>mtx_timedlock_robust\<close> (\<open>lock_for\<close>, or \<open>cnd_timedwait\<close> after a timeout or
  a changed sequence) and who called \<open>mtx_unlock\<close> (the user, \<open>lock_for\<close> after making
  the mutex consistent, or \<open>cnd_timedwait\<close>).
\<close>

datatype lock_caller = FLock | FTimeout | FAgain
datatype unlock_caller = UUser | URetry | UWait

text \<open>Where a thread is; \<open>MFail\<close> is a call that returned an error.\<close>

datatype mtx_pc =
    MIdle
  | MLoad lock_caller
  | MCas lock_caller
  | MPi lock_caller
  | MPost lock_caller
  | MHeld
  | MConsLoad bool
  | MConsAnd bool
  | MULoad unlock_caller
  | MUCas unlock_caller u32
  | MUPi unlock_caller u32
  | MUOr unlock_caller u32
  | MWaitPi
  | MWaitPost
  | MFail errno
  | MDead

text \<open>
  What the caller does with the result of \<open>mtx_timedlock_robust\<close>: \<open>lock_for\<close> recovers
  a dead owner's mutex and starts again; \<open>PlatformCondition::wait\<close> recovers and keeps it.
\<close>

fun lock_result :: "lock_caller \<Rightarrow> errno option \<Rightarrow> mtx_pc" where
  "lock_result FLock None = MHeld"
| "lock_result FLock (Some e) =
     (if e = ETIMEDOUT then MIdle else if e = EOWNERDEAD then MConsLoad True else MFail e)"
| "lock_result FTimeout None = MHeld"
| "lock_result FTimeout (Some e) =
     (if e = EAGAIN then MLoad FAgain else if e = EOWNERDEAD then MConsLoad False
      else if e = ETIMEDOUT then MIdle else MFail e)"
| "lock_result FAgain None = MWaitPost"
| "lock_result FAgain (Some e) =
     (if e = EOWNERDEAD then MConsLoad False else if e = ETIMEDOUT then MIdle else MFail e)"

fun unlock_done :: "unlock_caller \<Rightarrow> mtx_pc" where
  "unlock_done UUser = MIdle"
| "unlock_done URetry = MLoad FLock"
| "unlock_done UWait = MWaitPi"

text \<open>One access of user space to the futex word.\<close>

fun mtx_access :: "u32 \<Rightarrow> mtx_pc \<Rightarrow> u32 \<Rightarrow> (mtx_pc \<times> u32) option" where
  "mtx_access tid (MLoad c) w =
     Some (if ftx_notrecoverable w then lock_result c (Some ENOTRECOVERABLE) else MCas c, w)"
| "mtx_access tid (MCas c) w = Some (if w = 0 then (lock_result c None, tid) else (MPi c, w))"
| "mtx_access tid (MPost c) w = Some (lock_result c (if ftx_owner_died w then Some EOWNERDEAD else None), w)"
| "mtx_access tid (MConsLoad retry) w =
     Some (if \<not> ftx_owner_died w then MFail EINVAL else if ftx_tid w \<noteq> tid then MFail EPERM else MConsAnd retry, w)"
| "mtx_access tid (MConsAnd retry) w = Some (if retry then MULoad URetry else MHeld, w AND NOT FUTEX_OWNER_DIED)"
| "mtx_access tid (MULoad c) w =
     Some (if ftx_tid w \<noteq> tid then MFail EPERM else MUCas c (if ftx_owner_died w then FTX_NOTRECOVERABLE else 0), w)"
| "mtx_access tid (MUCas c nv) w = Some (if w = tid then (unlock_done c, nv) else (MUPi c nv, w))"
| "mtx_access tid (MUOr c nv) w = Some (unlock_done c, w OR nv)"
| "mtx_access tid MWaitPost w = Some (if ftx_owner_died w then MConsLoad False else MHeld, w)"
| "mtx_access tid _ w = None"

text \<open>How \<open>cnd_timedwait\<close> goes on after an error of the wait in the kernel.\<close>

fun wait_result_pc :: "errno \<Rightarrow> mtx_pc" where
  "wait_result_pc EINTR = MWaitPi"
| "wait_result_pc ETIMEDOUT = MLoad FTimeout"
| "wait_result_pc EAGAIN = MLoad FAgain"
| "wait_result_pc EOWNERDEAD = MConsLoad False"
| "wait_result_pc e = MFail e"

record mtx_sys =
  mword :: u32
  mpcs :: "u32 \<Rightarrow> mtx_pc"

definition mtx_zero :: mtx_sys where
  "mtx_zero = \<lparr>mword = 0, mpcs = (\<lambda>_. MIdle)\<rparr>"

text \<open>Thread ids fit the field of the word, and the all-ones field is none.\<close>

definition valid_tid :: "u32 \<Rightarrow> bool" where
  "valid_tid t \<longleftrightarrow> t \<noteq> 0 \<and> t < FUTEX_TID_MASK"

fun in_kernel :: "mtx_pc \<Rightarrow> bool" where
  "in_kernel (MPi c) = True"
| "in_kernel MWaitPi = True"
| "in_kernel _ = False"

definition FUTEX_WAITERS :: u32 where "FUTEX_WAITERS = 0x80000000"

text \<open>
  The kernel: \<open>kl\<close> is a lock that succeeds, \<open>ku\<close> an unlock, \<open>kd\<close> the exit of a
  thread, each by a thread id, on the word before and after.
\<close>

type_synonym kernel_op = "u32 \<Rightarrow> u32 \<Rightarrow> u32 \<Rightarrow> bool"

abbreviation set_pc :: "u32 \<Rightarrow> mtx_pc \<Rightarrow> u32 \<Rightarrow> mtx_sys \<Rightarrow> mtx_sys" where
  "set_pc t p w s \<equiv> \<lparr>mword = w, mpcs = (mpcs s)(t := p)\<rparr>"

inductive mtx_step :: "kernel_op \<Rightarrow> kernel_op \<Rightarrow> kernel_op \<Rightarrow> mtx_sys \<Rightarrow> mtx_sys \<Rightarrow> bool" for kl ku kd where
  m_call_lock: "valid_tid t \<Longrightarrow> mpcs s t = MIdle \<or> mpcs s t = MFail e \<Longrightarrow> mtx_step kl ku kd s (set_pc t (MLoad FLock) (mword s) s)"
| m_call_unlock: "mpcs s t = MHeld \<Longrightarrow> mtx_step kl ku kd s (set_pc t (MULoad UUser) (mword s) s)"
| m_call_wait: "mpcs s t = MHeld \<Longrightarrow> mtx_step kl ku kd s (set_pc t (MULoad UWait) (mword s) s)"
| m_access: "mtx_access t (mpcs s t) (mword s) = Some (p, w) \<Longrightarrow> mtx_step kl ku kd s (set_pc t p w s)"
| m_pi_ok: "mpcs s t = MPi c \<Longrightarrow> kl t (mword s) w \<Longrightarrow> mtx_step kl ku kd s (set_pc t (MPost c) w s)"
| m_pi_err: "mpcs s t = MPi c \<Longrightarrow> e \<noteq> EOWNERDEAD \<Longrightarrow>
    mtx_step kl ku kd s (set_pc t (if e = EINTR then MLoad c else lock_result c (Some e)) (mword s) s)"
| m_wait_ok: "mpcs s t = MWaitPi \<Longrightarrow> kl t (mword s) w \<Longrightarrow> mtx_step kl ku kd s (set_pc t MWaitPost w s)"
| m_wait_err: "mpcs s t = MWaitPi \<Longrightarrow> e \<noteq> EOWNERDEAD \<Longrightarrow>
    mtx_step kl ku kd s (set_pc t (wait_result_pc e) (mword s) s)"
| m_unlock_ok: "mpcs s t = MUPi c nv \<Longrightarrow> ku t (mword s) w \<Longrightarrow> ftx_tid w = 0 \<or> in_kernel (mpcs s (ftx_tid w)) \<Longrightarrow>
    mtx_step kl ku kd s (set_pc t (if nv \<noteq> 0 then MUOr c nv else unlock_done c) w s)"
| m_unlock_err: "mpcs s t = MUPi c nv \<Longrightarrow>
    mtx_step kl ku kd s (set_pc t (if nv \<noteq> 0 then MUOr c nv else unlock_done c) (mword s) s)"
| m_blocks: "in_kernel (mpcs s t) \<Longrightarrow> mtx_step kl ku kd s (s\<lparr>mword := mword s OR FUTEX_WAITERS\<rparr>)"
| m_dies: "valid_tid t \<Longrightarrow> (if ftx_tid (mword s) = t then kd t (mword s) w else w = mword s) \<Longrightarrow>
    mtx_step kl ku kd s (set_pc t MDead w s)"

text \<open>What the kernel documents of the three.\<close>

definition kernel_lock :: "kernel_op \<Rightarrow> bool" where
  "kernel_lock kl \<longleftrightarrow> (\<forall>t w w'. kl t w w' \<longrightarrow>
     (ftx_tid w = 0 \<or> ftx_tid w = t) \<and> ftx_tid w' = t)"

definition kernel_death :: "kernel_op \<Rightarrow> bool" where
  "kernel_death kd \<longleftrightarrow> (\<forall>t w w'. kd t w w' \<longrightarrow> ftx_tid w' = 0)"

section \<open>Mutual exclusion\<close>

fun pc_ok :: "u32 \<Rightarrow> u32 \<Rightarrow> mtx_pc \<Rightarrow> bool" where
  "pc_ok t w (MPost c) \<longleftrightarrow> ftx_tid w = t"
| "pc_ok t w MWaitPost \<longleftrightarrow> ftx_tid w = t"
| "pc_ok t w (MConsLoad b) \<longleftrightarrow> ftx_tid w = t \<and> ftx_owner_died w"
| "pc_ok t w (MConsAnd b) \<longleftrightarrow> ftx_tid w = t \<and> ftx_owner_died w"
| "pc_ok t w MHeld \<longleftrightarrow> ftx_tid w = t \<and> \<not> ftx_owner_died w"
| "pc_ok t w (MULoad c) \<longleftrightarrow> ftx_tid w = t \<and> \<not> ftx_owner_died w"
| "pc_ok t w (MUCas c nv) \<longleftrightarrow> ftx_tid w = t \<and> nv = 0"
| "pc_ok t w (MUPi c nv) \<longleftrightarrow> ftx_tid w = t \<and> nv = 0"
| "pc_ok t w (MUOr c nv) \<longleftrightarrow> False"
| "pc_ok t w _ \<longleftrightarrow> True"

definition mtx_inv :: "mtx_sys \<Rightarrow> bool" where
  "mtx_inv s \<longleftrightarrow> (\<forall>t. pc_ok t (mword s) (mpcs s t)) \<and> (\<forall>t. \<not> valid_tid t \<longrightarrow> mpcs s t = MIdle)
     \<and> (ftx_tid (mword s) = 0 \<or> valid_tid (ftx_tid (mword s)))"

lemma mtx_invD:
  "mtx_inv s \<Longrightarrow> pc_ok t (mword s) (mpcs s t)"
  "mtx_inv s \<Longrightarrow> mpcs s t \<noteq> MIdle \<Longrightarrow> valid_tid t"
  "mtx_inv s \<Longrightarrow> ftx_tid (mword s) = 0 \<or> valid_tid (ftx_tid (mword s))"
  unfolding mtx_inv_def by blast+

lemma pc_ok_same: "pc_ok u w p \<Longrightarrow> ftx_tid w' = ftx_tid w \<Longrightarrow> ftx_owner_died w' = ftx_owner_died w \<Longrightarrow> pc_ok u w' p"
  by (cases p) auto

lemma pc_ok_free: "pc_ok u w p \<Longrightarrow> ftx_tid w \<noteq> u \<Longrightarrow> pc_ok u w' p"
  by (cases p) auto

text \<open>A thread moves on and changes the word only while it owns the mutex or nobody does.\<close>

lemma mtx_inv_update:
  assumes inv: "mtx_inv s" and t: "valid_tid t" and p: "pc_ok t w p"
    and free: "w = mword s \<or> ftx_tid (mword s) = 0 \<or> ftx_tid (mword s) = t"
    and w: "ftx_tid w = 0 \<or> valid_tid (ftx_tid w)"
  shows "mtx_inv (set_pc t p w s)"
proof -
  have "pc_ok u w (mpcs s u)" if u: "u \<noteq> t" for u
  proof (cases "w = mword s \<or> mpcs s u = MIdle")
    case True
    then show ?thesis using mtx_invD(1) [OF inv, of u] by auto
  next
    case False
    then have "u \<noteq> 0" "w \<noteq> mword s" using mtx_invD(2) [OF inv] by (auto simp: valid_tid_def)
    then have "ftx_tid (mword s) \<noteq> u" using free u by auto
    then show ?thesis by (rule pc_ok_free [OF mtx_invD(1) [OF inv]])
  qed
  moreover have "mpcs s u = MIdle" if "\<not> valid_tid u" for u using mtx_invD(2) [OF inv] that by blast
  ultimately show ?thesis unfolding mtx_inv_def using p w t by auto
qed

lemmas ftx_defs = ftx_tid_def ftx_owner_died_def ftx_notrecoverable_def FUTEX_TID_MASK_def FUTEX_OWNER_DIED_def
  FTX_NOTRECOVERABLE_def FUTEX_WAITERS_def

lemma ftx_tid_valid [simp]: "valid_tid t \<Longrightarrow> ftx_tid t = t"
proof -
  assume t: "valid_tid t"
  then have "t < 0x3fffffff" by (simp add: valid_tid_def FUTEX_TID_MASK_def)
  then have "t < 2 ^ 30" by (rule less_trans) simp
  then have "t AND mask 30 = t" by (rule less_mask_eq)
  moreover have "mask 30 = FUTEX_TID_MASK" by (simp add: mask_eq_exp_minus_1 FUTEX_TID_MASK_def)
  ultimately show ?thesis by (simp add: ftx_tid_def)
qed

lemma ftx_owner_died_valid [simp]: "valid_tid t \<Longrightarrow> \<not> ftx_owner_died t"
proof -
  assume "valid_tid t"
  then have "t AND FUTEX_OWNER_DIED = (t AND FUTEX_TID_MASK) AND FUTEX_OWNER_DIED"
    using ftx_tid_valid by (simp add: ftx_tid_def)
  also have "\<dots> = t AND (FUTEX_TID_MASK AND FUTEX_OWNER_DIED)" by (simp only: and.assoc)
  also have "\<dots> = 0" by (simp add: ftx_defs)
  finally show ?thesis by (simp add: ftx_owner_died_def)
qed

lemma ftx_zero [simp]: "ftx_tid 0 = 0" "\<not> ftx_owner_died 0" "\<not> valid_tid 0"
  by (simp_all add: ftx_defs valid_tid_def)

lemma ftx_consistent [simp]:
  "ftx_tid (w AND NOT FUTEX_OWNER_DIED) = ftx_tid w" "\<not> ftx_owner_died (w AND NOT FUTEX_OWNER_DIED)"
  by (simp_all add: ftx_defs and.assoc)

lemma ftx_waiters [simp]:
  "ftx_tid (w OR FUTEX_WAITERS) = ftx_tid w" "ftx_owner_died (w OR FUTEX_WAITERS) = ftx_owner_died w"
  by (simp_all add: ftx_defs bit.conj_disj_distrib2)

lemma not_notrecoverable: "ftx_tid w = 0 \<or> valid_tid (ftx_tid w) \<Longrightarrow> \<not> ftx_notrecoverable w"
proof
  assume a: "ftx_tid w = 0 \<or> valid_tid (ftx_tid w)" and n: "ftx_notrecoverable w"
  have "ftx_tid w = (w AND FTX_NOTRECOVERABLE) AND FUTEX_TID_MASK" by (simp add: ftx_defs and.assoc)
  also have "\<dots> = FUTEX_TID_MASK" using n by (simp add: ftx_notrecoverable_def) (simp add: ftx_defs)
  finally show False using a by (auto simp: valid_tid_def) (simp add: FUTEX_TID_MASK_def)
qed

lemma pc_ok_lock_result: "pc_ok t w (lock_result c None) \<longleftrightarrow> (if c = FAgain then ftx_tid w = t else ftx_tid w = t \<and> \<not> ftx_owner_died w)"
  "e \<noteq> EOWNERDEAD \<Longrightarrow> pc_ok t w (lock_result c (Some e))"
  "pc_ok t w (lock_result c (Some EOWNERDEAD)) \<longleftrightarrow> ftx_tid w = t \<and> ftx_owner_died w"
  by (cases c; simp)+

lemma pc_ok_unlock_done [simp]: "pc_ok t w (unlock_done c)"
  by (cases c) simp_all

lemma mtx_access_ok:
  assumes inv: "mtx_inv s" and a: "mtx_access t (mpcs s t) (mword s) = Some (p, w)"
  shows "mtx_inv (set_pc t p w s)"
proof -
  have t: "valid_tid t" using mtx_invD(2) [OF inv, of t] a by fastforce
  note ok = mtx_invD(1) [OF inv, of t]
  note u = mtx_inv_update [OF inv t] and tid = mtx_invD(3) [OF inv]
  show ?thesis
  proof (cases "mpcs s t")
    case (MLoad c)
    then show ?thesis using a tid by (intro u) (auto simp: pc_ok_lock_result)
  next
    case (MCas c)
    then show ?thesis using a t tid by (intro u) (auto simp: pc_ok_lock_result split: if_splits)
  next
    case (MPost c)
    then show ?thesis using a t ok tid by (intro u) (auto simp: pc_ok_lock_result split: if_splits)
  next
    case (MConsLoad b)
    then show ?thesis using a t ok tid by (intro u) (auto split: if_splits)
  next
    case (MConsAnd b)
    then show ?thesis using a t ok tid by (intro u) (auto split: if_splits)
  next
    case (MULoad c)
    then show ?thesis using a t ok tid by (intro u) (auto split: if_splits)
  next
    case (MUCas c nv)
    then show ?thesis using a t ok tid by (intro u) (auto split: if_splits)
  next
    case (MUOr c nv)
    then show ?thesis using ok by simp
  next
    case MWaitPost
    then show ?thesis using a t ok tid by (intro u) (auto split: if_splits)
  qed (use a in simp_all)
qed

lemma mtx_step_inv:
  assumes "mtx_step kl ku kd s s'" "kernel_lock kl" "kernel_death kd" and inv: "mtx_inv s"
  shows "mtx_inv s'"
  using assms(1)
proof cases
  case (m_call_lock t e)
  then show ?thesis using mtx_invD(3) [OF inv] by (auto intro!: mtx_inv_update [OF inv])
next
  case (m_call_unlock t)
  then show ?thesis using mtx_invD(1,2) [OF inv, of t] mtx_invD(3) [OF inv] by (auto intro!: mtx_inv_update [OF inv])
next
  case (m_call_wait t)
  then show ?thesis using mtx_invD(1,2) [OF inv, of t] mtx_invD(3) [OF inv] by (auto intro!: mtx_inv_update [OF inv])
next
  case (m_access t p w)
  then show ?thesis using mtx_access_ok [OF inv] by simp
next
  case (m_pi_ok t c w)
  have t: "valid_tid t" using mtx_invD(2) [OF inv, of t] m_pi_ok by simp
  then show ?thesis using m_pi_ok assms(2) by (auto intro!: mtx_inv_update [OF inv] simp: kernel_lock_def)
next
  case (m_pi_err t c e)
  have t: "valid_tid t" using mtx_invD(2) [OF inv, of t] m_pi_err by simp
  then show ?thesis using m_pi_err mtx_invD(3) [OF inv]
    by (auto intro!: mtx_inv_update [OF inv] simp: pc_ok_lock_result)
next
  case (m_wait_ok t w)
  have t: "valid_tid t" using mtx_invD(2) [OF inv, of t] m_wait_ok by simp
  then show ?thesis using m_wait_ok assms(2) by (auto intro!: mtx_inv_update [OF inv] simp: kernel_lock_def)
next
  case (m_wait_err t e)
  have t: "valid_tid t" using mtx_invD(2) [OF inv, of t] m_wait_err by simp
  then show ?thesis using m_wait_err mtx_invD(3) [OF inv] by (cases e) (auto intro!: mtx_inv_update [OF inv])
next
  case (m_unlock_ok t c nv w)
  have t: "valid_tid t" using mtx_invD(2) [OF inv, of t] m_unlock_ok by simp
  have "ftx_tid w = 0 \<or> valid_tid (ftx_tid w)"
    using m_unlock_ok(4) mtx_invD(2) [OF inv, of "ftx_tid w"] by (cases "mpcs s (ftx_tid w)") auto
  then show ?thesis using t m_unlock_ok mtx_invD(1) [OF inv, of t] by (auto intro!: mtx_inv_update [OF inv])
next
  case (m_unlock_err t c nv)
  have t: "valid_tid t" using mtx_invD(2) [OF inv, of t] m_unlock_err by simp
  then show ?thesis using m_unlock_err mtx_invD(1) [OF inv, of t] mtx_invD(3) [OF inv]
    by (auto intro!: mtx_inv_update [OF inv])
next
  case (m_blocks t)
  then show ?thesis using inv pc_ok_same [of _ "mword s" _ "mword s OR FUTEX_WAITERS"] by (simp add: mtx_inv_def)
next
  case (m_dies t w)
  then show ?thesis using assms(3) mtx_invD(3) [OF inv]
    by (auto intro!: mtx_inv_update [OF inv] simp: kernel_death_def split: if_splits)
qed

lemma mtx_inv_zero: "mtx_inv mtx_zero"
  by (simp add: mtx_inv_def mtx_zero_def)

text \<open>The steps on a kernel that keeps its promises.\<close>

definition mtx_system :: "kernel_op \<Rightarrow> kernel_op \<Rightarrow> kernel_op \<Rightarrow> mtx_sys \<Rightarrow> mtx_sys \<Rightarrow> bool" where
  "mtx_system kl ku kd s s' \<longleftrightarrow> kernel_lock kl \<and> kernel_death kd \<and> mtx_step kl ku kd s s'"

interpretation mtx: invariant_system mtx_zero "mtx_system kl ku kd" mtx_inv
  by unfold_locales (auto simp: mtx_inv_zero mtx_system_def intro: mtx_step_inv)

lemma mtx_reachable_inv:
  assumes "kernel_lock kl" "kernel_death kd" "rtranclp (mtx_step kl ku kd) mtx_zero s"
  shows "mtx_inv s"
proof -
  have "rtranclp (mtx_system kl ku kd) mtx_zero s"
    using assms(3) by (rule rtranclp_mono [THEN predicate2D, rotated]) (auto simp: mtx_system_def assms(1,2))
  then show ?thesis by (rule mtx.reachable_inv)
qed

text \<open>
  C10. The Linux mutex: with a kernel whose lock takes only a word without an owner or one
  it has handed over, and whose exit clears the owner, at most one thread is between its
  lock and its unlock however threads lock, unlock, wait, time out and are killed. The
  word then names that thread without the owner-died bit, and it is never unrecoverable.
\<close>

theorem robust_mutex_exclusion:
  assumes "kernel_lock kl" "kernel_death kd" "rtranclp (mtx_step kl ku kd) mtx_zero s"
  shows "(mpcs s t = MHeld \<longrightarrow> ftx_tid (mword s) = t \<and> \<not> ftx_owner_died (mword s) \<and> (\<forall>u. mpcs s u = MHeld \<longrightarrow> u = t))
    \<and> \<not> ftx_notrecoverable (mword s)"
proof -
  have inv: "mtx_inv s" by (rule mtx_reachable_inv [OF assms])
  have "ftx_tid (mword s) = u \<and> \<not> ftx_owner_died (mword s)" if "mpcs s u = MHeld" for u
    using mtx_invD(1) [OF inv, of u] that by simp
  then show ?thesis using not_notrecoverable [OF mtx_invD(3) [OF inv]] by metis
qed

text \<open>A kernel, and a run in which a holder is killed and the next one recovers the mutex.\<close>

definition demo_kl :: kernel_op where
  "demo_kl t w w' \<longleftrightarrow> valid_tid t \<and> (ftx_tid w = 0 \<or> ftx_tid w = t) \<and> w' = (w AND 0xC0000000) OR t"

definition demo_ku :: kernel_op where
  "demo_ku t w w' \<longleftrightarrow> ftx_tid w = t \<and> w' = 0"

definition demo_kd :: kernel_op where
  "demo_kd t w w' \<longleftrightarrow> w' = (w AND FUTEX_WAITERS) OR FUTEX_OWNER_DIED"

lemma demo_kernel: "kernel_lock demo_kl" "kernel_death demo_kd"
proof -
  have "((w AND 0xC0000000) OR t) AND FUTEX_TID_MASK = t AND FUTEX_TID_MASK" for w t :: u32
    by (simp add: bit.conj_disj_distrib2 and.assoc FUTEX_TID_MASK_def)
  then show "kernel_lock demo_kl" using ftx_tid_valid by (auto simp: kernel_lock_def demo_kl_def ftx_tid_def)
  have "((w AND FUTEX_WAITERS) OR FUTEX_OWNER_DIED) AND FUTEX_TID_MASK = 0" for w :: u32
    by (simp add: bit.conj_disj_distrib2 and.assoc ftx_defs)
  then show "kernel_death demo_kd" by (simp add: kernel_death_def demo_kd_def ftx_tid_def)
qed

datatype mtx_event = EvLock u32 | EvAccess u32 | EvPi u32 | EvDie u32

fun mtx_do :: "mtx_event \<Rightarrow> mtx_sys \<Rightarrow> mtx_sys option" where
  "mtx_do (EvLock t) s =
     (if valid_tid t \<and> mpcs s t = MIdle then Some (set_pc t (MLoad FLock) (mword s) s) else None)"
| "mtx_do (EvAccess t) s =
     (case mtx_access t (mpcs s t) (mword s) of None \<Rightarrow> None | Some (p, w) \<Rightarrow> Some (set_pc t p w s))"
| "mtx_do (EvPi t) s = (case mpcs s t of
     MPi c \<Rightarrow>
       if valid_tid t \<and> (ftx_tid (mword s) = 0 \<or> ftx_tid (mword s) = t)
       then Some (set_pc t (MPost c) ((mword s AND 0xC0000000) OR t) s) else None
   | _ \<Rightarrow> None)"
| "mtx_do (EvDie t) s =
     (if valid_tid t
      then Some (set_pc t MDead
        (if ftx_tid (mword s) = t then (mword s AND FUTEX_WAITERS) OR FUTEX_OWNER_DIED else mword s) s)
      else None)"

fun mtx_run :: "mtx_event list \<Rightarrow> mtx_sys \<Rightarrow> mtx_sys option" where
  "mtx_run [] s = Some s"
| "mtx_run (x # xs) s = (case mtx_do x s of None \<Rightarrow> None | Some s' \<Rightarrow> mtx_run xs s')"

lemma mtx_do_step: "mtx_do x s = Some s' \<Longrightarrow> mtx_step demo_kl demo_ku demo_kd s s'"
proof (cases x)
  case (EvLock t)
  assume "mtx_do x s = Some s'"
  then show ?thesis using EvLock by (auto intro: m_call_lock split: if_splits)
next
  case (EvAccess t)
  assume "mtx_do x s = Some s'"
  then show ?thesis using EvAccess by (auto intro: m_access split: option.splits)
next
  case (EvPi t)
  assume "mtx_do x s = Some s'"
  then show ?thesis using EvPi by (auto intro!: m_pi_ok simp: demo_kl_def split: mtx_pc.splits if_splits)
next
  case (EvDie t)
  assume "mtx_do x s = Some s'"
  then show ?thesis using EvDie by (auto intro!: m_dies simp: demo_kd_def split: if_splits)
qed

lemma mtx_run_steps: "mtx_run xs s = Some s' \<Longrightarrow> rtranclp (mtx_step demo_kl demo_ku demo_kd) s s'"
  by (induction xs arbitrary: s)
    (auto intro: converse_rtranclp_into_rtranclp mtx_do_step split: option.splits)

definition mtx_trace :: "mtx_event list" where
  "mtx_trace = [EvLock 7, EvAccess 7, EvAccess 7, EvDie 7, EvLock 9, EvAccess 9, EvAccess 9, EvPi 9] @ replicate 7 (EvAccess 9)"

lemma mtx_trace_runs:
  "case mtx_run mtx_trace mtx_zero of None \<Rightarrow> False
   | Some s \<Rightarrow> mpcs s 7 = MDead \<and> mpcs s 9 = MHeld"
  by code_simp

theorem robust_mutex_exclusion_witness:
  "\<exists>s. rtranclp (mtx_step demo_kl demo_ku demo_kd) mtx_zero s \<and> mpcs s 7 = MDead \<and> mpcs s 9 = MHeld
     \<and> ftx_tid (mword s) = 9 \<and> \<not> ftx_owner_died (mword s) \<and> \<not> ftx_notrecoverable (mword s)"
proof -
  obtain s where s: "mtx_run mtx_trace mtx_zero = Some s" "mpcs s 7 = MDead" "mpcs s 9 = MHeld"
    using mtx_trace_runs by (auto split: option.splits)
  have r: "rtranclp (mtx_step demo_kl demo_ku demo_kd) mtx_zero s" by (rule mtx_run_steps [OF s(1)])
  show ?thesis using robust_mutex_exclusion [OF demo_kernel r, of 9] r s by blast
qed

section \<open>The remaining calls\<close>

text \<open>
  \<open>mtx_trylock_impl\<close> on the word it finds: the result, the word after, and whether
  the mutex was put on the robust list; \<open>pi\<close> is what \<open>FUTEX_TRYLOCK_PI\<close> answers.
\<close>

definition mtx_trylock_impl :: "u32 \<Rightarrow> u32 \<Rightarrow> errno + u32 \<Rightarrow> errno option \<times> u32 \<times> bool" where
  "mtx_trylock_impl tid w pi =
     (if w = 0 then (None, tid, True)
      else if ftx_notrecoverable w then (Some ENOTRECOVERABLE, w, False)
      else if \<not> ftx_owner_died w then (Some EBUSY, w, False)
      else case pi of
        Inr w' \<Rightarrow> (if ftx_owner_died w' then Some EOWNERDEAD else None, w', True)
      | Inl e \<Rightarrow> (Some (if e = EAGAIN then EBUSY else ENOTRECOVERABLE), w, False))"

lemma trylock_holds:
  assumes "valid_tid tid" "case pi of Inr w' \<Rightarrow> ftx_tid w' = tid | Inl e \<Rightarrow> True"
    "mtx_trylock_impl tid w pi = (r, w', linked)"
  shows "linked \<longleftrightarrow> r = None \<or> r = Some EOWNERDEAD"
    and "linked \<Longrightarrow> ftx_tid w' = tid" and "\<not> linked \<Longrightarrow> w' = w"
  using assms by (auto simp: mtx_trylock_impl_def split: if_splits sum.splits)

text \<open>
  \<open>cnd_wake\<close>: the sequence is bumped, then the requeue is tried with the value last
  read until the kernel accepts it; each attempt has the kernel's answer and the
  sequence as it is read afterwards.
\<close>

fun cnd_wake_loop :: "u32 \<Rightarrow> (u32 \<Rightarrow> errno option) list \<Rightarrow> u32 list \<Rightarrow> (errno option \<times> u32) option" where
  "cnd_wake_loop val (answer # answers) (reread # seqs) =
     (if answer val = Some EAGAIN then cnd_wake_loop reread answers seqs else Some (answer val, val))"
| "cnd_wake_loop val _ _ = None"

definition cnd_wake :: "u32 \<Rightarrow> (u32 \<Rightarrow> errno option) list \<Rightarrow> u32 list \<Rightarrow> u32 \<times> (errno option \<times> u32) option" where
  "cnd_wake seq answers seqs = (seq + 1, cnd_wake_loop (seq + 1) answers seqs)"

text \<open>The results of \<open>PlatformMutex\<close>, from that of \<open>lock_for\<close>.\<close>

definition lock_for_result :: "errno option \<Rightarrow> (errno + bool) option" where
  "lock_for_result r =
     (case r of None \<Rightarrow> Some (Inr True)
      | Some e \<Rightarrow> if e = ETIMEDOUT then Some (Inr False) else if e = EOWNERDEAD then None else Some (Inl e))"

definition platform_lock :: "errno + bool \<Rightarrow> errno + unit" where
  "platform_lock r = (case r of Inr b \<Rightarrow> if b then Inr () else Inl ETIMEDOUT | Inl e \<Rightarrow> Inl e)"

definition platform_try_lock :: "errno + bool \<Rightarrow> errno + bool" where
  "platform_try_lock r = (case r of Inl e \<Rightarrow> if e = EDEADLK then Inr False else Inl e | Inr b \<Rightarrow> Inr b)"

definition lock_deadline :: "errno + timespec \<Rightarrow> u64 \<Rightarrow> errno + timespec option" where
  "lock_deadline now tm =
     (if tm = INFINITE_MS then Inr None
      else case make_deadline now tm of Inl e \<Rightarrow> Inl e | Inr ts \<Rightarrow> Inr (Some ts))"

definition wait_deadline :: "errno + timespec \<Rightarrow> u64 option \<Rightarrow> errno + timespec option" where
  "wait_deadline now timeout_ms =
     (let tm = (case timeout_ms of None \<Rightarrow> INFINITE_MS | Some t \<Rightarrow> t) in
      if tm = INFINITE_MS then Inr None
      else case make_deadline now tm of
        Inl e \<Rightarrow> Inl e
      | Inr ts \<Rightarrow> if \<not> deadline_valid ts then Inl EINVAL else Inr (Some ts))"

lemma wait_deadline_ok:
  assumes "normal now" "0 \<le> tv_sec now" "0 < total_ns now" "uint tm < 9223372036854" "tm \<noteq> INFINITE_MS"
  shows "\<exists>ts. wait_deadline (Inr now) (Some tm) = Inr (Some ts) \<and> total_ns ts = total_ns now + uint tm * 1000000"
proof -
  obtain ts where ts: "make_deadline (Inr now) tm = Inr ts" "normal ts" "total_ns ts = total_ns now + uint tm * 1000000"
    using make_deadline_exact [OF assms(1,4)] by blast
  have pos: "0 < total_ns ts" using ts(3) assms(3) by (simp add: add_pos_nonneg)
  have "0 \<le> tv_sec ts"
  proof (rule ccontr)
    assume "\<not> 0 \<le> tv_sec ts"
    then have "tv_sec ts * NS_PER_SEC \<le> - NS_PER_SEC" by (simp add: NS_PER_SEC_def)
    then show False using pos ts(2) by (simp add: total_ns_def normal_def)
  qed
  then have "deadline_valid ts" using ts(2) pos by (auto simp: deadline_valid_def normal_def total_ns_def)
  then show ?thesis using ts assms(5) by (simp add: wait_deadline_def)
qed

text \<open>
  \<open>cnd_timedwait\<close> puts the mutex back on the list whatever the wait returned. After an
  error that leaves it unlocked, the next lock links it a second time: it then points to
  itself, and the walk no longer gets to the other mutexes of the thread.
\<close>

lemma relink_loses_list:
  assumes "robust_list s (m # xs)"
  shows "rl_next (foldl rl_apply s (robust_op_add s m)) m = m"
    and "\<not> kernel_sees (foldl rl_apply s (robust_op_add s m)) ys"
proof -
  let ?s = "foldl rl_apply s (robust_op_add s m)"
  have m: "rl_next s (rl_head s) = m" "m \<noteq> rl_head s" using assms by (auto simp: robust_list_def)
  then have n: "rl_next ?s m = m" "rl_next ?s (rl_head s) = m"
    by (simp_all add: robust_op_add_def robust_is_head_def Let_def)
  then show "rl_next ?s m = m" by simp
  have loop: "\<not> forward ?s m zs" for zs by (induction zs) (use n m in auto)
  show "\<not> kernel_sees ?s ys" by (cases ys) (use n m loop in \<open>auto simp: kernel_sees_def\<close>)
qed

end
