(* ===== verification/Delivery.thy ===== *)
theory Delivery
  imports Route "HOL-Library.Sublist"
begin

text \<open>
  From \<open>send\<close> to \<open>recv\<close> on a route: the sender of \<open>Route\<close> pushes the fragments that
  \<open>send\<close> makes of one message after the other, and a receiver reassembles the
  slots it reads. The lemmas here carry the end-to-end property of the root theory.
\<close>

section \<open>What send pushes\<close>

text \<open>
  The fragments of a sequence of \<open>send\<close> calls: an empty message is refused, any other
  takes the next id of the sender and is cut by \<open>fragments\<close>.
\<close>

fun send_stream :: "u32 \<Rightarrow> u8 list list \<Rightarrow> (u32 \<times> i32 \<times> u8 list) list" where
  "send_stream seq [] = []"
| "send_stream seq (m # ms) =
     (if m = [] then send_stream seq ms
      else map (Pair seq) (fragments m) @ send_stream (seq + 1) ms)"

text \<open>
  The system of \<open>Route\<close> with the fragments still to be pushed: the sender takes the
  next one when \<open>push_fragment\<close> returned true.
\<close>

inductive delivery_step ::
  "u32 \<Rightarrow> nat set \<Rightarrow> route_sys \<times> (u32 \<times> i32 \<times> u8 list) list \<Rightarrow> route_sys \<times> (u32 \<times> i32 \<times> u8 list) list \<Rightarrow> bool"
  for cc_id R where
  d_send: "ch \<noteq> Timeout \<Longrightarrow> delivery_step cc_id R (s, todo) (sender_step cc_id ch s, todo)"
| d_call: "rs_pc s = PReturn True \<Longrightarrow> delivery_step cc_id R (s, f # todo) (s\<lparr>rs_pc := PConn, rs_frag := f\<rparr>, todo)"
| d_recv: "r \<in> R \<Longrightarrow> delivery_step cc_id R (s, todo) (receiver_step ch r s, todo)"

lemma delivery_route_steps:
  "rtranclp (delivery_step cc_id R) st st' \<Longrightarrow> rtranclp (route_step cc_id R) (fst st) (fst st')"
proof (induction rule: rtranclp_induct)
  case (step y z)
  have "route_step cc_id R (fst y) (fst z)"
    using step.hyps(2) by cases (auto intro: route_step.intros)
  with step.IH show ?case by (rule rtranclp.rtrancl_into_rtrancl)
qed simp

section \<open>What has been published\<close>

definition frag_of :: "frag_record \<Rightarrow> u32 \<times> i32 \<times> u8 list" where
  "frag_of r = (case r of (d, cc_id, mid, remain, payload) \<Rightarrow> (mid, remain, payload))"

definition from_sender :: "u32 \<Rightarrow> frag_record \<Rightarrow> bool" where
  "from_sender c r \<longleftrightarrow> (case r of (d, cc_id, mid, remain, payload) \<Rightarrow> length d = msg_t_size \<and> cc_id = c)"

fun pc_cursor :: "push_pc \<Rightarrow> u32 option" where
  "pc_cursor (PRc cc ep wt) = Some wt"
| "pc_cursor (PWait cc wt) = Some wt"
| "pc_cursor (PCas cc ep wt rc) = Some wt"
| "pc_cursor (PWrite wt) = Some wt"
| "pc_cursor _ = None"

text \<open>
  The published slots are the first fragments of the stream, in order; the
  fragment in hand follows them and then those still to be pushed.
\<close>

definition published :: "u32 \<Rightarrow> (u32 \<times> i32 \<times> u8 list) list \<Rightarrow> route_sys \<times> (u32 \<times> i32 \<times> u8 list) list \<Rightarrow> bool" where
  "published cc_id full st \<longleftrightarrow> (case st of (s, todo) \<Rightarrow>
     (\<exists>recs. rs_hist s = map slot_bytes recs \<and> list_all (from_sender cc_id) recs
       \<and> map frag_of recs @ (if rs_pc s = PReturn True then [] else [rs_frag s]) @ todo = full)
     \<and> (\<forall>i. length (re_data (rg_slots (rs_ring s) i)) = msg_t_size)
     \<and> (\<forall>wt. pc_cursor (rs_pc s) = Some wt \<longrightarrow> wt = rg_write_cursor (rs_ring s))
     \<and> (rs_pc s = PAdvance \<longrightarrow>
         (\<exists>r. from_sender cc_id r \<and> frag_of r = rs_frag s
           \<and> re_data (rg_slots (rs_ring s) (index_of (rg_write_cursor (rs_ring s)))) = slot_bytes r)))"

lemma published_init: "published cc_id full (route_init cc, full)"
  by (auto simp: published_def route_init_def fresh_ring_def intro!: exI [of _ "[]"])

lemma published_call:
  assumes "published cc_id full (s, f # todo)" "rs_pc s = PReturn True"
  shows "published cc_id full (s\<lparr>rs_pc := PConn, rs_frag := f\<rparr>, todo)"
  using assms by (simp add: published_def)

text \<open>A receiver writes no slot data and moves no cursor of the ring.\<close>

lemma recv_access_frame:
  assumes "recv_access conn ch g cur pc = (g', cur', pc')"
  shows "re_data (rg_slots g' i) = re_data (rg_slots g i)" "rg_write_cursor g' = rg_write_cursor g"
  using assms by (auto simp: recv_access_def Let_def split: recv_pc.splits if_splits)

lemma published_recv:
  assumes "published cc_id full (s, todo)"
  shows "published cc_id full (receiver_step ch r s, todo)"
proof -
  let ?v = "rs_recv s r"
  obtain g cur pc where a: "recv_access (2 ^ r) ch (rs_ring s) (rv_cursor ?v) (rv_pc ?v) = (g, cur, pc)"
    by (cases "recv_access (2 ^ r) ch (rs_ring s) (rv_cursor ?v) (rv_pc ?v)")
  then show ?thesis using assms recv_access_frame [OF a]
    by (simp add: published_def receiver_step_def Let_def split del: if_split cong: if_cong)
qed

lemma fragment_payload: "(remain, payload) \<in> set (fragments m) \<Longrightarrow> length payload \<le> data_length"
  by (auto simp: in_set_conv_nth nth_fragments)

lemma send_stream_payload: "(mid, remain, payload) \<in> set (send_stream seq ms) \<Longrightarrow> length payload \<le> data_length"
  by (induction seq ms rule: send_stream.induct) (auto dest: fragment_payload split: if_splits)

lemma published_send:
  assumes p: "published cc_id full (s, todo)" and ch: "ch \<noteq> Timeout"
    and pay: "\<And>mid remain payload. (mid, remain, payload) \<in> set full \<Longrightarrow> length payload \<le> data_length"
  shows "published cc_id full (sender_step cc_id ch s, todo)"
proof -
  obtain recs where recs: "rs_hist s = map slot_bytes recs" "list_all (from_sender cc_id) recs"
    "map frag_of recs @ (if rs_pc s = PReturn True then [] else [rs_frag s]) @ todo = full"
    and len: "\<And>i. length (re_data (rg_slots (rs_ring s) i)) = msg_t_size"
    and cur: "\<And>wt. pc_cursor (rs_pc s) = Some wt \<Longrightarrow> wt = rg_write_cursor (rs_ring s)"
    and adv: "rs_pc s = PAdvance \<Longrightarrow> \<exists>r. from_sender cc_id r \<and> frag_of r = rs_frag s
      \<and> re_data (rg_slots (rs_ring s) (index_of (rg_write_cursor (rs_ring s)))) = slot_bytes r"
    using p by (auto simp: published_def)
  show ?thesis
  proof (cases "rs_pc s")
    case (PWrite wt)
    obtain mid remain payload where f: "rs_frag s = (mid, remain, payload)" by (cases "rs_frag s")
    then have "(mid, remain, payload) \<in> set full" using recs(3) PWrite by (auto simp flip: recs(3))
    then have l: "length payload \<le> data_length" by (rule pay)
    let ?d = "re_data (rg_slots (rs_ring s) (index_of wt))"
    have w: "wt = rg_write_cursor (rs_ring s)" using cur PWrite by simp
    have "from_sender cc_id (?d, cc_id, mid, remain, payload)" using len by (simp add: from_sender_def)
    then show ?thesis using PWrite recs len l f w
      by (auto simp: published_def sender_step_def push_access_def frag_of_def intro!: exI [of _ recs]
          exI [of _ "(?d, cc_id, mid, remain, payload)"])
  next
    case PAdvance
    obtain r where r: "from_sender cc_id r" "frag_of r = rs_frag s"
      "re_data (rg_slots (rs_ring s) (index_of (rg_write_cursor (rs_ring s)))) = slot_bytes r"
      using adv [OF PAdvance] by blast
    then show ?thesis using PAdvance recs len
      by (auto simp: published_def sender_step_def push_access_def intro!: exI [of _ "recs @ [r]"])
  next
    case (PReturn b)
    then have "sender_step cc_id ch s = s" by (cases s) (simp add: sender_step_def push_access_def)
    then show ?thesis using p by simp
  next
    case (PRc cc ep wt)
    then show ?thesis using recs len cur
      by (auto simp: published_def sender_step_def push_access_def Let_def intro!: exI [of _ recs])
  next
    case (PWait cc wt)
    then show ?thesis using recs len cur ch
      by (auto simp: published_def sender_step_def push_access_def Let_def split: choice.split intro!: exI [of _ recs])
  next
    case (PCas cc ep wt rc)
    then show ?thesis using recs len cur
      by (auto simp: published_def sender_step_def push_access_def intro!: exI [of _ recs])
  qed (use recs len in \<open>auto simp: published_def sender_step_def push_access_def Let_def intro!: exI [of _ recs]\<close>)
qed

lemma delivery_published:
  assumes "rtranclp (delivery_step cc_id R) (route_init cc, send_stream seq ms) st"
  shows "published cc_id (send_stream seq ms) st"
  using assms
proof (induction rule: rtranclp_induct)
  case base
  then show ?case by (rule published_init)
next
  case (step y z)
  from step.hyps(2) step.IH show ?case
    by cases (auto intro: published_send published_call published_recv send_stream_payload)
qed

section \<open>What recv makes of it\<close>

lemma recv_slots_append:
  "recv_slots c cache (xs @ ys) =
     (case recv_slots c cache xs of
        Inl p \<Rightarrow> Inl p
      | Inr (cache', o1) \<Rightarrow>
          (case recv_slots c cache' ys of Inl p \<Rightarrow> Inl p | Inr (cache'', o2) \<Rightarrow> Inr (cache'', o1 @ o2)))"
  by (induction xs arbitrary: cache) (auto split: sum.splits prod.splits)

lemma recv_slots_prefix:
  assumes "recv_slots c cache (xs @ ys) = Inr (cache', outs)"
  shows "\<exists>cache1 outs1. recv_slots c cache xs = Inr (cache1, outs1) \<and> prefix outs1 outs"
  using assms by (auto simp: recv_slots_append split: sum.splits prod.splits)

lemma of_message_frags:
  "of_message i recs = map snd (filter (\<lambda>f. fst f = i) (map frag_of recs))"
  by (induction recs) (auto simp: frag_of_def)

lemma outs_single:
  assumes "\<And>j. filter (\<lambda>(k, _). k = j) outs = (if j = i then [(i, m)] else [])"
  shows "outs = [(i, m)]"
proof -
  have "\<forall>x \<in> set outs. fst x = i"
  proof
    fix x
    assume "x \<in> set outs"
    then have "x \<in> set (filter (\<lambda>(k, _). k = fst x) outs)" by (auto split: prod.split)
    then show "fst x = i" using assms [of "fst x"] by (auto split: if_splits)
  qed
  then have "filter (\<lambda>(k, _). k = i) outs = outs" by (intro filter_True) auto
  then show ?thesis using assms [of i] by simp
qed

lemma recv_one_message:
  assumes f: "map frag_of recs = map (Pair i) (fragments m)" and s: "list_all (from_sender cc_id) recs"
    and m: "m \<noteq> []" "length m < 2 ^ 31" "my \<noteq> cc_id"
  shows "recv_slots my Map.empty (map slot_bytes recs) = Inr (Map.empty, [(i, m)])"
proof -
  let ?data = "\<lambda>j. if j = i then m else []"
  have "filter (\<lambda>f. fst f = j) (map (Pair i) fs) = (if j = i then map (Pair i) fs else [])"
    for j and fs :: "(i32 \<times> u8 list) list"
    by (induction fs) auto
  then have "of_message j recs = fragments (?data j)" for j
    by (simp add: of_message_frags f comp_def fragments_def)
  moreover have "\<forall>r \<in> set recs. record_ok my r"
    using s m(3) by (auto simp: list_all_iff from_sender_def)
  moreover have "\<forall>j. length (?data j) < 2 ^ 31" using m(2) by simp
  ultimately obtain outs where outs:
    "recv_slots my (\<lambda>j. progress (?data j) 0) (map slot_bytes recs) = Inr (Map.empty, outs)"
    "\<And>j. filter (\<lambda>(k, _). k = j) outs = (if 0 < n_fragments (length (?data j)) then [(j, ?data j)] else [])"
    using recv_slots_interleaved [of recs my ?data "\<lambda>_. 0"] unfolding drop_0 by blast
  have n: "0 < n_fragments (length (?data j)) \<longleftrightarrow> j = i" for j
    using m(1) by (auto simp: n_fragments_def data_length_def div_greater_zero_iff Suc_le_eq)
  have "outs = [(i, m)]"
  proof (rule outs_single)
    show "filter (\<lambda>(k, _). k = j) outs = (if j = i then [(i, m)] else [])" for j
      unfolding outs(2) n by simp
  qed
  moreover have "(\<lambda>j. progress (?data j) 0) = Map.empty" by (simp add: progress_def)
  ultimately show ?thesis using outs(1) by simp
qed

lemma recv_stream:
  assumes "map frag_of recs = send_stream seq ms" "list_all (from_sender cc_id) recs"
    "\<forall>m \<in> set ms. length m < 2 ^ 31" "my \<noteq> cc_id"
  shows "\<exists>outs. recv_slots my Map.empty (map slot_bytes recs) = Inr (Map.empty, outs)
    \<and> map snd outs = filter (\<lambda>m. m \<noteq> []) ms"
  using assms
proof (induction seq ms arbitrary: recs rule: send_stream.induct)
  case (2 seq m ms)
  show ?case
  proof (cases "m = []")
    case True
    then show ?thesis using 2 by simp
  next
    case False
    let ?n = "length (fragments m)"
    have f: "map frag_of (take ?n recs) = map (Pair seq) (fragments m)"
      "map frag_of (drop ?n recs) = send_stream (seq + 1) ms"
      using "2.prems"(1) False by (simp_all add: take_map [symmetric] drop_map [symmetric])
    have s: "list_all (from_sender cc_id) (take ?n recs)" "list_all (from_sender cc_id) (drop ?n recs)"
      using "2.prems"(2) by (auto simp: list_all_iff dest: in_set_takeD in_set_dropD)
    have one: "recv_slots my Map.empty (map slot_bytes (take ?n recs)) = Inr (Map.empty, [(seq, m)])"
      by (rule recv_one_message [OF f(1) s(1)]) (use False "2.prems" in auto)
    obtain outs where rest: "recv_slots my Map.empty (map slot_bytes (drop ?n recs)) = Inr (Map.empty, outs)"
      "map snd outs = filter (\<lambda>m. m \<noteq> []) ms"
      using "2.IH"(2) [OF False f(2) s(2)] "2.prems"(3,4) by auto
    have "recv_slots my Map.empty (map slot_bytes (take ?n recs @ drop ?n recs)) = Inr (Map.empty, (seq, m) # outs)"
      unfolding map_append recv_slots_append one using rest(1) by simp
    then show ?thesis using rest(2) False by simp
  qed
qed simp

lemma delivered_prefix:
  assumes p: "published cc_id (send_stream seq ms) (s, todo)" and log: "log = take n (rs_hist s)"
    and ms: "\<forall>m \<in> set ms. length m < 2 ^ 31" "my \<noteq> cc_id"
  shows "\<exists>cache outs. recv_slots my Map.empty log = Inr (cache, outs)
    \<and> prefix (map snd outs) (filter (\<lambda>m. m \<noteq> []) ms)
    \<and> (log = rs_hist s \<longrightarrow> rs_pc s = PReturn True \<longrightarrow> todo = [] \<longrightarrow> map snd outs = filter (\<lambda>m. m \<noteq> []) ms)"
proof -
  let ?pend = "(if rs_pc s = PReturn True then [] else [rs_frag s]) @ todo"
  obtain recs where recs: "rs_hist s = map slot_bytes recs" "list_all (from_sender cc_id) recs"
    "map frag_of recs @ ?pend = send_stream seq ms"
    using p unfolding published_def by auto
  define rest where "rest = map (\<lambda>(mid, remain, payload). (replicate msg_t_size (0::u8), cc_id, mid, remain, payload)) ?pend"
  have "map frag_of rest = ?pend" unfolding rest_def map_map by (rule map_idI) (simp add: frag_of_def split: prod.split)
  then have "map frag_of (recs @ rest) = send_stream seq ms" using recs(3) by simp
  moreover have "list_all (from_sender cc_id) (recs @ rest)"
    using recs(2) by (auto simp: list_all_iff from_sender_def rest_def)
  ultimately obtain all where all: "recv_slots my Map.empty (map slot_bytes (recs @ rest)) = Inr (Map.empty, all)"
    "map snd all = filter (\<lambda>m. m \<noteq> []) ms"
    using recv_stream [OF _ _ ms] by blast
  have split: "map slot_bytes (recs @ rest) = log @ (drop n (rs_hist s) @ map slot_bytes rest)"
    using recs(1) by (simp add: log flip: append_assoc)
  obtain cache outs where outs: "recv_slots my Map.empty log = Inr (cache, outs)" "prefix outs all"
    using recv_slots_prefix [OF all(1) [unfolded split]] by blast
  have "map snd outs = map snd all" if "log = rs_hist s" "rs_pc s = PReturn True" "todo = []"
  proof -
    have "rest = []" using that by (simp add: rest_def)
    then show ?thesis using all(1) outs(1) that(1) recs(1) by simp
  qed
  then show ?thesis using outs all(2) map_mono_prefix [OF outs(2), of snd] by auto
qed

section \<open>A run to the end\<close>

text \<open>Runs of the delivery system: what happens at each step, when it may.\<close>

datatype delivery_event = DSend choice | DCall | DRecv choice nat

fun delivery_run ::
  "u32 \<Rightarrow> u32 \<Rightarrow> route_sys \<times> (u32 \<times> i32 \<times> u8 list) list \<Rightarrow> delivery_event list
   \<Rightarrow> (route_sys \<times> (u32 \<times> i32 \<times> u8 list) list) option" where
  "delivery_run cc cc_id st [] = Some st"
| "delivery_run cc cc_id (s, todo) (DSend ch # es) =
     (if ch \<noteq> Timeout then delivery_run cc cc_id (sender_step cc_id ch s, todo) es else None)"
| "delivery_run cc cc_id (s, todo) (DCall # es) =
     (case todo of
        [] \<Rightarrow> None
      | f # fs \<Rightarrow>
          if rs_pc s = PReturn True then delivery_run cc cc_id (s\<lparr>rs_pc := PConn, rs_frag := f\<rparr>, fs) es else None)"
| "delivery_run cc cc_id (s, todo) (DRecv ch r # es) =
     (if bit cc r then delivery_run cc cc_id (receiver_step ch r s, todo) es else None)"

lemma delivery_run_steps:
  "delivery_run cc cc_id st es = Some st' \<Longrightarrow> rtranclp (delivery_step cc_id (set_bits_of cc)) st st'"
proof (induction cc cc_id st es rule: delivery_run.induct)
  case (2 cc cc_id s todo ch es)
  then show ?case by (auto intro: converse_rtranclp_into_rtranclp d_send split: if_splits)
next
  case (3 cc cc_id s todo es)
  then show ?case by (auto intro: converse_rtranclp_into_rtranclp d_call split: list.splits if_splits)
next
  case (4 cc cc_id s todo ch r es)
  then show ?case
    by (auto intro: converse_rtranclp_into_rtranclp d_recv simp: set_bits_of_def split: if_splits)
qed simp

end
