(* ===== verification/Endpoint.thy ===== *)
theory Endpoint
  imports Channel_Ring Chunk_Storage
begin

text \<open>
  The endpoints of \<open>channel.rs\<close>: \<open>ChanInner\<close> with \<open>open\<close>, \<open>send\<close>, \<open>recv\<close>, \<open>disconnect\<close>,
  \<open>reconnect\<close>, \<open>clone_inner\<close> and \<open>Drop\<close>, and the waits \<open>wait_for\<close> and \<open>wait_for_recv\<close>.
  Every call runs to its end before the next one starts; within a call the accesses to
  the ring are those of the theories Route and Channel_Ring, and a schedule says where
  a wait times out or a compare-exchange fails. Opening a segment is assumed to
  succeed, and a header is initialised (theory Locks).
\<close>

unbundle bit_operations_syntax

section \<open>The segments of a channel and an endpoint\<close>

datatype mode = Sender | Receiver

record chan_shm =
  sm_route :: ring
  sm_multi :: cring
  sm_sender_count :: u32
  sm_owner :: slot_owner
  sm_cc_id :: u32
  sm_ac_id :: u32
  sm_chunks :: "nat \<Rightarrow> chunk_shm option"

record chan_inner =
  ch_name :: string
  ch_prefix :: string
  ch_mode :: mode
  ch_conn_id :: u32
  ch_cc_id :: u32
  ch_read_cursor :: u32
  ch_send_seq :: u32
  ch_multi :: bool
  ch_recv_cache :: recv_cache
  ch_disconnected :: bool
  ch_sender_claimed :: bool

datatype failure = NotSender | NotReceiver | AddrInUse i32 | TooManyReceivers | WaitFailed | Panicked panic

text \<open>Route and channel share the header and the owner table; the layouts of the slots differ.\<close>

definition hdr_connections :: "bool \<Rightarrow> chan_shm \<Rightarrow> u32" where
  "hdr_connections multi sh = (if multi then cg_connections (sm_multi sh) else rg_connections (sm_route sh))"

definition hdr_write_cursor :: "bool \<Rightarrow> chan_shm \<Rightarrow> u32" where
  "hdr_write_cursor multi sh = (if multi then cg_write_cursor (sm_multi sh) else rg_write_cursor (sm_route sh))"

definition shm_live :: "bool \<Rightarrow> chan_shm \<Rightarrow> conn_liveness" where
  "shm_live multi sh = (if multi then cg_live (sm_multi sh) else rg_live (sm_route sh))"

definition set_connections :: "bool \<Rightarrow> u32 \<Rightarrow> chan_shm \<Rightarrow> chan_shm" where
  "set_connections multi cc sh =
     (if multi then sh\<lparr>sm_multi := (sm_multi sh)\<lparr>cg_connections := cc\<rparr>\<rparr>
      else sh\<lparr>sm_route := (sm_route sh)\<lparr>rg_connections := cc\<rparr>\<rparr>)"

definition set_live :: "bool \<Rightarrow> conn_liveness option \<Rightarrow> chan_shm \<Rightarrow> chan_shm" where
  "set_live multi lv sh = (case lv of None \<Rightarrow> sh
     | Some t \<Rightarrow> if multi then sh\<lparr>sm_multi := (sm_multi sh)\<lparr>cg_live := t\<rparr>\<rparr>
                 else sh\<lparr>sm_route := (sm_route sh)\<lparr>rg_live := t\<rparr>\<rparr>)"

section \<open>open\<close>

text \<open>An endpoint identity is never 0: the counter skips it when it wraps.\<close>

definition alloc_cc_id :: "u32 \<Rightarrow> u32" where
  "alloc_cc_id counter = (let cc_id = counter + 1 in if cc_id = 0 then cc_id + 1 else cc_id)"

definition connect_receiver :: "os \<Rightarrow> bool \<Rightarrow> chan_shm \<Rightarrow> chan_shm \<times> (u32 \<times> u32) option" where
  "connect_receiver os multi sh =
     (let live = hdr_connections multi sh in
      case reap_dead_receivers os (\<lambda>_ r. r) (Some (shm_live multi sh)) live live of (lv, cc, _) \<Rightarrow>
        let sh = set_live multi lv (set_connections multi cc sh);
            since = hdr_write_cursor multi sh
        in case connect_attempt (hdr_connections multi sh) of
             Inr _ \<Rightarrow> (sh, None)
           | Inl (nxt, conn_id) \<Rightarrow>
               let sh = set_connections multi nxt sh;
                   sh = set_live multi (set_since (Some (shm_live multi sh)) conn_id since) sh;
                   sh = (if multi then sh\<lparr>sm_multi := release_stale (sm_multi sh) since conn_id\<rparr> else sh);
                   cursor = (if multi then adopt_cursor_multi (sm_multi sh) since conn_id
                             else adopt_cursor_route (sm_route sh) since conn_id);
                   sh = set_live multi (set_owner os (Some (shm_live multi sh)) conn_id) sh
               in (sh, Some (conn_id, cursor)))"

definition claim_sender :: "os \<Rightarrow> chan_shm \<Rightarrow> chan_shm \<times> bool" where
  "claim_sender os sh = (case claim_sole_owner os (sm_owner sh) of (r, ok) \<Rightarrow> (sh\<lparr>sm_owner := r\<rparr>, ok))"

definition new_inner :: "string \<Rightarrow> string \<Rightarrow> mode \<Rightarrow> bool \<Rightarrow> u32 \<Rightarrow> u32 \<Rightarrow> u32 \<Rightarrow> bool \<Rightarrow> chan_inner" where
  "new_inner pre name mode multi cc_id conn_id cursor won =
     \<lparr>ch_name = name, ch_prefix = pre, ch_mode = mode, ch_conn_id = conn_id, ch_cc_id = cc_id,
      ch_read_cursor = cursor, ch_send_seq = 0, ch_multi = multi, ch_recv_cache = Map.empty,
      ch_disconnected = False, ch_sender_claimed = won\<rparr>"

definition chan_open :: "os \<Rightarrow> string \<Rightarrow> string \<Rightarrow> mode \<Rightarrow> bool \<Rightarrow> chan_shm \<Rightarrow> chan_shm \<times> (failure + chan_inner)" where
  "chan_open os pre name mode multi sh =
     (let cc_id = alloc_cc_id (sm_cc_id sh); sh = sh\<lparr>sm_cc_id := cc_id\<rparr>
      in case mode of
           Sender \<Rightarrow>
             let sh = sh\<lparr>sm_sender_count := sm_sender_count sh + 1\<rparr>;
                 (sh, won) = (if multi then (sh, False) else claim_sender os sh)
             in (sh, Inr (new_inner pre name Sender multi cc_id 0 0 won))
         | Receiver \<Rightarrow>
             (case connect_receiver os multi sh of
                (sh, None) \<Rightarrow> (sh, Inl TooManyReceivers)
              | (sh, Some (conn_id, cursor)) \<Rightarrow>
                  (sh, Inr (new_inner pre name Receiver multi cc_id conn_id cursor False))))"

section \<open>disconnect, reconnect, clone and drop\<close>

definition chan_valid :: "chan_inner \<Rightarrow> bool" where
  "chan_valid e \<longleftrightarrow> \<not> ch_disconnected e"

definition sender_ready :: "os \<Rightarrow> chan_shm \<Rightarrow> chan_inner \<Rightarrow> chan_shm \<times> chan_inner \<times> bool" where
  "sender_ready os sh e =
     (if ch_multi e \<or> ch_sender_claimed e then (sh, e, True)
      else case claim_sender os sh of (sh, ok) \<Rightarrow> (sh, e\<lparr>ch_sender_claimed := ok\<rparr>, ok))"

definition chan_disconnect :: "os \<Rightarrow> chan_shm \<Rightarrow> chan_inner \<Rightarrow> chan_shm \<times> chan_inner" where
  "chan_disconnect os sh e =
     (if ch_disconnected e then (sh, e)
      else case ch_mode e of
        Sender \<Rightarrow>
          let sh = sh\<lparr>sm_sender_count := sm_sender_count sh - 1\<rparr>;
              sh = (if ch_sender_claimed e then sh\<lparr>sm_owner := release_sole_owner os (sm_owner sh)\<rparr> else sh)
          in (sh, e\<lparr>ch_sender_claimed := False, ch_disconnected := True\<rparr>)
      | Receiver \<Rightarrow>
          let multi = ch_multi e;
              sh = set_connections multi (hdr_connections multi sh AND NOT (ch_conn_id e)) sh;
              sh = set_live multi (clear_owner (Some (shm_live multi sh)) (ch_conn_id e)) sh
          in (sh, e\<lparr>ch_recv_cache := Map.empty, ch_disconnected := True\<rparr>))"

text \<open>When \<open>open\<close> fails, the endpoint stays as \<open>disconnect\<close> left it.\<close>

definition chan_reconnect ::
  "os \<Rightarrow> mode \<Rightarrow> chan_shm \<Rightarrow> chan_inner \<Rightarrow> chan_shm \<times> chan_inner \<times> (failure + unit)" where
  "chan_reconnect os mode sh e =
     (case chan_disconnect os sh e of (sh, e) \<Rightarrow>
        case chan_open os (ch_prefix e) (ch_name e) mode (ch_multi e) sh of
          (sh, Inl x) \<Rightarrow> (sh, e, Inl x)
        | (sh, Inr e') \<Rightarrow> (fst (chan_disconnect os sh e), e', Inr ()))"

definition clone_inner :: "os \<Rightarrow> chan_shm \<Rightarrow> chan_inner \<Rightarrow> chan_shm \<times> (failure + chan_inner)" where
  "clone_inner os sh e = chan_open os (ch_prefix e) (ch_name e) (ch_mode e) (ch_multi e) sh"

definition chan_drop :: "os \<Rightarrow> chan_shm \<Rightarrow> chan_inner \<Rightarrow> chan_shm" where
  "chan_drop os sh e = fst (chan_disconnect os sh e)"

section \<open>send\<close>

text \<open>
  A call on a ring: one access after the other, each with what the schedule chooses for
  it, until \<open>fin\<close> says that it returns. \<open>None\<close> is: the schedule ends first.
\<close>

fun run_call ::
  "('pc \<Rightarrow> 'r option) \<Rightarrow> (choice \<Rightarrow> 'g \<Rightarrow> 'pc \<Rightarrow> 'g \<times> 'pc) \<Rightarrow> choice list \<Rightarrow> 'g \<Rightarrow> 'pc \<Rightarrow> ('g \<times> 'r) option" where
  "run_call fin acc [] g pc = (case fin pc of Some r \<Rightarrow> Some (g, r) | None \<Rightarrow> None)"
| "run_call fin acc (c # cs) g pc =
     (case fin pc of Some r \<Rightarrow> Some (g, r)
      | None \<Rightarrow> (case acc c g pc of (g', pc') \<Rightarrow> run_call fin acc cs g' pc'))"

fun push_result :: "push_pc \<Rightarrow> (failure + bool) option" where
  "push_result (PReturn b) = Some (Inr b)"
| "push_result PError = Some (Inl WaitFailed)"
| "push_result _ = None"

fun mpush_result :: "mpush_pc \<Rightarrow> (failure + bool) option" where
  "mpush_result (MReturn b) = Some (Inr b)"
| "mpush_result _ = None"

definition push_fragment ::
  "chan_inner \<Rightarrow> choice list \<Rightarrow> u32 \<times> i32 \<times> u8 list \<Rightarrow> chan_shm \<Rightarrow> (chan_shm \<times> (failure + bool)) option" where
  "push_fragment e cs frag sh =
     (if ch_multi e
      then map_option (\<lambda>(g, r). (sh\<lparr>sm_multi := g\<rparr>, r))
             (run_call mpush_result (mpush_access (ch_cc_id e) frag) cs (sm_multi sh) MEpoch)
      else map_option (\<lambda>(g, r). (sh\<lparr>sm_route := g\<rparr>, r))
             (run_call push_result (push_access (ch_cc_id e) frag) cs (sm_route sh) PConn))"

text \<open>The fragments of a message, with a schedule for each.\<close>

fun push_fragments ::
  "chan_inner \<Rightarrow> choice list list \<Rightarrow> (u32 \<times> i32 \<times> u8 list) list \<Rightarrow> chan_shm
    \<Rightarrow> (chan_shm \<times> (failure + bool)) option" where
  "push_fragments e css [] sh = Some (sh, Inr True)"
| "push_fragments e [] (f # fs) sh = None"
| "push_fragments e (cs # css) (f # fs) sh =
     (case push_fragment e cs f sh of
        None \<Rightarrow> None
      | Some (sh', Inl x) \<Rightarrow> Some (sh', Inl x)
      | Some (sh', Inr b) \<Rightarrow> if b then push_fragments e css fs sh' else Some (sh', Inr False))"

definition take_msg_id :: "chan_shm \<Rightarrow> chan_inner \<Rightarrow> u32 \<times> chan_shm \<times> chan_inner" where
  "take_msg_id sh e =
     (if ch_multi e then (sm_ac_id sh, sh\<lparr>sm_ac_id := sm_ac_id sh + 1\<rparr>, e)
      else (ch_send_seq e, sh, e\<lparr>ch_send_seq := ch_send_seq e + 1\<rparr>))"

definition chan_send ::
  "os \<Rightarrow> choice list list \<Rightarrow> u8 list \<Rightarrow> chan_shm \<Rightarrow> chan_inner
    \<Rightarrow> (chan_shm \<times> chan_inner \<times> (failure + bool)) option" where
  "chan_send os css data sh e =
     (if data = [] then Some (sh, e, Inr False)
      else if ch_mode e \<noteq> Sender then Some (sh, e, Inl NotSender)
      else case sender_ready os sh e of (sh, e, ready) \<Rightarrow>
        if \<not> ready then Some (sh, e, Inl (AddrInUse (so_pid (sm_owner sh))))
        else if hdr_connections (ch_multi e) sh = 0 then Some (sh, e, Inr False)
        else case take_msg_id sh e of (msg_id, sh, e) \<Rightarrow>
          map_option (\<lambda>(sh, r). (sh, e, r)) (push_fragments e css (map (Pair msg_id) (fragments data)) sh))"

section \<open>recv\<close>

text \<open>
  \<open>assemble_message\<close>: a large message lies in a chunk; its size is the record's. A segment of chunks that is not there is
  created, zeroed. Nobody else touches the chunk's mask meanwhile.
\<close>

definition read_chunk :: "align_class \<Rightarrow> nat \<Rightarrow> i32 \<Rightarrow> chunk_shm \<Rightarrow> u8 list option" where
  "read_chunk al msg_size sid m =
     map_option (\<lambda>_. take msg_size (cm_payload m (nat (sint sid)))) (find_storage al (calc_chunk_size al msg_size) sid)"

definition recycle_now :: "chunk_shm \<Rightarrow> i32 \<Rightarrow> u32 \<Rightarrow> chunk_shm" where
  "recycle_now m sid conn_id =
     (case recycle_storage [(cm_conns m (nat (sint sid)), False)] m sid conn_id of Some m' \<Rightarrow> m' | None \<Rightarrow> m)"

definition chunk_shm_base :: "nat \<Rightarrow> chan_shm \<Rightarrow> chunk_shm" where
  "chunk_shm_base chunk_size sh = (case sm_chunks sh chunk_size of Some m \<Rightarrow> m
     | None \<Rightarrow> \<lparr>cm_info = chunk_zero, cm_conns = (\<lambda>_. 0), cm_payload = (\<lambda>_. replicate chunk_size 0)\<rparr>)"

definition assemble_message ::
  "align_class \<Rightarrow> decoded \<Rightarrow> chan_shm \<Rightarrow> chan_inner \<Rightarrow> chan_shm \<times> chan_inner \<times> (failure + u8 list option)" where
  "assemble_message al r sh e =
     (if \<not> dec_keep r then (sh, e, Inr None)
      else case dec_storage_id r of
        Some sid \<Rightarrow>
          let msg_size = unat (dec_r_size r); chunk_size = calc_chunk_size al msg_size; m = chunk_shm_base chunk_size sh
          in (sh\<lparr>sm_chunks := (sm_chunks sh)(chunk_size \<mapsto> recycle_now m sid (ch_conn_id e))\<rparr>, e,
              Inr (read_chunk al msg_size sid m))
      | None \<Rightarrow>
          (case dec_frag r of
             None \<Rightarrow> (sh, e, Inr None)
           | Some frag \<Rightarrow>
               (case assemble_inline (ch_recv_cache e) (dec_id r) (dec_remain r) (dec_r_size r) frag of
                  Inl p \<Rightarrow> (sh, e\<lparr>ch_recv_cache := (ch_recv_cache e)(dec_id r := None)\<rparr>, Inl (Panicked p))
                | Inr (cache, buf) \<Rightarrow> (sh, e\<lparr>ch_recv_cache := cache\<rparr>, Inr buf))))"

text \<open>The loop of \<open>recv\<close>; \<open>[]\<close> is the empty buffer of a timeout.\<close>

fun recv_loop ::
  "align_class \<Rightarrow> choice list \<Rightarrow> chan_shm \<Rightarrow> chan_inner \<Rightarrow> recv_pc
    \<Rightarrow> (chan_shm \<times> chan_inner \<times> (failure + u8 list)) option" where
  "recv_loop al [] sh e pc = None"
| "recv_loop al (c # cs) sh e pc =
     (if pc = RCheck \<and> rg_write_cursor (sm_route sh) = ch_read_cursor e \<and> c = WaitError
      then Some (sh, e, Inl WaitFailed)
      else case recv_access (ch_conn_id e) c (sm_route sh) (ch_read_cursor e) pc of (g, cur, pc') \<Rightarrow>
        let sh = sh\<lparr>sm_route := g\<rparr>; e = e\<lparr>ch_read_cursor := cur\<rparr>
        in if pc' = RTimeout then Some (sh, e, Inr [])
           else case pc of
             RAdvance d \<Rightarrow>
               (case assemble_message al (decode_slot (ch_cc_id e) d) sh e of
                  (sh, e, Inl x) \<Rightarrow> Some (sh, e, Inl x)
                | (sh, e, Inr (Some buf)) \<Rightarrow> Some (sh, e, Inr buf)
                | (sh, e, Inr None) \<Rightarrow> recv_loop al cs sh e pc')
           | _ \<Rightarrow> recv_loop al cs sh e pc')"

fun recv_multi_loop ::
  "align_class \<Rightarrow> choice list \<Rightarrow> chan_shm \<Rightarrow> chan_inner \<Rightarrow> mrecv_pc
    \<Rightarrow> (chan_shm \<times> chan_inner \<times> (failure + u8 list)) option" where
  "recv_multi_loop al [] sh e pc = None"
| "recv_multi_loop al (c # cs) sh e pc =
     (case mrecv_access (ch_conn_id e) c (sm_multi sh) (ch_read_cursor e) pc of (g, cur, pc') \<Rightarrow>
        let sh = sh\<lparr>sm_multi := g\<rparr>; e = e\<lparr>ch_read_cursor := cur\<rparr>
        in if pc' = QTimeout then Some (sh, e, Inr [])
           else case pc of
             QAdvance d \<Rightarrow>
               (case assemble_message al (decode_slot (ch_cc_id e) d) sh e of
                  (sh, e, Inl x) \<Rightarrow> Some (sh, e, Inl x)
                | (sh, e, Inr (Some buf)) \<Rightarrow> Some (sh, e, Inr buf)
                | (sh, e, Inr None) \<Rightarrow> recv_multi_loop al cs sh e pc')
           | _ \<Rightarrow> recv_multi_loop al cs sh e pc')"

definition chan_recv ::
  "align_class \<Rightarrow> choice list \<Rightarrow> chan_shm \<Rightarrow> chan_inner \<Rightarrow> (chan_shm \<times> chan_inner \<times> (failure + u8 list)) option" where
  "chan_recv al cs sh e =
     (if ch_mode e \<noteq> Receiver then Some (sh, e, Inl NotReceiver)
      else if ch_multi e then recv_multi_loop al cs sh e QCheck else recv_loop al cs sh e RCheck)"

section \<open>Waiting\<close>

text \<open>
  One round of \<open>wait_for\<close>: what the predicate says, the milliseconds left, and what
  \<open>Waiter::wait_if\<close> returns, where the round gets that far. \<open>None\<close> is: still waiting.
\<close>

record wait_round =
  wr_pred :: bool
  wr_left :: nat
  wr_wait :: "failure + bool"

definition SPIN_COUNT :: nat where "SPIN_COUNT = 32"

fun wait_for_loop :: "bool \<Rightarrow> wait_round list \<Rightarrow> nat \<Rightarrow> (failure + bool) option" where
  "wait_for_loop deadline [] k = None"
| "wait_for_loop deadline (w # ws) k =
     (if \<not> wr_pred w then Some (Inr True)
      else if k < SPIN_COUNT then wait_for_loop deadline ws (k + 1)
      else if deadline \<and> wr_left w = 0 then Some (Inr False)
      else case wr_wait w of
        Inl x \<Rightarrow> Some (Inl x)
      | Inr ok \<Rightarrow> if ok then wait_for_loop deadline ws 0 else Some (Inr False))"

definition wait_for :: "nat option \<Rightarrow> wait_round list \<Rightarrow> (failure + bool) option" where
  "wait_for timeout_ms ws =
     (if timeout_ms = Some 0 then (case ws of [] \<Rightarrow> None | w # _ \<Rightarrow> Some (Inr (\<not> wr_pred w)))
      else wait_for_loop (timeout_ms \<noteq> None) ws 0)"

definition recv_count :: "bool \<Rightarrow> chan_shm \<Rightarrow> nat" where
  "recv_count multi sh = count_ones (hdr_connections multi sh)"

text \<open>One round of \<open>wait_for_recv\<close>: the two counts, the time left, and the wait between them.\<close>

record recv_round =
  rr_before :: nat
  rr_left :: nat
  rr_wait :: "failure + bool"
  rr_after :: nat

fun wait_for_recv :: "nat \<Rightarrow> bool \<Rightarrow> recv_round list \<Rightarrow> (failure + bool) option" where
  "wait_for_recv count deadline [] = None"
| "wait_for_recv count deadline (w # ws) =
     (if count \<le> rr_before w then Some (Inr True)
      else if deadline \<and> rr_left w = 0 then Some (Inr False)
      else case rr_wait w of
        Inl x \<Rightarrow> Some (Inl x)
      | Inr _ \<Rightarrow> if count \<le> rr_after w then Some (Inr True) else wait_for_recv count deadline ws)"

lemma wait_for_loop_true: "wait_for_loop dl ws k = Some (Inr True) \<Longrightarrow> \<exists>w \<in> set ws. \<not> wr_pred w"
  by (induction dl ws k rule: wait_for_loop.induct) (auto split: if_splits sum.splits)

lemma wait_for_true: "wait_for tm ws = Some (Inr True) \<Longrightarrow> \<exists>w \<in> set ws. \<not> wr_pred w"
  by (auto simp: wait_for_def split: if_splits list.splits dest: wait_for_loop_true)

text \<open>Once the deadline has passed, at most 33 more rounds: the spins that are left and one look at the clock.\<close>

lemma wait_for_loop_returns:
  "\<forall>w \<in> set ws. wr_left w = 0 \<Longrightarrow> SPIN_COUNT < length ws + k \<Longrightarrow> k \<le> SPIN_COUNT \<Longrightarrow> wait_for_loop True ws k \<noteq> None"
  by (induction ws arbitrary: k) auto

lemma wait_for_expires:
  assumes "tm \<noteq> None" "\<forall>w \<in> set ws. wr_left w = 0" "32 < length ws"
  shows "wait_for tm ws \<noteq> None"
  using assms wait_for_loop_returns [of ws 0]
  by (cases ws) (auto simp: wait_for_def SPIN_COUNT_def)

lemma wait_for_recv_true:
  "wait_for_recv count dl ws = Some (Inr True) \<Longrightarrow> \<exists>w \<in> set ws. count \<le> rr_before w \<or> count \<le> rr_after w"
  by (induction count dl ws rule: wait_for_recv.induct) (auto split: if_splits sum.splits)

lemma wait_for_recv_expires: "ws \<noteq> [] \<Longrightarrow> rr_left (hd ws) = 0 \<Longrightarrow> wait_for_recv count True ws \<noteq> None"
  by (cases ws) auto

end
