(* ===== verification/Lifecycle.thy ===== *)
theory Lifecycle
  imports Endpoint
begin

text \<open>
  The endpoints of one route or channel over their whole life: any sequence of calls of
  \<open>open\<close>, \<open>clone\<close>, \<open>send\<close>, \<open>recv\<close>, \<open>disconnect\<close>, \<open>reconnect\<close> and \<open>drop\<close> by endpoints of live
  processes, what they keep of the connection mask, the sender count and the sole-sender
  record, and what happens when a slow receiver has been evicted.
\<close>

unbundle bit_operations_syntax

section \<open>Calls on the endpoints of one channel\<close>

record chan_world =
  wd_shm :: chan_shm
  wd_eps :: "nat \<Rightarrow> chan_inner option"

datatype chan_op =
    OpOpen nat mode
  | OpClone nat nat
  | OpSend nat "choice list list" "u8 list"
  | OpRecv nat "choice list"
  | OpDisconnect nat
  | OpReconnect nat mode
  | OpDrop nat

definition put_new :: "nat \<Rightarrow> chan_world \<Rightarrow> chan_shm \<times> (failure + chan_inner) \<Rightarrow> chan_world" where
  "put_new i w r = (case r of
     (sh, Inl _) \<Rightarrow> w\<lparr>wd_shm := sh\<rparr>
   | (sh, Inr e) \<Rightarrow> \<lparr>wd_shm = sh, wd_eps = (wd_eps w)(i \<mapsto> e)\<rparr>)"

definition put_back :: "nat \<Rightarrow> chan_world \<Rightarrow> chan_shm \<Rightarrow> chan_inner \<Rightarrow> chan_world" where
  "put_back i w sh e = \<lparr>wd_shm = sh, wd_eps = (wd_eps w)(i \<mapsto> e)\<rparr>"

text \<open>
  \<open>osf i\<close> is the operating system as the process of endpoint \<open>i\<close> sees it. \<open>None\<close>: there is
  no such endpoint, or the schedule ends inside the call.
\<close>

fun chan_apply :: "(nat \<Rightarrow> os) \<Rightarrow> align_class \<Rightarrow> bool \<Rightarrow> chan_op \<Rightarrow> chan_world \<Rightarrow> chan_world option" where
  "chan_apply osf al multi (OpOpen i m) w =
     (if wd_eps w i \<noteq> None then None else Some (put_new i w (chan_open (osf i) [] ''c'' m multi (wd_shm w))))"
| "chan_apply osf al multi (OpClone i j) w =
     (case wd_eps w i of None \<Rightarrow> None
      | Some e \<Rightarrow> if wd_eps w j \<noteq> None then None else Some (put_new j w (clone_inner (osf j) (wd_shm w) e)))"
| "chan_apply osf al multi (OpSend i css data) w =
     (case wd_eps w i of None \<Rightarrow> None
      | Some e \<Rightarrow> map_option (\<lambda>(sh, e, _). put_back i w sh e) (chan_send (osf i) css data (wd_shm w) e))"
| "chan_apply osf al multi (OpRecv i cs) w =
     (case wd_eps w i of None \<Rightarrow> None
      | Some e \<Rightarrow> map_option (\<lambda>(sh, e, _). put_back i w sh e) (chan_recv al cs (wd_shm w) e))"
| "chan_apply osf al multi (OpDisconnect i) w =
     (case wd_eps w i of None \<Rightarrow> None
      | Some e \<Rightarrow> Some (case chan_disconnect (osf i) (wd_shm w) e of (sh, e) \<Rightarrow> put_back i w sh e))"
| "chan_apply osf al multi (OpReconnect i m) w =
     (case wd_eps w i of None \<Rightarrow> None
      | Some e \<Rightarrow> Some (case chan_reconnect (osf i) m (wd_shm w) e of (sh, e, _) \<Rightarrow> put_back i w sh e))"
| "chan_apply osf al multi (OpDrop i) w =
     (case wd_eps w i of None \<Rightarrow> None
      | Some e \<Rightarrow> Some \<lparr>wd_shm = chan_drop (osf i) (wd_shm w) e, wd_eps = (wd_eps w)(i := None)\<rparr>)"

text \<open>A calm call: no wait of a sender times out.\<close>

fun calm :: "chan_op \<Rightarrow> bool" where
  "calm (OpSend i css data) \<longleftrightarrow> (\<forall>cs \<in> set css. Timeout \<notin> set cs)"
| "calm _ \<longleftrightarrow> True"

inductive chan_step :: "(nat \<Rightarrow> os) \<Rightarrow> align_class \<Rightarrow> bool \<Rightarrow> chan_world \<Rightarrow> chan_world \<Rightarrow> bool"
  for osf al multi where
  chan_call: "calm op \<Longrightarrow> chan_apply osf al multi op w = Some w' \<Longrightarrow> chan_step osf al multi w w'"

definition no_owner :: slot_owner where
  "no_owner = \<lparr>so_pid = 0, so_since = 0, so_start_tok = 0\<rparr>"

definition fresh_cring :: cring where
  "fresh_cring = \<lparr>cg_connections = 0, cg_write_cursor = 0, cg_epoch = 0,
     cg_slots = (\<lambda>_. \<lparr>ce_data = replicate msg_t_size 0, ce_rc = 0, ce_f_ct = 0\<rparr>),
     cg_live = (\<lambda>_. no_owner)\<rparr>"

definition fresh_world :: chan_world where
  "fresh_world = \<lparr>wd_shm = \<lparr>sm_route = (fresh_ring 0)\<lparr>rg_live := (\<lambda>_. no_owner)\<rparr>, sm_multi = fresh_cring, sm_sender_count = 0,
       sm_owner = no_owner, sm_cc_id = 0, sm_ac_id = 0,
       sm_chunks = (\<lambda>_. None)\<rparr>, wd_eps = (\<lambda>_. None)\<rparr>"

section \<open>What a call changes of the header\<close>

text \<open>The part of the shared state the invariant is about.\<close>

definition hdr_of :: "bool \<Rightarrow> chan_shm \<Rightarrow> u32 \<times> conn_liveness \<times> u32" where
  "hdr_of multi sh = (hdr_connections multi sh, shm_live multi sh, sm_sender_count sh)"

lemma hdr_simps [simp]:
  "hdr_connections m (set_connections m cc sh) = cc"
  "hdr_connections m (set_live m lv sh) = hdr_connections m sh"
  "shm_live m (set_connections m cc sh) = shm_live m sh"
  "shm_live m (set_live m (Some t) sh) = t"
  "sm_sender_count (set_connections m cc sh) = sm_sender_count sh"
  "sm_sender_count (set_live m lv sh) = sm_sender_count sh"
  "sm_owner (set_connections m cc sh) = sm_owner sh"
  "sm_owner (set_live m lv sh) = sm_owner sh"
  "hdr_connections m (sh\<lparr>sm_sender_count := n\<rparr>) = hdr_connections m sh"
  "hdr_connections m (sh\<lparr>sm_owner := r\<rparr>) = hdr_connections m sh"
  "hdr_connections m (sh\<lparr>sm_cc_id := c\<rparr>) = hdr_connections m sh"
  "hdr_connections m (sh\<lparr>sm_ac_id := c\<rparr>) = hdr_connections m sh"
  "hdr_connections m (sh\<lparr>sm_chunks := h\<rparr>) = hdr_connections m sh"
  "shm_live m (sh\<lparr>sm_sender_count := n\<rparr>) = shm_live m sh"
  "shm_live m (sh\<lparr>sm_owner := r\<rparr>) = shm_live m sh"
  "shm_live m (sh\<lparr>sm_cc_id := c\<rparr>) = shm_live m sh"
  "shm_live m (sh\<lparr>sm_ac_id := c\<rparr>) = shm_live m sh"
  "shm_live m (sh\<lparr>sm_chunks := h\<rparr>) = shm_live m sh"
  by (simp_all add: hdr_connections_def set_connections_def set_live_def shm_live_def split: option.splits)

lemma release_stale_header:
  "cg_connections (release_stale g since b) = cg_connections g" "cg_live (release_stale g since b) = cg_live g"
proof -
  have "cg_connections (foldl (\<lambda>g i. cset g (of_nat i) (release_stale_slot since b)) g xs) = cg_connections g
      \<and> cg_live (foldl (\<lambda>g i. cset g (of_nat i) (release_stale_slot since b)) g xs) = cg_live g" for xs
    by (induction xs arbitrary: g) simp_all
  then show "cg_connections (release_stale g since b) = cg_connections g"
    "cg_live (release_stale g since b) = cg_live g"
    by (simp_all add: release_stale_def)
qed

lemma release_stale_hdr [simp]:
  "hdr_connections m (sh\<lparr>sm_multi := release_stale (sm_multi sh) since b\<rparr>) = hdr_connections m sh"
  "shm_live m (sh\<lparr>sm_multi := release_stale (sm_multi sh) since b\<rparr>) = shm_live m sh"
  by (simp_all add: hdr_connections_def shm_live_def release_stale_header)

text \<open>With every recorded owner alive, reaping changes nothing.\<close>

lemma reap_nothing:
  assumes "\<And>n. bit live n \<Longrightarrow> is_process_alive os (so_pid (t n)) (so_start_tok (t n))"
  shows "reap_dead_receivers os (\<lambda>_ r. r) (Some t) live live = (Some t, live, 0)"
proof -
  obtain t' cc' reaped where r: "reap_dead_receivers os (\<lambda>_ r. r) (Some t) live live = (Some t', cc', reaped)"
    by (cases "for_each_bit (reap_one os (\<lambda>_ r. r)) live (t, live, 0)") (auto simp: reap_dead_receivers_def)
  note e = reap_effect [OF r]
  have "t' n = t n" for n using e [of n] assms [of n] by blast
  moreover have "\<not> bit reaped n" for n using e [of n] assms [of n] by (auto simp: reapable_def)
  then have "reaped = 0" by (simp add: bit_eq_iff)
  ultimately show ?thesis using r e by (simp add: fun_eq_iff)
qed

lemma connect_receiver_effect:
  assumes "\<And>n. bit (hdr_connections m sh) n
      \<Longrightarrow> is_process_alive os (so_pid (shm_live m sh n)) (so_start_tok (shm_live m sh n))"
    and "connect_receiver os m sh = (sh', r)"
  shows "sm_sender_count sh' = sm_sender_count sh" "sm_owner sh' = sm_owner sh"
    "case r of
       None \<Rightarrow> hdr_connections m sh = - 1 \<and> hdr_connections m sh' = - 1 \<and> shm_live m sh' = shm_live m sh
     | Some (b, cur) \<Rightarrow> \<exists>n < 32. b = 2 ^ n \<and> n = free_index (hdr_connections m sh) \<and> \<not> bit (hdr_connections m sh) n
         \<and> hdr_connections m sh' = set_bit n (hdr_connections m sh)
         \<and> (\<forall>k. k \<noteq> n \<longrightarrow> shm_live m sh' k = shm_live m sh k)
         \<and> so_pid (shm_live m sh' n) = os_self os \<and> so_start_tok (shm_live m sh' n) = start_token os (os_self os)"
proof -
  let ?cc = "hdr_connections m sh"
  note reap = reap_nothing [of "?cc" os "shm_live m sh", OF assms(1)]
  have "sm_sender_count sh' = sm_sender_count sh \<and> sm_owner sh' = sm_owner sh \<and>
    (case r of
       None \<Rightarrow> ?cc = - 1 \<and> hdr_connections m sh' = - 1 \<and> shm_live m sh' = shm_live m sh
     | Some (b, cur) \<Rightarrow> \<exists>n < 32. b = 2 ^ n \<and> n = free_index ?cc \<and> \<not> bit ?cc n
         \<and> hdr_connections m sh' = set_bit n ?cc
         \<and> (\<forall>k. k \<noteq> n \<longrightarrow> shm_live m sh' k = shm_live m sh k)
         \<and> so_pid (shm_live m sh' n) = os_self os \<and> so_start_tok (shm_live m sh' n) = start_token os (os_self os))"
  proof (cases rule: connect_attempt_cases [of ?cc])
    case full
    then show ?thesis using assms(2) reap by (auto simp: connect_receiver_def Let_def)
  next
    case free
    define n where "n = free_index ?cc"
    have n: "n < 32" "\<not> bit ?cc n" using free_index(1,2) [OF free(1)] by (simp_all add: n_def)
    have c: "connect_attempt ?cc = Inl (set_bit n ?cc, 2 ^ n)" using free(2) by (simp add: n_def)
    have fi: "free_index ?cc = n" by (simp add: n_def)
    have s: "slot_index (2 ^ n) = n" using n by (simp add: slot_index_def)
    have nz: "(2 :: u32) ^ n \<noteq> 0" using n by simp
    show ?thesis
      using assms(2) reap c n nz
      by (auto simp: connect_receiver_def Let_def set_since_def set_owner_def s fi intro!: exI [of _ n])
  qed
  then show "sm_sender_count sh' = sm_sender_count sh" "sm_owner sh' = sm_owner sh"
    "case r of
       None \<Rightarrow> ?cc = - 1 \<and> hdr_connections m sh' = - 1 \<and> shm_live m sh' = shm_live m sh
     | Some (b, cur) \<Rightarrow> \<exists>n < 32. b = 2 ^ n \<and> n = free_index ?cc \<and> \<not> bit ?cc n
         \<and> hdr_connections m sh' = set_bit n ?cc
         \<and> (\<forall>k. k \<noteq> n \<longrightarrow> shm_live m sh' k = shm_live m sh k)
         \<and> so_pid (shm_live m sh' n) = os_self os \<and> so_start_tok (shm_live m sh' n) = start_token os (os_self os)"
    by simp_all
qed

lemma run_call_keeps:
  assumes "\<And>c g pc. c \<in> set cs \<Longrightarrow> P g pc \<Longrightarrow> fin pc = None \<Longrightarrow> P (fst (acc c g pc)) (snd (acc c g pc))"
    and "P g pc" "run_call fin acc cs g pc = Some (g', r)"
  shows "\<exists>pc'. P g' pc' \<and> fin pc' = Some r"
  using assms
proof (induction fin acc cs g pc rule: run_call.induct)
  case (1 fin acc g pc)
  then show ?case by (auto split: option.splits)
next
  case (2 fin acc c cs g pc)
  show ?case
  proof (cases "fin pc")
    case None
    obtain g1 pc1 where a: "acc c g pc = (g1, pc1)" by fastforce
    have "P g1 pc1" using 2(2) [of c g pc] 2(3) None a by simp
    moreover have "run_call fin acc cs g1 pc1 = Some (g', r)" using 2(4) None a by simp
    ultimately show ?thesis using 2(1) [OF None a [symmetric]] 2(2) by simp
  next
    case (Some x)
    then show ?thesis using 2 by auto
  qed
qed

text \<open>Where a sender that has not timed out can be.\<close>

fun calm_pc :: "push_pc \<Rightarrow> bool" where
  "calm_pc (PBump _ _) = False"
| "calm_pc (PRem _ _) = False"
| "calm_pc (PEvict _ _) = False"
| "calm_pc (PUnmark _ _) = False"
| "calm_pc _ = True"

lemma push_access_calm:
  "calm_pc pc \<Longrightarrow> ch \<noteq> Timeout \<Longrightarrow> rg_connections g = cc \<and> rg_live g = lv \<Longrightarrow>
   let (g', pc') = push_access cc_id frag ch g pc in calm_pc pc' \<and> rg_connections g' = cc \<and> rg_live g' = lv"
  by (cases pc; cases ch) (simp_all add: push_access_def Let_def split: prod.splits)

lemma push_run_calm:
  assumes "run_call push_result (push_access cc_id frag) cs g PConn = Some (g', r)" "Timeout \<notin> set cs"
  shows "rg_connections g' = rg_connections g" "rg_live g' = rg_live g"
proof -
  let ?P = "\<lambda>g' pc. calm_pc pc \<and> rg_connections g' = rg_connections g \<and> rg_live g' = rg_live g"
  have step: "?P (fst (push_access cc_id frag c g1 pc)) (snd (push_access cc_id frag c g1 pc))"
    if "c \<in> set cs" "?P g1 pc" for c g1 pc
  proof -
    have "c \<noteq> Timeout" using that assms(2) by auto
    then show ?thesis using push_access_calm [of pc c g1 "rg_connections g" "rg_live g" cc_id frag] that
      by (simp add: case_prod_unfold Let_def)
  qed
  have "\<exists>pc'. ?P g' pc' \<and> push_result pc' = Some r"
    by (rule run_call_keeps [where P = ?P, OF _ _ assms(1)]) (rule step, assumption+, simp)
  then show "rg_connections g' = rg_connections g" "rg_live g' = rg_live g" by blast+
qed

lemma mpush_access_header:
  "cg_connections (fst (mpush_access cc_id frag ch g pc)) = cg_connections g"
  "cg_live (fst (mpush_access cc_id frag ch g pc)) = cg_live g"
  by (cases pc; simp add: mpush_access_def Let_def split: prod.splits)+

lemma mpush_run_header:
  assumes "run_call mpush_result (mpush_access cc_id frag) cs g pc = Some (g', r)"
  shows "cg_connections g' = cg_connections g" "cg_live g' = cg_live g"
proof -
  let ?P = "\<lambda>g' _. cg_connections g' = cg_connections g \<and> cg_live g' = cg_live g"
  have "\<exists>pc'. ?P g' pc' \<and> mpush_result pc' = Some r"
    by (rule run_call_keeps [where P = ?P, OF _ _ assms]) (simp_all add: mpush_access_header)
  then show "cg_connections g' = cg_connections g" "cg_live g' = cg_live g" by blast+
qed

text \<open>Two states with the same mask, owner table, sender count and sender record.\<close>

definition same_hdr :: "bool \<Rightarrow> chan_shm \<Rightarrow> chan_shm \<Rightarrow> bool" where
  "same_hdr m sh sh' \<longleftrightarrow> hdr_of m sh' = hdr_of m sh \<and> sm_owner sh' = sm_owner sh"

lemma same_hdr_refl [simp]: "same_hdr m sh sh"
  by (simp add: same_hdr_def)

lemma same_hdr_trans: "same_hdr m a b \<Longrightarrow> same_hdr m b c \<Longrightarrow> same_hdr m a c"
  by (simp add: same_hdr_def)

lemma push_fragment_hdr:
  assumes "push_fragment e cs f sh = Some (sh', r)" "Timeout \<notin> set cs"
  shows "same_hdr (ch_multi e) sh sh'"
  using assms push_run_calm [of "ch_cc_id e" f cs "sm_route sh"] mpush_run_header [of "ch_cc_id e" f cs "sm_multi sh"]
  by (auto simp: push_fragment_def same_hdr_def hdr_of_def hdr_connections_def shm_live_def split: if_splits)

lemma push_fragments_hdr:
  "push_fragments e css fs sh = Some (sh', r) \<Longrightarrow> \<forall>cs \<in> set css. Timeout \<notin> set cs \<Longrightarrow> same_hdr (ch_multi e) sh sh'"
proof (induction e css fs sh rule: push_fragments.induct)
  case (3 e cs css f fs sh)
  obtain sh1 r1 where p: "push_fragment e cs f sh = Some (sh1, r1)"
    using 3(2) by (auto split: option.splits)
  have h: "same_hdr (ch_multi e) sh sh1" using push_fragment_hdr [OF p] 3(3) by simp
  show ?case
  proof (cases "r1 = Inr True")
    case True
    then have "push_fragments e css fs sh1 = Some (sh', r)" using 3(2) p by simp
    then show ?thesis using 3(1) [OF p refl True] 3(3) h True by (auto intro: same_hdr_trans)
  next
    case False
    then show ?thesis using 3(2) p h by (cases r1) auto
  qed
qed auto

lemma assemble_message_keeps:
  assumes "assemble_message al r sh e = (sh', e', out)"
  shows "same_hdr m sh sh'" "\<exists>cache. e' = e\<lparr>ch_recv_cache := cache\<rparr>"
  using assms
  by (auto simp: assemble_message_def same_hdr_def hdr_of_def Let_def split: if_splits option.splits sum.splits
      intro: exI [of _ "ch_recv_cache e"])

lemma recv_access_header:
  "rg_connections (fst (recv_access conn_id ch g cur pc)) = rg_connections g"
  "rg_live (fst (recv_access conn_id ch g cur pc)) = rg_live g"
  by (cases pc; simp add: recv_access_def Let_def)+

lemma mrecv_access_header:
  "cg_connections (fst (mrecv_access conn_id ch g cur pc)) = cg_connections g"
  "cg_live (fst (mrecv_access conn_id ch g cur pc)) = cg_live g"
  by (cases pc; simp add: mrecv_access_def Let_def)+

text \<open>What identifies an endpoint and its connection; the cursor, the cache and the sequence number are the rest.\<close>

definition same_end :: "chan_inner \<Rightarrow> chan_inner \<Rightarrow> bool" where
  "same_end e e' \<longleftrightarrow> ch_mode e' = ch_mode e \<and> ch_conn_id e' = ch_conn_id e \<and> ch_multi e' = ch_multi e
     \<and> ch_disconnected e' = ch_disconnected e \<and> ch_sender_claimed e' = ch_sender_claimed e"

lemma same_end_refl [simp]: "same_end e e"
  by (simp add: same_end_def)

lemma recv_loop_keeps:
  "recv_loop al cs sh e pc = Some (sh', e', r) \<Longrightarrow> same_hdr m sh sh' \<and> same_end e e'"
proof (induction cs arbitrary: sh e pc)
  case (Cons c cs)
  obtain g cur pc' where a: "recv_access (ch_conn_id e) c (sm_route sh) (ch_read_cursor e) pc = (g, cur, pc')"
    by (cases "recv_access (ch_conn_id e) c (sm_route sh) (ch_read_cursor e) pc") auto
  let ?sh = "sh\<lparr>sm_route := g\<rparr>" and ?e = "e\<lparr>ch_read_cursor := cur\<rparr>"
  have h: "same_hdr m sh ?sh" "same_end e ?e"
    using recv_access_header [of "ch_conn_id e" c "sm_route sh" "ch_read_cursor e" pc] a
    by (simp_all add: same_hdr_def same_end_def hdr_of_def hdr_connections_def shm_live_def)
  have ih: "same_hdr m ?sh sh' \<and> same_end ?e e'" if "recv_loop al cs ?sh ?e pc' = Some (sh', e', r)"
    using Cons.IH [OF that] .
  show ?case
  proof (cases pc)
    case (RAdvance d)
    obtain s2 e2 out where m: "assemble_message al (decode_slot (ch_cc_id ?e) d) ?sh ?e = (s2, e2, out)"
      by (cases "assemble_message al (decode_slot (ch_cc_id ?e) d) ?sh ?e") auto
    have k: "same_hdr m ?sh s2" "same_end ?e e2"
      using assemble_message_keeps [OF m] by (auto simp: same_end_def)
    have "pc' \<noteq> RTimeout" using a RAdvance by (auto simp: recv_access_def)
    then have "s2 = sh' \<and> e2 = e' \<or> recv_loop al cs s2 e2 pc' = Some (sh', e', r)"
      using Cons.prems a m RAdvance by (auto split: sum.splits option.splits)
    then have "same_hdr m s2 sh' \<and> same_end e2 e'" using Cons.IH by auto
    then show ?thesis using h k by (auto simp: same_end_def intro: same_hdr_trans)
  qed (use Cons.prems a h ih in \<open>auto simp: Let_def same_end_def intro: same_hdr_trans split: if_splits\<close>)
qed simp

lemma recv_multi_loop_keeps:
  "recv_multi_loop al cs sh e pc = Some (sh', e', r) \<Longrightarrow> same_hdr m sh sh' \<and> same_end e e'"
proof (induction cs arbitrary: sh e pc)
  case (Cons c cs)
  obtain g cur pc' where a: "mrecv_access (ch_conn_id e) c (sm_multi sh) (ch_read_cursor e) pc = (g, cur, pc')"
    by (cases "mrecv_access (ch_conn_id e) c (sm_multi sh) (ch_read_cursor e) pc") auto
  let ?sh = "sh\<lparr>sm_multi := g\<rparr>" and ?e = "e\<lparr>ch_read_cursor := cur\<rparr>"
  have h: "same_hdr m sh ?sh" "same_end e ?e"
    using mrecv_access_header [of "ch_conn_id e" c "sm_multi sh" "ch_read_cursor e" pc] a
    by (simp_all add: same_hdr_def same_end_def hdr_of_def hdr_connections_def shm_live_def)
  have ih: "same_hdr m ?sh sh' \<and> same_end ?e e'" if "recv_multi_loop al cs ?sh ?e pc' = Some (sh', e', r)"
    using Cons.IH [OF that] .
  show ?case
  proof (cases pc)
    case (QAdvance d)
    obtain s2 e2 out where m: "assemble_message al (decode_slot (ch_cc_id ?e) d) ?sh ?e = (s2, e2, out)"
      by (cases "assemble_message al (decode_slot (ch_cc_id ?e) d) ?sh ?e") auto
    have k: "same_hdr m ?sh s2" "same_end ?e e2"
      using assemble_message_keeps [OF m] by (auto simp: same_end_def)
    have "pc' \<noteq> QTimeout" using a QAdvance by (auto simp: mrecv_access_def Let_def)
    then have "s2 = sh' \<and> e2 = e' \<or> recv_multi_loop al cs s2 e2 pc' = Some (sh', e', r)"
      using Cons.prems a m QAdvance by (auto split: sum.splits option.splits)
    then have "same_hdr m s2 sh' \<and> same_end e2 e'" using Cons.IH by auto
    then show ?thesis using h k by (auto simp: same_end_def intro: same_hdr_trans)
  qed (use Cons.prems a h ih in \<open>auto simp: Let_def same_end_def intro: same_hdr_trans split: if_splits\<close>)
qed simp

lemma chan_recv_keeps:
  "chan_recv al cs sh e = Some (sh', e', r) \<Longrightarrow> same_hdr m sh sh' \<and> same_end e e'"
  by (auto simp: chan_recv_def split: if_splits dest: recv_loop_keeps recv_multi_loop_keeps)

section \<open>The invariant\<close>

definition receiving :: "chan_inner \<Rightarrow> bool" where
  "receiving e \<longleftrightarrow> ch_mode e = Receiver \<and> \<not> ch_disconnected e"

definition sending :: "chan_inner \<Rightarrow> bool" where
  "sending e \<longleftrightarrow> ch_mode e = Sender \<and> \<not> ch_disconnected e"

type_synonym endpoints = "nat \<Rightarrow> chan_inner option"

definition owners :: "endpoints \<Rightarrow> nat \<Rightarrow> nat set" where
  "owners eps n = {i. \<exists>e. eps i = Some e \<and> receiving e \<and> ch_conn_id e = 2 ^ n}"

definition senders :: "endpoints \<Rightarrow> nat set" where
  "senders eps = {i. \<exists>e. eps i = Some e \<and> sending e}"

definition claimers :: "endpoints \<Rightarrow> nat set" where
  "claimers eps = {i. \<exists>e. eps i = Some e \<and> ch_sender_claimed e}"

text \<open>Every process is alive, for every other one, under the token it records.\<close>

definition all_alive :: "(nat \<Rightarrow> os) \<Rightarrow> bool" where
  "all_alive osf \<longleftrightarrow>
     (\<forall>i j. is_process_alive (osf i) (os_self (osf j)) (start_token (osf j) (os_self (osf j))))"

definition mask_ok :: "(nat \<Rightarrow> os) \<Rightarrow> bool \<Rightarrow> chan_shm \<Rightarrow> endpoints \<Rightarrow> bool" where
  "mask_ok osf m sh eps \<longleftrightarrow> (\<forall>n < 32.
     if bit (hdr_connections m sh) n
     then (\<exists>i. owners eps n = {i}) \<and> (\<exists>j. so_pid (shm_live m sh n) = os_self (osf j)
            \<and> so_start_tok (shm_live m sh n) = start_token (osf j) (os_self (osf j)))
     else owners eps n = {})"

definition claim_ok :: "(nat \<Rightarrow> os) \<Rightarrow> chan_shm \<Rightarrow> endpoints \<Rightarrow> bool" where
  "claim_ok osf sh eps \<longleftrightarrow> claimers eps = {} \<or>
     (\<exists>i. claimers eps = {i} \<and> so_pid (sm_owner sh) = os_self (osf i)
        \<and> so_start_tok (sm_owner sh) = start_token (osf i) (os_self (osf i)))"

definition kinds_ok :: "bool \<Rightarrow> endpoints \<Rightarrow> bool" where
  "kinds_ok m eps \<longleftrightarrow> finite (dom eps) \<and> (\<forall>i e. eps i = Some e \<longrightarrow> ch_multi e = m
     \<and> (receiving e \<longrightarrow> (\<exists>n < 32. ch_conn_id e = 2 ^ n)) \<and> (ch_sender_claimed e \<longrightarrow> ch_mode e = Sender))"

definition ends_ok :: "(nat \<Rightarrow> os) \<Rightarrow> bool \<Rightarrow> chan_shm \<Rightarrow> endpoints \<Rightarrow> bool" where
  "ends_ok osf m sh eps \<longleftrightarrow> kinds_ok m eps \<and> mask_ok osf m sh eps
     \<and> sm_sender_count sh = of_nat (card (senders eps)) \<and> claim_ok osf sh eps"

lemma bit_index_inj:
  assumes "(2 :: u32) ^ n = 2 ^ k" "n < 32" "k < 32"
  shows "n = k"
proof -
  have "trailing_zeros ((2 :: u32) ^ n) = n" "trailing_zeros ((2 :: u32) ^ k) = k"
    using assms(2,3) by simp_all
  then show ?thesis unfolding assms(1) by (rule trans [OF sym])
qed

lemma owners_upd:
  "owners (eps(i := x)) n =
     (owners eps n - {i}) \<union> (case x of Some e \<Rightarrow> if receiving e \<and> ch_conn_id e = 2 ^ n then {i} else {} | None \<Rightarrow> {})"
  by (rule set_eqI, cases x) (simp_all add: owners_def)

lemma senders_upd:
  "senders (eps(i := x)) = (senders eps - {i}) \<union> (case x of Some e \<Rightarrow> if sending e then {i} else {} | None \<Rightarrow> {})"
  by (rule set_eqI, cases x) (simp_all add: senders_def)

lemma claimers_upd:
  "claimers (eps(i := x)) = (claimers eps - {i}) \<union> (case x of Some e \<Rightarrow> if ch_sender_claimed e then {i} else {} | None \<Rightarrow> {})"
  by (rule set_eqI, cases x) (simp_all add: claimers_def)

lemmas ends_upd = owners_upd senders_upd claimers_upd

lemma senders_finite: "kinds_ok m eps \<Longrightarrow> finite (senders eps)"
  by (rule finite_subset [of _ "dom eps"]) (auto simp: kinds_ok_def senders_def)

text \<open>An endpoint that is absent or disconnected owns no bit and does not count as a sender.\<close>

definition idle_at :: "endpoints \<Rightarrow> nat \<Rightarrow> bool" where
  "idle_at eps i \<longleftrightarrow> (\<forall>e. eps i = Some e \<longrightarrow> ch_disconnected e)"

lemma idle_at_sets: "idle_at eps i \<Longrightarrow> i \<notin> owners eps n" "idle_at eps i \<Longrightarrow> i \<notin> senders eps"
  by (auto simp: idle_at_def owners_def senders_def receiving_def sending_def)

lemma kinds_ok_upd:
  "kinds_ok m eps \<Longrightarrow> ch_multi e = m \<Longrightarrow> receiving e \<longrightarrow> (\<exists>n < 32. ch_conn_id e = 2 ^ n)
    \<Longrightarrow> ch_sender_claimed e \<longrightarrow> ch_mode e = Sender \<Longrightarrow> kinds_ok m (eps(i \<mapsto> e))"
  by (simp add: kinds_ok_def)

lemma kinds_ok_remove: "kinds_ok m eps \<Longrightarrow> kinds_ok m (eps(i := None))"
  by (simp add: kinds_ok_def)

text \<open>A call that leaves the header and the identity of its endpoint alone.\<close>

lemma ends_ok_same:
  assumes "ends_ok osf m sh eps" "eps i = Some e" "same_hdr m sh sh'" "same_end e e'"
  shows "ends_ok osf m sh' (eps(i \<mapsto> e'))"
proof -
  have r: "receiving e' = receiving e" "sending e' = sending e" "ch_conn_id e' = ch_conn_id e"
    "ch_sender_claimed e' = ch_sender_claimed e" "ch_multi e' = ch_multi e" "ch_mode e' = ch_mode e"
    using assms(4) by (auto simp: same_end_def receiving_def sending_def)
  have s: "owners (eps(i \<mapsto> e')) n = owners eps n" "senders (eps(i \<mapsto> e')) = senders eps"
    "claimers (eps(i \<mapsto> e')) = claimers eps" for n
    using assms(2) r by (auto simp: owners_def senders_def claimers_def)
  have h: "hdr_connections m sh' = hdr_connections m sh" "shm_live m sh' = shm_live m sh"
    "sm_sender_count sh' = sm_sender_count sh" "sm_owner sh' = sm_owner sh"
    using assms(3) by (auto simp: same_hdr_def hdr_of_def)
  have "kinds_ok m (eps(i \<mapsto> e'))"
    using assms(1,2) r by (intro kinds_ok_upd) (auto simp: ends_ok_def kinds_ok_def)
  then show ?thesis using assms(1) by (simp add: ends_ok_def mask_ok_def claim_ok_def s h)
qed

lemma claim_ok_shrink:
  assumes "claim_ok osf sh eps" "claimers eps' = claimers eps - {i}"
  shows "claim_ok osf sh eps'"
proof (cases "i \<in> claimers eps")
  case True
  then have "claimers eps' = {}" using assms unfolding claim_ok_def by auto
  then show ?thesis by (simp add: claim_ok_def)
next
  case False
  then have "claimers eps' = claimers eps" using assms(2) by simp
  then show ?thesis using assms(1) by (simp add: claim_ok_def)
qed

lemma ends_ok_remove:
  assumes "ends_ok osf m sh eps" "idle_at eps i"
  shows "ends_ok osf m sh (eps(i := None))"
proof -
  have s: "owners (eps(i := None)) n = owners eps n" "senders (eps(i := None)) = senders eps"
    "claimers (eps(i := None)) = claimers eps - {i}" for n
    using idle_at_sets [OF assms(2)] by (simp_all add: ends_upd)
  have "claim_ok osf sh (eps(i := None))"
    using assms(1) by (intro claim_ok_shrink [OF _ s(3)]) (simp add: ends_ok_def)
  then show ?thesis
    using assms(1) by (simp add: ends_ok_def mask_ok_def s kinds_ok_remove)
qed

lemma claim_sole_owner_alive:
  assumes "is_process_alive os (so_pid r) (so_start_tok r)"
  shows "claim_sole_owner os r = (r, False)"
proof -
  have "0 < sint (so_pid r)" using assms by (simp add: is_process_alive_def split: if_splits)
  then show ?thesis using assms by (simp add: claim_sole_owner_def)
qed

lemma claim_alive:
  assumes "all_alive osf" "so_pid r = os_self (osf j)" "so_start_tok r = start_token (osf j) (os_self (osf j))"
  shows "claim_sole_owner (osf i) r = (r, False)"
  using assms by (intro claim_sole_owner_alive) (simp add: all_alive_def)

text \<open>A claim for endpoint \<open>i\<close>: it fails while another endpoint holds the record.\<close>

lemma claim_ok_claim:
  assumes "all_alive osf" "claim_ok osf sh eps" "claim_sender (osf i) sh = (sh', ok)"
  shows "ok \<longrightarrow> claimers eps = {} \<and> so_pid (sm_owner sh') = os_self (osf i)
      \<and> so_start_tok (sm_owner sh') = start_token (osf i) (os_self (osf i))"
    "\<not> ok \<longrightarrow> sm_owner sh' = sm_owner sh" "sh' = sh\<lparr>sm_owner := sm_owner sh'\<rparr>"
proof -
  have f: "ok = False" if "claimers eps \<noteq> {}"
  proof -
    obtain j where j: "so_pid (sm_owner sh) = os_self (osf j)"
      "so_start_tok (sm_owner sh) = start_token (osf j) (os_self (osf j))"
      using assms(2) \<open>claimers eps \<noteq> {}\<close> unfolding claim_ok_def by blast
    show ?thesis using assms(3) by (simp add: claim_sender_def claim_alive [OF assms(1) j])
  qed
  show "ok \<longrightarrow> claimers eps = {} \<and> so_pid (sm_owner sh') = os_self (osf i)
      \<and> so_start_tok (sm_owner sh') = start_token (osf i) (os_self (osf i))"
    "\<not> ok \<longrightarrow> sm_owner sh' = sm_owner sh" "sh' = sh\<lparr>sm_owner := sm_owner sh'\<rparr>"
    using f assms(3)
    by (auto simp: claim_sender_def claim_sole_owner_def Let_def split: if_splits)
qed

section \<open>Every call keeps the invariant\<close>

lemma sender_ready_ok:
  assumes "all_alive osf" "ends_ok osf m sh eps" "eps i = Some e" "ch_mode e = Sender"
    "sender_ready (osf i) sh e = (sh', e', r)"
  shows "ends_ok osf m sh' (eps(i \<mapsto> e'))"
proof (cases "ch_multi e \<or> ch_sender_claimed e")
  case True
  then have "sh' = sh" "e' = e" using assms(5) by (auto simp: sender_ready_def)
  then show ?thesis using ends_ok_same [OF assms(2,3)] by simp
next
  case False
  obtain ok where c: "claim_sender (osf i) sh = (sh', ok)" and e': "e' = e\<lparr>ch_sender_claimed := ok\<rparr>"
    using assms(5) False by (auto simp: sender_ready_def split: prod.splits)
  note k = assms(2) [unfolded ends_ok_def]
  have k1: "claim_ok osf sh eps" using k by simp
  note cl = claim_ok_claim [OF assms(1) k1 c]
  have h: "hdr_connections m sh' = hdr_connections m sh" "shm_live m sh' = shm_live m sh"
    "sm_sender_count sh' = sm_sender_count sh"
    by (subst cl(3), simp)+
  have s: "owners (eps(i \<mapsto> e')) n = owners eps n" "senders (eps(i \<mapsto> e')) = senders eps"
    "claimers (eps(i \<mapsto> e')) = (if ok then insert i (claimers eps) else claimers eps)" for n
    using assms(3) False e' by (auto simp: owners_def senders_def claimers_def receiving_def sending_def)
  have "claim_ok osf sh' (eps(i \<mapsto> e'))"
    using cl(1,2) k unfolding claim_ok_def s by (cases ok) auto
  moreover have "kinds_ok m (eps(i \<mapsto> e'))"
    using k assms(3,4) e' by (intro kinds_ok_upd) (auto simp: kinds_ok_def receiving_def)
  ultimately show ?thesis using k by (simp add: ends_ok_def mask_ok_def s h)
qed

lemma open_sender_ok:
  assumes "all_alive osf" "ends_ok osf m sh eps" "idle_at eps i"
    "chan_open (osf i) pre name Sender m sh = (sh', r)"
  shows "\<exists>e. r = Inr e \<and> ends_ok osf m sh' (eps(i \<mapsto> e))"
proof -
  define s1 where "s1 = sh\<lparr>sm_cc_id := alloc_cc_id (sm_cc_id sh), sm_sender_count := sm_sender_count sh + 1\<rparr>"
  obtain s2 ok where c: "(if m then (s1, False) else claim_sender (osf i) s1) = (s2, ok)" by fastforce
  define e where "e = new_inner pre name Sender m (alloc_cc_id (sm_cc_id sh)) 0 0 ok"
  have r: "sh' = s2" "r = Inr e"
    using assms(4) c by (auto simp: chan_open_def Let_def s1_def e_def split: if_splits prod.splits)
  note k = assms(2) [unfolded ends_ok_def]
  have k1: "claim_ok osf s1 eps" using k by (simp add: claim_ok_def s1_def)
  have "(ok \<longrightarrow> claimers eps = {} \<and> so_pid (sm_owner s2) = os_self (osf i)
      \<and> so_start_tok (sm_owner s2) = start_token (osf i) (os_self (osf i)))
    \<and> (\<not> ok \<longrightarrow> sm_owner s2 = sm_owner s1) \<and> s2 = s1\<lparr>sm_owner := sm_owner s2\<rparr>"
  proof (cases m)
    case True
    then show ?thesis using c by auto
  next
    case False
    then have "claim_sender (osf i) s1 = (s2, ok)" using c by simp
    from claim_ok_claim [OF assms(1) k1 this] show ?thesis by blast
  qed
  then have c1: "ok \<longrightarrow> claimers eps = {} \<and> so_pid (sm_owner s2) = os_self (osf i)
      \<and> so_start_tok (sm_owner s2) = start_token (osf i) (os_self (osf i))"
    "\<not> ok \<longrightarrow> sm_owner s2 = sm_owner s1" "s2 = s1\<lparr>sm_owner := sm_owner s2\<rparr>"
    by blast+
  have h: "hdr_connections m s2 = hdr_connections m sh" "shm_live m s2 = shm_live m sh"
    "sm_sender_count s2 = sm_sender_count sh + 1"
    by (subst c1(3), simp add: s1_def)+
  have e: "\<not> receiving e" "sending e" "ch_multi e = m" "ch_sender_claimed e = ok" "ch_mode e = Sender"
    by (simp_all add: e_def new_inner_def receiving_def sending_def)
  have s: "owners (eps(i \<mapsto> e)) n = owners eps n" "senders (eps(i \<mapsto> e)) = insert i (senders eps)"
    "claimers (eps(i \<mapsto> e)) = (if ok then insert i (claimers eps) else claimers eps - {i})" for n
    using e idle_at_sets [OF assms(3)] by (simp_all add: ends_upd)
  have "claim_ok osf s2 (eps(i \<mapsto> e))"
  proof (cases ok)
    case True
    then show ?thesis using c1(1) unfolding claim_ok_def s by simp
  next
    case False
    then have "claim_ok osf s2 eps" using k1 c1(2) by (simp add: claim_ok_def)
    moreover have "claimers (eps(i \<mapsto> e)) = claimers eps - {i}" using False s(3) by simp
    ultimately show ?thesis by (rule claim_ok_shrink)
  qed
  moreover have "kinds_ok m (eps(i \<mapsto> e))" using k e by (intro kinds_ok_upd) simp_all
  moreover have "card (insert i (senders eps)) = Suc (card (senders eps))"
    using idle_at_sets(2) [OF assms(3)] senders_finite k by (intro card_insert_disjoint) auto
  ultimately have "ends_ok osf m s2 (eps(i \<mapsto> e))" using k by (simp add: ends_ok_def mask_ok_def s h)
  then show ?thesis using r by simp
qed

lemma mask_ok_alive:
  assumes "all_alive osf" "mask_ok osf m sh eps" "bit (hdr_connections m sh) n"
  shows "is_process_alive (osf i) (so_pid (shm_live m sh n)) (so_start_tok (shm_live m sh n))"
proof -
  have "n < 32" using bit_imp_le_length [OF assms(3)] by simp
  then obtain j where "so_pid (shm_live m sh n) = os_self (osf j)"
    "so_start_tok (shm_live m sh n) = start_token (osf j) (os_self (osf j))"
    using assms(2,3) unfolding mask_ok_def by metis
  then show ?thesis using assms(1) unfolding all_alive_def by simp
qed

lemma mask_ok_connect:
  assumes "mask_ok osf m sh eps" "idle_at eps i" "receiving e" "ch_conn_id e = 2 ^ n" "n < 32"
    "\<not> bit (hdr_connections m sh) n" "hdr_connections m sh' = set_bit n (hdr_connections m sh)"
    "\<forall>k. k \<noteq> n \<longrightarrow> shm_live m sh' k = shm_live m sh k"
    "so_pid (shm_live m sh' n) = os_self (osf j)" "so_start_tok (shm_live m sh' n) = start_token (osf j) (os_self (osf j))"
  shows "mask_ok osf m sh' (eps(i \<mapsto> e))"
  unfolding mask_ok_def
proof (intro allI impI)
  fix k :: nat assume k: "k < 32"
  have o: "owners (eps(i \<mapsto> e)) k = (if k = n then insert i (owners eps n) else owners eps k)"
    using idle_at_sets(1) [OF assms(2)] assms(3,4,5) k by (auto simp: owners_upd dest: bit_index_inj)
  show "if bit (hdr_connections m sh') k
     then (\<exists>i'. owners (eps(i \<mapsto> e)) k = {i'}) \<and> (\<exists>j. so_pid (shm_live m sh' k) = os_self (osf j)
            \<and> so_start_tok (shm_live m sh' k) = start_token (osf j) (os_self (osf j)))
     else owners (eps(i \<mapsto> e)) k = {}"
  proof (cases "k = n")
    case True
    have "owners eps n = {}" using assms(1,5,6) unfolding mask_ok_def by simp
    then have "owners (eps(i \<mapsto> e)) k = {i}" using o True by simp
    then show ?thesis using True assms(5,7,9,10) by (auto simp: bit_set_bit_iff)
  next
    case False
    then have "bit (hdr_connections m sh') k = bit (hdr_connections m sh) k" by (simp add: assms(7) bit_set_bit_iff)
    then show ?thesis using assms(1,8) k o False unfolding mask_ok_def by simp
  qed
qed

lemma open_receiver_ok:
  assumes "all_alive osf" "ends_ok osf m sh eps" "idle_at eps i"
    "chan_open (osf i) pre name Receiver m sh = (sh', r)"
  shows "case r of Inl _ \<Rightarrow> ends_ok osf m sh' eps | Inr e \<Rightarrow> ends_ok osf m sh' (eps(i \<mapsto> e))"
proof -
  define s1 where "s1 = sh\<lparr>sm_cc_id := alloc_cc_id (sm_cc_id sh)\<rparr>"
  obtain s2 o2 where c: "connect_receiver (osf i) m s1 = (s2, o2)" by fastforce
  have k: "ends_ok osf m s1 eps" using assms(2) by (simp add: s1_def ends_ok_def mask_ok_def claim_ok_def)
  note k' = k [unfolded ends_ok_def]
  have m1: "mask_ok osf m s1 eps" using k' by simp
  note eff = connect_receiver_effect [OF mask_ok_alive [OF assms(1) m1] c]
  note e12 = eff(1,2)
  show ?thesis
  proof (cases o2)
    case None
    then have "hdr_connections m s2 = hdr_connections m s1" "shm_live m s2 = shm_live m s1" "sh' = s2" "r = Inl TooManyReceivers"
      using eff(3) assms(4) c by (auto simp: chan_open_def Let_def s1_def [symmetric])
    then show ?thesis using k' e12 by (simp add: ends_ok_def mask_ok_def claim_ok_def)
  next
    case (Some p)
    obtain b cur where p: "p = (b, cur)" by fastforce
    then obtain n where n: "n < 32" "b = 2 ^ n" "\<not> bit (hdr_connections m s1) n"
      "hdr_connections m s2 = set_bit n (hdr_connections m s1)" "\<forall>k. k \<noteq> n \<longrightarrow> shm_live m s2 k = shm_live m s1 k"
      "so_pid (shm_live m s2 n) = os_self (osf i)" "so_start_tok (shm_live m s2 n) = start_token (osf i) (os_self (osf i))"
      using eff(3) Some by auto
    define e where "e = new_inner pre name Receiver m (alloc_cc_id (sm_cc_id sh)) b cur False"
    have r: "sh' = s2" "r = Inr e" using assms(4) c Some p by (auto simp: chan_open_def Let_def s1_def e_def)
    have e: "receiving e" "\<not> sending e" "ch_multi e = m" "\<not> ch_sender_claimed e" "ch_conn_id e = 2 ^ n"
      by (simp_all add: e_def new_inner_def receiving_def sending_def n(2))
    have "mask_ok osf m s2 (eps(i \<mapsto> e))"
      by (rule mask_ok_connect [OF m1 assms(3) e(1,5) n(1,3-7)])
    moreover have s: "senders (eps(i \<mapsto> e)) = senders eps" "claimers (eps(i \<mapsto> e)) = claimers eps - {i}"
      using e idle_at_sets [OF assms(3)] by (simp_all add: ends_upd)
    moreover have "claim_ok osf s2 (eps(i \<mapsto> e))"
      using k' e12 by (intro claim_ok_shrink [OF _ s(2)]) (simp add: claim_ok_def)
    moreover have "kinds_ok m (eps(i \<mapsto> e))" using k' e n(1) by (intro kinds_ok_upd) auto
    ultimately show ?thesis using k' e12 r by (simp add: ends_ok_def)
  qed
qed

lemma chan_open_ok:
  assumes "all_alive osf" "ends_ok osf m sh eps" "idle_at eps i" "chan_open (osf i) pre name mode m sh = (sh', r)"
  shows "case r of Inl _ \<Rightarrow> ends_ok osf m sh' eps | Inr e \<Rightarrow> ends_ok osf m sh' (eps(i \<mapsto> e))"
proof (cases mode)
  case Sender
  then show ?thesis using open_sender_ok [OF assms(1-3), of pre name sh' r] assms(4) by auto
next
  case Receiver
  then show ?thesis using open_receiver_ok [OF assms(1-3), of pre name sh' r] assms(4) by simp
qed

lemma disconnect_sender_ok:
  assumes "ends_ok osf m sh eps" "eps i = Some e" "sending e" "chan_disconnect (osf i) sh e = (sh', e')"
  shows "ends_ok osf m sh' (eps(i \<mapsto> e'))"
proof -
  note k = assms(1) [unfolded ends_ok_def]
  have e': "e' = e\<lparr>ch_sender_claimed := False, ch_disconnected := True\<rparr>"
    and sh': "sm_sender_count sh' = sm_sender_count sh - 1" "hdr_connections m sh' = hdr_connections m sh"
      "shm_live m sh' = shm_live m sh" "\<not> ch_sender_claimed e \<Longrightarrow> sm_owner sh' = sm_owner sh"
    using assms(3,4) by (auto simp: chan_disconnect_def sending_def Let_def)
  have n: "\<not> receiving e'" "\<not> sending e'" "\<not> ch_sender_claimed e'" "ch_multi e' = ch_multi e"
    by (simp_all add: e' receiving_def sending_def)
  have i: "i \<in> senders eps" "i \<notin> owners eps n" for n
    using assms(2,3) by (auto simp: senders_def owners_def receiving_def sending_def)
  have s: "owners (eps(i \<mapsto> e')) n = owners eps n" "senders (eps(i \<mapsto> e')) = senders eps - {i}"
    "claimers (eps(i \<mapsto> e')) = claimers eps - {i}" for n
    using n i(2) by (simp_all add: ends_upd)
  have fin: "finite (senders eps)" using senders_finite k by blast
  then have "0 < card (senders eps)" using i(1) card_gt_0_iff by blast
  then have "of_nat (card (senders eps - {i})) = (of_nat (card (senders eps)) - 1 :: u32)"
    using card_Diff_singleton [OF i(1)] by (simp add: of_nat_diff)
  moreover have "claim_ok osf sh' (eps(i \<mapsto> e'))"
  proof (cases "ch_sender_claimed e")
    case True
    then have "i \<in> claimers eps" using assms(2) by (simp add: claimers_def)
    then have "claimers (eps(i \<mapsto> e')) = {}" using k s(3) unfolding claim_ok_def by auto
    then show ?thesis by (simp add: claim_ok_def)
  next
    case False
    then have "claim_ok osf sh' eps" using k sh'(4) by (simp add: claim_ok_def)
    then show ?thesis using s(3) by (rule claim_ok_shrink)
  qed
  moreover have "kinds_ok m (eps(i \<mapsto> e'))"
    using k n assms(2) by (intro kinds_ok_upd) (auto simp: kinds_ok_def)
  ultimately show ?thesis using k by (simp add: ends_ok_def mask_ok_def s sh'(1-3))
qed

lemma mask_ok_release:
  assumes "mask_ok osf m sh eps" "eps i = Some e" "receiving e" "ch_conn_id e = 2 ^ n" "n < 32" "\<not> receiving e'"
    "hdr_connections m sh' = hdr_connections m sh AND NOT (2 ^ n)"
    "\<forall>k. k \<noteq> n \<longrightarrow> shm_live m sh' k = shm_live m sh k"
  shows "mask_ok osf m sh' (eps(i \<mapsto> e'))"
  unfolding mask_ok_def
proof (intro allI impI)
  fix k :: nat assume k: "k < 32"
  have i: "i \<in> owners eps n" "k \<noteq> n \<Longrightarrow> i \<notin> owners eps k"
    using assms(2-5) k by (auto simp: owners_def dest: bit_index_inj)
  have o: "owners (eps(i \<mapsto> e')) k = owners eps k - {i}" using assms(6) by (simp add: owners_upd)
  show "if bit (hdr_connections m sh') k
     then (\<exists>i'. owners (eps(i \<mapsto> e')) k = {i'}) \<and> (\<exists>j. so_pid (shm_live m sh' k) = os_self (osf j)
            \<and> so_start_tok (shm_live m sh' k) = start_token (osf j) (os_self (osf j)))
     else owners (eps(i \<mapsto> e')) k = {}"
  proof (cases "k = n")
    case True
    have "\<exists>i'. owners eps n = {i'}" using assms(1,5) i(1) unfolding mask_ok_def by (metis empty_iff)
    then have "owners (eps(i \<mapsto> e')) k = {}" using o i(1) True by auto
    moreover have "\<not> bit (hdr_connections m sh') k" using True assms(5) by (simp add: assms(7) bit_simps)
    ultimately show ?thesis by simp
  next
    case False
    then have "bit (hdr_connections m sh') k = bit (hdr_connections m sh) k"
      using k by (auto simp: assms(7) bit_simps)
    then show ?thesis using assms(1,8) k o i(2) False unfolding mask_ok_def by simp
  qed
qed

lemma disconnect_receiver_ok:
  assumes "ends_ok osf m sh eps" "eps i = Some e" "receiving e" "chan_disconnect (osf i) sh e = (sh', e')"
  shows "ends_ok osf m sh' (eps(i \<mapsto> e'))"
proof -
  note k = assms(1) [unfolded ends_ok_def]
  obtain n where n: "n < 32" "ch_conn_id e = 2 ^ n" and m: "ch_multi e = m"
    and c: "ch_sender_claimed e \<longrightarrow> ch_mode e = Sender"
    using k assms(2,3) unfolding kinds_ok_def by metis
  have nz: "(2 :: u32) ^ n \<noteq> 0" and ix: "slot_index (2 ^ n) = n" using n(1) by (simp_all add: slot_index_def)
  have e': "e' = e\<lparr>ch_recv_cache := Map.empty, ch_disconnected := True\<rparr>"
    and sh': "sm_sender_count sh' = sm_sender_count sh" "sm_owner sh' = sm_owner sh"
      "hdr_connections m sh' = hdr_connections m sh AND NOT (2 ^ n)"
      "\<forall>k. k \<noteq> n \<longrightarrow> shm_live m sh' k = shm_live m sh k"
    using assms(3,4) nz ix by (auto simp: chan_disconnect_def receiving_def Let_def clear_owner_def m n(2))
  have r: "\<not> receiving e'" "\<not> sending e'" "ch_sender_claimed e' = ch_sender_claimed e" "ch_multi e' = m" "ch_mode e' = ch_mode e"
    by (simp_all add: e' receiving_def sending_def m)
  have "i \<notin> senders eps" "i \<notin> claimers eps"
    using assms(2,3) c by (auto simp: senders_def claimers_def sending_def receiving_def)
  then have s: "senders (eps(i \<mapsto> e')) = senders eps" "claimers (eps(i \<mapsto> e')) = claimers eps"
    using r c assms(3) by (auto simp: ends_upd receiving_def)
  have m1: "mask_ok osf m sh eps" using k by simp
  have "mask_ok osf m sh' (eps(i \<mapsto> e'))"
    by (rule mask_ok_release [OF m1 assms(2,3) n(2,1) r(1) sh'(3,4)])
  moreover have "kinds_ok m (eps(i \<mapsto> e'))"
    using k r c by (intro kinds_ok_upd) auto
  ultimately show ?thesis using k by (simp add: ends_ok_def claim_ok_def s sh'(1,2))
qed

lemma chan_disconnect_ok:
  assumes "ends_ok osf m sh eps" "eps i = Some e" "chan_disconnect (osf i) sh e = (sh', e')"
  shows "ends_ok osf m sh' (eps(i \<mapsto> e'))" "ch_disconnected e'" "ch_multi e' = ch_multi e"
proof -
  consider "ch_disconnected e" | "sending e" | "receiving e"
    by (cases "ch_mode e") (auto simp: sending_def receiving_def)
  then show "ends_ok osf m sh' (eps(i \<mapsto> e'))"
  proof cases
    case 1
    then show ?thesis using assms ends_ok_same [OF assms(1,2)] by (auto simp: chan_disconnect_def)
  next
    case 2
    then show ?thesis using disconnect_sender_ok assms by blast
  next
    case 3
    then show ?thesis using disconnect_receiver_ok assms by blast
  qed
  show "ch_disconnected e'" "ch_multi e' = ch_multi e"
    using assms(3) by (auto simp: chan_disconnect_def Let_def split: if_splits mode.splits)
qed

lemma ends_ok_multi: "ends_ok osf m sh eps \<Longrightarrow> eps i = Some e \<Longrightarrow> ch_multi e = m"
  by (simp add: ends_ok_def kinds_ok_def)

lemma chan_send_ok:
  assumes "all_alive osf" "ends_ok osf m sh eps" "eps i = Some e"
    "chan_send (osf i) css data sh e = Some (sh', e', r)" "\<forall>cs \<in> set css. Timeout \<notin> set cs"
  shows "ends_ok osf m sh' (eps(i \<mapsto> e'))"
proof (cases "data = [] \<or> ch_mode e \<noteq> Sender")
  case True
  then have "sh' = sh" "e' = e" using assms(4) by (auto simp: chan_send_def split: if_splits)
  then show ?thesis using ends_ok_same [OF assms(2,3)] by simp
next
  case False
  obtain s1 e1 ready where r: "sender_ready (osf i) sh e = (s1, e1, ready)"
    by (cases "sender_ready (osf i) sh e") auto
  have ok: "ends_ok osf m s1 (eps(i \<mapsto> e1))" using sender_ready_ok [OF assms(1-3) _ r] False by simp
  show ?thesis
  proof (cases "ready \<and> hdr_connections (ch_multi e1) s1 \<noteq> 0")
    case t: False
    then have "sh' = s1" "e' = e1" using assms(4) r False by (auto simp: chan_send_def split: if_splits)
    then show ?thesis using ok by simp
  next
    case t: True
    obtain mid s2 e2 where m: "take_msg_id s1 e1 = (mid, s2, e2)" by (cases "take_msg_id s1 e1") auto
    have "push_fragments e2 css (map (Pair mid) (fragments data)) s2 = Some (sh', r) \<and> e2 = e'"
      using assms(4) False t unfolding chan_send_def by (simp add: r m, metis)
    then have p: "push_fragments e2 css (map (Pair mid) (fragments data)) s2 = Some (sh', r)" "e' = e2"
      by blast+
    have mm: "ch_multi e1 = m" by (rule ends_ok_multi [OF ok, of i]) simp
    have "same_hdr m s1 s2" "same_end e1 e2" "ch_multi e2 = m"
      using m mm by (auto simp: take_msg_id_def same_hdr_def hdr_of_def same_end_def split: if_splits)
    moreover have "same_hdr m s2 sh'" using push_fragments_hdr [OF p(1) assms(5)] \<open>ch_multi e2 = m\<close> by simp
    ultimately have "ends_ok osf m sh' ((eps(i \<mapsto> e1))(i \<mapsto> e2))"
      by (intro ends_ok_same [OF ok]) (auto intro: same_hdr_trans)
    then show ?thesis using p(2) by simp
  qed
qed

definition world_ok :: "(nat \<Rightarrow> os) \<Rightarrow> bool \<Rightarrow> chan_world \<Rightarrow> bool" where
  "world_ok osf m w \<longleftrightarrow> (all_alive osf \<longrightarrow> ends_ok osf m (wd_shm w) (wd_eps w))"

lemma put_new_ok:
  assumes "all_alive osf" "ends_ok osf m (wd_shm w) (wd_eps w)" "idle_at (wd_eps w) i"
  shows "ends_ok osf m (wd_shm (put_new i w (chan_open (osf i) pre name mode m (wd_shm w))))
    (wd_eps (put_new i w (chan_open (osf i) pre name mode m (wd_shm w))))"
proof -
  obtain sh' r where o: "chan_open (osf i) pre name mode m (wd_shm w) = (sh', r)" by fastforce
  show ?thesis using chan_open_ok [OF assms o] o by (cases r) (simp_all add: put_new_def)
qed

lemma reconnect_ok:
  assumes "all_alive osf" "ends_ok osf m sh eps" "eps i = Some e" "chan_reconnect (osf i) mode sh e = (sh', e', r)"
  shows "ends_ok osf m sh' (eps(i \<mapsto> e'))"
proof -
  obtain s1 e1 where d: "chan_disconnect (osf i) sh e = (s1, e1)" by fastforce
  note k = chan_disconnect_ok [OF assms(2,3) d]
  have mm: "ch_multi e1 = m" by (rule ends_ok_multi [OF k(1), of i]) simp
  obtain s2 r2 where o: "chan_open (osf i) (ch_prefix e1) (ch_name e1) mode m s1 = (s2, r2)" by fastforce
  have "idle_at (eps(i \<mapsto> e1)) i" using k(2) by (simp add: idle_at_def)
  note k2 = chan_open_ok [OF assms(1) k(1) this o]
  show ?thesis
  proof (cases r2)
    case (Inl x)
    then show ?thesis using assms(4) d o mm k2 by (simp add: chan_reconnect_def)
  next
    case (Inr e2)
    then have "sh' = fst (chan_disconnect (osf i) s2 e1)" "e' = e2"
      using assms(4) d o mm by (simp_all add: chan_reconnect_def)
    then have "sh' = s2" "e' = e2" using k(2) by (simp_all add: chan_disconnect_def)
    then show ?thesis using k2 Inr by simp
  qed
qed

lemma chan_step_ok:
  assumes "world_ok osf m w" "chan_step osf al m w w'"
  shows "world_ok osf m w'"
  unfolding world_ok_def
proof
  assume al: "all_alive osf"
  have k: "ends_ok osf m (wd_shm w) (wd_eps w)" using assms(1) al by (simp add: world_ok_def)
  obtain op where op: "calm op" "chan_apply osf al m op w = Some w'" using assms(2) by (auto elim: chan_step.cases)
  have nw: "idle_at (wd_eps w) i" if "wd_eps w i = None" for i using that by (simp add: idle_at_def)
  show "ends_ok osf m (wd_shm w') (wd_eps w')"
  proof (cases op)
    case (OpOpen i mode)
    then show ?thesis using op(2) put_new_ok [OF al k nw] by (auto split: if_splits)
  next
    case (OpClone i j)
    then obtain e where e: "wd_eps w i = Some e" "wd_eps w j = None" "w' = put_new j w (clone_inner (osf j) (wd_shm w) e)"
      using op(2) by (auto split: option.splits if_splits)
    have "ch_multi e = m" by (rule ends_ok_multi [OF k e(1)])
    then show ?thesis using put_new_ok [OF al k nw [OF e(2)]] e(3) by (simp add: clone_inner_def)
  next
    case (OpSend i css data)
    then obtain e sh' e' r where e: "wd_eps w i = Some e" "chan_send (osf i) css data (wd_shm w) e = Some (sh', e', r)"
      "w' = put_back i w sh' e'" using op(2) by (auto split: option.splits)
    have "\<forall>cs \<in> set css. Timeout \<notin> set cs" using op(1) OpSend by simp
    from chan_send_ok [OF al k e(1,2) this] show ?thesis using e(3) by (simp add: put_back_def)
  next
    case (OpRecv i cs)
    then obtain e sh' e' r where e: "wd_eps w i = Some e" "chan_recv al cs (wd_shm w) e = Some (sh', e', r)"
      "w' = put_back i w sh' e'" using op(2) by (auto split: option.splits)
    from chan_recv_keeps [OF e(2)] show ?thesis
      using ends_ok_same [OF k e(1)] e(3) by (simp add: put_back_def)
  next
    case (OpDisconnect i)
    then obtain e sh' e' where e: "wd_eps w i = Some e" "chan_disconnect (osf i) (wd_shm w) e = (sh', e')"
      "w' = put_back i w sh' e'" using op(2) by (auto split: option.splits prod.splits)
    show ?thesis using chan_disconnect_ok(1) [OF k e(1,2)] e(3) by (simp add: put_back_def)
  next
    case (OpReconnect i mode)
    then obtain e sh' e' r where e: "wd_eps w i = Some e" "chan_reconnect (osf i) mode (wd_shm w) e = (sh', e', r)"
      "w' = put_back i w sh' e'" using op(2) by (auto split: option.splits prod.splits)
    show ?thesis using reconnect_ok [OF al k e(1,2)] e(3) by (simp add: put_back_def)
  next
    case (OpDrop i)
    then obtain e where e: "wd_eps w i = Some e"
      "w' = \<lparr>wd_shm = chan_drop (osf i) (wd_shm w) e, wd_eps = (wd_eps w)(i := None)\<rparr>"
      using op(2) by (auto split: option.splits)
    obtain sh' e' where d: "chan_disconnect (osf i) (wd_shm w) e = (sh', e')" by fastforce
    note dd = chan_disconnect_ok [OF k e(1) d]
    have "idle_at ((wd_eps w)(i \<mapsto> e')) i" using dd(2) by (simp add: idle_at_def)
    from ends_ok_remove [OF dd(1) this] show ?thesis using e(2) d by (simp add: chan_drop_def)
  qed
qed

lemma fresh_world_ok: "world_ok osf m fresh_world"
  by (simp add: world_ok_def ends_ok_def kinds_ok_def mask_ok_def claim_ok_def owners_def senders_def claimers_def
      fresh_world_def hdr_connections_def fresh_ring_def fresh_cring_def)

interpretation chan_life: invariant_system fresh_world "chan_step osf al m" "world_ok osf m" for osf al m
  by unfold_locales (auto intro: fresh_world_ok chan_step_ok)

section \<open>Bits, sender count and claim\<close>

text \<open>
  C3. Endpoint bookkeeping: after any sequence of \<open>open\<close>, \<open>clone\<close>, \<open>send\<close>, \<open>recv\<close>,
  \<open>disconnect\<close>, \<open>reconnect\<close> and \<open>drop\<close> calls on a route or channel by endpoints of live
  processes, in which no send times out: every connected receiver owns one bit of the
  32, no two own the same, the mask of the header has exactly the bits of the connected
  receivers, the sender count is the number of connected senders, and at most one
  endpoint holds the sole-sender claim.
\<close>

theorem endpoints_consistent:
  assumes "rtranclp (chan_step osf al multi) fresh_world w" "all_alive osf"
  shows "(\<forall>i j d e. wd_eps w i = Some d \<longrightarrow> wd_eps w j = Some e \<longrightarrow> receiving d \<longrightarrow> receiving e \<longrightarrow>
            (\<exists>n < 32. ch_conn_id d = 2 ^ n) \<and> (ch_conn_id d = ch_conn_id e \<longleftrightarrow> i = j))
    \<and> (\<forall>n < 32. bit (hdr_connections multi (wd_shm w)) n
          \<longleftrightarrow> (\<exists>i e. wd_eps w i = Some e \<and> receiving e \<and> ch_conn_id e = 2 ^ n))
    \<and> sm_sender_count (wd_shm w) = of_nat (card {i. \<exists>e. wd_eps w i = Some e \<and> sending e})
    \<and> (\<forall>i j d e. wd_eps w i = Some d \<longrightarrow> wd_eps w j = Some e \<longrightarrow>
            ch_sender_claimed d \<longrightarrow> ch_sender_claimed e \<longrightarrow> i = j)"
proof -
  have ok: "kinds_ok multi (wd_eps w)" "mask_ok osf multi (wd_shm w) (wd_eps w)"
    "sm_sender_count (wd_shm w) = of_nat (card (senders (wd_eps w)))" "claim_ok osf (wd_shm w) (wd_eps w)"
    using chan_life.reachable_inv [OF assms(1)] assms(2) by (simp_all add: world_ok_def ends_ok_def)
  have one: "\<exists>n < 32. ch_conn_id d = 2 ^ n" if "wd_eps w i = Some d" "receiving d" for i d
    using ok(1) that unfolding kinds_ok_def by blast
  have distinct: "ch_conn_id d = ch_conn_id e \<longleftrightarrow> i = j"
    if h: "wd_eps w i = Some d" "wd_eps w j = Some e" "receiving d" "receiving e" for i j d e
  proof
    assume c: "ch_conn_id d = ch_conn_id e"
    obtain n where n: "n < 32" "ch_conn_id d = 2 ^ n" using one [OF h(1,3)] by blast
    have "i \<in> owners (wd_eps w) n" "j \<in> owners (wd_eps w) n" using h c n(2) by (auto simp: owners_def)
    then show "i = j" using ok(2) n(1) unfolding mask_ok_def by (metis empty_iff singletonD)
  next
    assume "i = j"
    then show "ch_conn_id d = ch_conn_id e" using h by simp
  qed
  have mask: "bit (hdr_connections multi (wd_shm w)) n
      \<longleftrightarrow> (\<exists>i e. wd_eps w i = Some e \<and> receiving e \<and> ch_conn_id e = 2 ^ n)" if "n < 32" for n
  proof -
    have "bit (hdr_connections multi (wd_shm w)) n \<longleftrightarrow> owners (wd_eps w) n \<noteq> {}"
      using ok(2) that unfolding mask_ok_def by (metis insert_not_empty)
    then show ?thesis unfolding owners_def by blast
  qed
  have sole: "i = j"
    if "wd_eps w i = Some d" "wd_eps w j = Some e" "ch_sender_claimed d" "ch_sender_claimed e" for i j d e
  proof -
    have "i \<in> claimers (wd_eps w)" "j \<in> claimers (wd_eps w)" using that by (simp_all add: claimers_def)
    then show ?thesis using ok(4) unfolding claim_ok_def by auto
  qed
  show ?thesis
    by (intro conjI allI impI, rule one, assumption+, rule distinct, assumption+, rule mask, assumption,
        rule ok(3) [unfolded senders_def], rule sole, assumption+)
qed

fun chan_run :: "(nat \<Rightarrow> os) \<Rightarrow> align_class \<Rightarrow> bool \<Rightarrow> chan_world \<Rightarrow> chan_op list \<Rightarrow> chan_world option" where
  "chan_run osf al multi w [] = Some w"
| "chan_run osf al multi w (op # ops) =
     (case chan_apply osf al multi op w of None \<Rightarrow> None | Some w' \<Rightarrow> chan_run osf al multi w' ops)"

lemma chan_run_steps:
  "chan_run osf al multi w ops = Some w' \<Longrightarrow> list_all calm ops \<Longrightarrow> rtranclp (chan_step osf al multi) w w'"
  by (induction ops arbitrary: w)
     (auto split: option.splits intro: converse_rtranclp_into_rtranclp chan_call)

definition demo_ops :: "chan_op list" where
  "demo_ops = [OpOpen 0 Sender, OpOpen 1 Receiver, OpOpen 2 Receiver, OpSend 0 [replicate 7 Proceed] [1, 2, 3],
     OpRecv 1 (replicate 5 Proceed), OpDisconnect 1, OpOpen 3 Sender, OpClone 2 4, OpReconnect 0 Receiver]"

lemma all_alive_demo: "all_alive (\<lambda>_. demo_os)"
  by (simp add: all_alive_def demo_os_def is_process_alive_def is_zombie_def start_token_def)

lemma demo_ops_run:
  "case chan_run (\<lambda>_. demo_os) Align8 False fresh_world demo_ops of None \<Rightarrow> False
   | Some w \<Rightarrow> map (\<lambda>i. map_option (\<lambda>e. (ch_mode e, ch_conn_id e, ch_disconnected e)) (wd_eps w i)) [0, 1, 2, 3, 4]
       = [Some (Receiver, 4, False), Some (Receiver, 1, True), Some (Receiver, 2, False), Some (Sender, 0, False),
          Some (Receiver, 1, False)] \<and> rg_connections (sm_route (wd_shm w)) = 7"
  by code_simp

theorem endpoints_consistent_witness:
  "\<exists>w. chan_run (\<lambda>_. demo_os) Align8 False fresh_world demo_ops = Some w
     \<and> hdr_connections False (wd_shm w) = 7
     \<and> (\<forall>n < 32. bit (7 :: u32) n \<longleftrightarrow> (\<exists>i e. wd_eps w i = Some e \<and> receiving e \<and> ch_conn_id e = 2 ^ n))"
proof -
  obtain w where w: "chan_run (\<lambda>_. demo_os) Align8 False fresh_world demo_ops = Some w"
    "rg_connections (sm_route (wd_shm w)) = 7"
    using demo_ops_run by (auto split: option.splits)
  have "rtranclp (chan_step (\<lambda>_. demo_os) Align8 False) fresh_world w"
    by (rule chan_run_steps [OF w(1)]) (simp add: demo_ops_def)
  from endpoints_consistent [OF this all_alive_demo] show ?thesis
    using w by (simp add: hdr_connections_def)
qed

lemma push_fragment_owner: "push_fragment e cs f sh = Some (sh', r) \<Longrightarrow> sm_owner sh' = sm_owner sh"
  by (auto simp: push_fragment_def split: if_splits)

lemma push_fragments_owner: "push_fragments e css fs sh = Some (sh', r) \<Longrightarrow> sm_owner sh' = sm_owner sh"
proof (induction e css fs sh rule: push_fragments.induct)
  case (3 e cs css f fs sh)
  obtain sh1 r1 where p: "push_fragment e cs f sh = Some (sh1, r1)"
    using 3(2) by (auto split: option.splits)
  show ?case
  proof (cases "r1 = Inr True")
    case True
    then have "push_fragments e css fs sh1 = Some (sh', r)" using 3(2) p by simp
    then show ?thesis using 3(1) [OF p refl True] push_fragment_owner [OF p] True by simp
  next
    case False
    then show ?thesis using 3(2) p push_fragment_owner [OF p] by (cases r1) auto
  qed
qed auto


section \<open>A send after disconnect\<close>

text \<open>
  A route sender that sends after \<open>disconnect\<close> takes the sole-sender record again,
  since \<open>send\<close> does not look at \<open>disconnected\<close>, and it never gives it back: dropping the
  endpoint releases nothing, since \<open>disconnect\<close> returns at once. As long as the process
  lives, every other sender of the route is refused with its pid.
\<close>

theorem send_after_disconnect_keeps_claim:
  assumes "ch_mode e = Sender" "\<not> ch_multi e" "\<not> ch_sender_claimed e" "ch_disconnected e"
    and "so_pid (sm_owner sh) = 0" "data \<noteq> []" "chan_send os css data sh e = Some (sh1, e1, r)"
    and "is_process_alive os' (os_self os) (start_token os (os_self os))"
    and "ch_mode e' = Sender" "\<not> ch_multi e'" "\<not> ch_sender_claimed e'" "data' \<noteq> []"
  shows "ch_sender_claimed e1 \<and> \<not> chan_valid e1 \<and> sm_owner (chan_drop os sh1 e1) = sm_owner sh1
    \<and> chan_send os' css' data' (chan_drop os sh1 e1) e'
        = Some (chan_drop os sh1 e1, e', Inl (AddrInUse (os_self os)))"
proof -
  define o1 where "o1 = (sm_owner sh)\<lparr>so_start_tok := start_token os (os_self os), so_pid := os_self os\<rparr>"
  have r: "sender_ready os sh e = (sh\<lparr>sm_owner := o1\<rparr>, e\<lparr>ch_sender_claimed := True\<rparr>, True)"
    using assms(2,3,5) by (simp add: sender_ready_def claim_sender_def claim_sole_owner_def o1_def Let_def)
  obtain mid s2 e2 where m: "take_msg_id (sh\<lparr>sm_owner := o1\<rparr>) (e\<lparr>ch_sender_claimed := True\<rparr>) = (mid, s2, e2)"
    by (cases "take_msg_id (sh\<lparr>sm_owner := o1\<rparr>) (e\<lparr>ch_sender_claimed := True\<rparr>)") auto
  have k: "sm_owner s2 = o1" "ch_sender_claimed e2" "ch_disconnected e2" "\<not> ch_multi e2"
    using m assms(2,4) by (auto simp: take_msg_id_def)
  have "sm_owner sh1 = o1 \<and> ch_sender_claimed e1 \<and> ch_disconnected e1"
  proof (cases "hdr_connections False sh = 0")
    case True
    then show ?thesis using assms(1,2,4,6,7) by (auto simp: chan_send_def r)
  next
    case False
    have "push_fragments e2 css (map (Pair mid) (fragments data)) s2 = Some (sh1, r) \<and> e2 = e1"
      using assms(1,2,6,7) False unfolding chan_send_def by (simp add: r m, metis)
    then show ?thesis using push_fragments_owner k by metis
  qed
  then have o: "sm_owner sh1 = o1" "ch_sender_claimed e1" "ch_disconnected e1" by blast+
  have d: "chan_drop os sh1 e1 = sh1" using o(3) by (simp add: chan_drop_def chan_disconnect_def)
  have "claim_sole_owner os' o1 = (o1, False)"
    using assms(8) by (simp add: claim_sole_owner_alive o1_def)
  then have "sender_ready os' sh1 e' = (sh1, e', False)"
    using assms(10,11) o(1) by (auto simp: sender_ready_def claim_sender_def)
  then show ?thesis
    using assms(9,12) o d by (simp add: chan_send_def chan_valid_def o1_def)
qed

text \<open>A sender disconnects, sends once more, and is dropped; the next sender is refused.\<close>

definition sent_late :: "chan_shm \<times> chan_inner" where
  "sent_late = (case chan_open demo_os [] ''c'' Sender False (wd_shm fresh_world) of
     (sh, Inr e) \<Rightarrow> chan_disconnect demo_os sh e | (sh, Inl _) \<Rightarrow> (sh, new_inner [] ''c'' Sender False 0 0 0 False))"

theorem send_after_disconnect_keeps_claim_witness:
  "case sent_late of (sh, e) \<Rightarrow> case chan_send demo_os [] [1] sh e of None \<Rightarrow> False
   | Some (sh1, e1, r) \<Rightarrow> \<forall>css e'. ch_mode e' = Sender \<and> \<not> ch_multi e' \<and> \<not> ch_sender_claimed e' \<longrightarrow>
       chan_send demo_os css [2] (chan_drop demo_os sh1 e1) e'
         = Some (chan_drop demo_os sh1 e1, e', Inl (AddrInUse 5))"
proof -
  obtain sh e where s: "sent_late = (sh, e)" by fastforce
  have e: "ch_mode e = Sender" "\<not> ch_multi e" "\<not> ch_sender_claimed e" "ch_disconnected e"
    "so_pid (sm_owner sh) = 0" "hdr_connections False sh = 0"
    using s unfolding sent_late_def
    by (auto simp: chan_open_def chan_disconnect_def new_inner_def claim_sender_def claim_sole_owner_def
        release_sole_owner_def fresh_world_def no_owner_def demo_os_def Let_def hdr_connections_def fresh_ring_def
        OWNER_CLAIMING_def)
  obtain sh1 e1 r where c: "chan_send demo_os [] [1] sh e = Some (sh1, e1, r)"
    using e by (auto simp: chan_send_def sender_ready_def claim_sender_def claim_sole_owner_def Let_def)
  have a: "is_process_alive demo_os (os_self demo_os) (start_token demo_os (os_self demo_os))"
    using all_alive_demo by (simp add: all_alive_def)
  have "os_self demo_os = 5" by (simp add: demo_os_def)
  then have "chan_send demo_os css [2] (chan_drop demo_os sh1 e1) e'
      = Some (chan_drop demo_os sh1 e1, e', Inl (AddrInUse 5))"
    if "ch_mode e' = Sender \<and> \<not> ch_multi e' \<and> \<not> ch_sender_claimed e'" for css e'
    using send_after_disconnect_keeps_claim [OF e(1-5) _ c a, of e' "[2]" css] that by simp
  then show ?thesis by (simp add: s c)
qed

section \<open>A push that nobody disturbs\<close>

text \<open>The reference: mark the slot for the connected receivers, write the record, publish it.\<close>

definition push_ref :: "u32 \<Rightarrow> u32 \<times> i32 \<times> u8 list \<Rightarrow> ring \<Rightarrow> ring" where
  "push_ref cc_id frag g = (case frag of (mid, remain, payload) \<Rightarrow>
     let i = index_of (rg_write_cursor g)
     in g\<lparr>rg_slots := (rg_slots g)(i :=
            (rg_slots g i)\<lparr>re_rc := rg_epoch g OR ucast (rg_connections g),
               re_data := write_msg (re_data (rg_slots g i)) cc_id mid remain False payload\<rparr>),
          rg_write_cursor := rg_write_cursor g + 1\<rparr>)"

definition cursor_busy :: "ring \<Rightarrow> bool" where
  "cursor_busy g = route_busy (rg_live g) (ucast (rg_connections g)) (re_rc (rg_slots g (index_of (rg_write_cursor g))))
     (rg_epoch g) (rg_write_cursor g - RING_LAP)"

lemma ucast_nonzero: "(cc :: u32) \<noteq> 0 \<Longrightarrow> (ucast cc :: u64) \<noteq> 0"
  by (metis bit_ucast_cc bit_eq_iff bit_0_eq bot_apply)

lemma push_alone:
  assumes "rg_connections g \<noteq> 0" "\<not> cursor_busy g"
  shows "run_call push_result (push_access cc_id frag) (replicate 7 Proceed) g PConn
    = Some (push_ref cc_id frag g, Inr True)"
  using assms ucast_nonzero [OF assms(1)]
  by (cases frag) (simp add: numeral_eq_Suc push_access_def push_ref_def cursor_busy_def Let_def)

lemma push_timeout:
  assumes "rg_connections g = 1" "cursor_busy g"
    "chan_live_marks (rg_live g) (re_rc (rg_slots g (index_of (rg_write_cursor g))) AND EP_MASK AND 1)
       (rg_write_cursor g - RING_LAP) = 1"
  shows "\<exists>g'. run_call push_result (push_access cc_id frag)
      (replicate 4 Proceed @ [Timeout, Proceed, Proceed, Proceed]) g PConn = Some (g', Inr False)
    \<and> rg_connections g' = 0 \<and> rg_live g' = rg_live g"
  using assms
  by (cases frag) (simp add: numeral_eq_Suc push_access_def cursor_busy_def Let_def)

section \<open>An evicted receiver\<close>

text \<open>The ring after \<open>n\<close> records to one receiver, bit 0, that reads none of them.\<close>

definition filled :: "nat \<Rightarrow> ring \<Rightarrow> bool" where
  "filled n g \<longleftrightarrow> rg_write_cursor g = of_nat n \<and> rg_epoch g = 0 \<and> rg_connections g = 1 \<and> so_since (rg_live g 0) = 0
     \<and> (\<forall>k < 256. re_rc (rg_slots g (of_nat k)) = (if k < n then 1 else 0))"

lemma filled_push:
  assumes "filled n g" "n < 256"
  shows "\<not> cursor_busy g" "filled (Suc n) (push_ref cc_id frag g)"
proof -
  have ix: "index_of (of_nat n) = (of_nat n :: u8)" by simp
  have "re_rc (rg_slots g (of_nat n)) = 0" using assms by (simp add: filled_def)
  then show "\<not> cursor_busy g" using assms by (simp add: cursor_busy_def filled_def route_busy_def)
  have "(of_nat k = (of_nat n :: u8)) \<longleftrightarrow> k = n" if "k < 256" for k
    using that assms(2) by (simp add: slot_ix_eq_iff)
  then show "filled (Suc n) (push_ref cc_id frag g)"
    using assms by (cases frag) (auto simp: filled_def push_ref_def Let_def less_Suc_eq)
qed

lemma filled_lap:
  assumes "filled 256 g"
  shows "cursor_busy g" "chan_live_marks (rg_live g) (re_rc (rg_slots g (index_of (rg_write_cursor g))) AND EP_MASK AND 1)
       (rg_write_cursor g - RING_LAP) = 1"
proof -
  have i: "index_of (rg_write_cursor g) = 0" "rg_write_cursor g - RING_LAP = 0"
    using assms by (simp_all add: filled_def index_of_def RING_LAP_def ring_size_def)
  have "\<forall>k < 256. re_rc (rg_slots g (of_nat k)) = 1" using assms by (simp add: filled_def)
  from spec [OF this, of 0] have rc: "re_rc (rg_slots g 0) = 1" by simp
  have "live_marks (Some (rg_live g)) 1 0 = 1"
    by (rule bit_word_eqI) (use assms in \<open>auto simp: bit_live_marks filled_def at_or_after_def bit_1_iff\<close>)
  then have m: "chan_live_marks (rg_live g) 1 0 = 1" by (simp add: chan_live_marks_def)
  have e: "1 AND EP_MASK = (1 :: u64)" "EP_MASK AND 1 = (1 :: u64)" "1 AND NOT EP_MASK = (0 :: u64)"
    by (simp_all add: EP_MASK_def route_ep_mask_def)
  show "chan_live_marks (rg_live g) (re_rc (rg_slots g (index_of (rg_write_cursor g))) AND EP_MASK AND 1)
       (rg_write_cursor g - RING_LAP) = 1"
    by (simp add: i rc m e)
  show "cursor_busy g"
    using assms unfolding cursor_busy_def i rc route_busy_def filled_def by (simp add: m e)
qed

text \<open>One record of one byte, with a schedule in which nothing goes wrong, and one in which the wait times out.\<close>

definition one_send :: chan_op where
  "one_send = OpSend 0 [replicate 7 Proceed] [1]"

definition late_send :: chan_op where
  "late_send = OpSend 0 [replicate 4 Proceed @ [Timeout, Proceed, Proceed, Proceed]] [1]"

text \<open>A sender that holds the claim, and a receiver on bit 0 that does not read.\<close>

definition slow_world :: "chan_inner \<Rightarrow> nat \<Rightarrow> chan_world \<Rightarrow> bool" where
  "slow_world a n w \<longleftrightarrow> filled n (sm_route (wd_shm w)) \<and> wd_eps w 1 = Some a \<and> (\<forall>i > 1. wd_eps w i = None)
     \<and> (\<exists>e. wd_eps w 0 = Some e \<and> sending e \<and> \<not> ch_multi e \<and> ch_sender_claimed e)"

lemma one_fragment: "fragments [b] = [(1 - of_nat data_length, [b])]"
  by (simp add: fragments_def data_length_def Let_def)

lemma send_one:
  assumes "sending e" "\<not> ch_multi e" "ch_sender_claimed e" "rg_connections (sm_route sh) \<noteq> 0"
  shows "chan_send os [cs] [b] sh e = map_option (\<lambda>(g, r). (sh\<lparr>sm_route := g\<rparr>, e\<lparr>ch_send_seq := ch_send_seq e + 1\<rparr>,
       case r of Inl x \<Rightarrow> Inl x | Inr b \<Rightarrow> Inr b))
     (run_call push_result (push_access (ch_cc_id e) (ch_send_seq e, 1 - of_nat data_length, [b])) cs (sm_route sh) PConn)"
  using assms
  by (auto simp: chan_send_def sending_def sender_ready_def hdr_connections_def take_msg_id_def one_fragment
      push_fragment_def split: option.splits sum.splits)

lemma slow_send:
  assumes "slow_world a n w" "n < 256"
  shows "\<exists>w'. chan_apply osf al False one_send w = Some w' \<and> slow_world a (Suc n) w'"
proof -
  obtain e where e: "wd_eps w 0 = Some e" "sending e" "\<not> ch_multi e" "ch_sender_claimed e"
    and f: "filled n (sm_route (wd_shm w))" using assms(1) by (auto simp: slow_world_def)
  have nz: "rg_connections (sm_route (wd_shm w)) \<noteq> 0" using f by (simp add: filled_def)
  show ?thesis
    using assms e filled_push(2) [OF f assms(2)]
    by (auto simp: one_send_def send_one [OF e(2-4) nz] push_alone [OF nz filled_push(1) [OF f assms(2)]]
        put_back_def slow_world_def sending_def)
qed

lemma slow_sends:
  "slow_world a n w \<Longrightarrow> n + k \<le> 256 \<Longrightarrow>
    \<exists>w'. chan_run osf al False w (replicate k one_send) = Some w' \<and> slow_world a (n + k) w'"
proof (induction k arbitrary: n w)
  case (Suc k)
  obtain w1 where "chan_apply osf al False one_send w = Some w1" "slow_world a (Suc n) w1"
    using slow_send [OF Suc.prems(1)] Suc.prems(2) by fastforce
  then show ?case using Suc.IH [of "Suc n" w1] Suc.prems(2) by auto
qed simp

lemma chan_run_append:
  "chan_run osf al m w (xs @ ys) = (case chan_run osf al m w xs of None \<Rightarrow> None | Some w' \<Rightarrow> chan_run osf al m w' ys)"
  by (induction xs arbitrary: w) (auto split: option.splits)

lemma slow_start:
  "\<exists>w a. chan_run (\<lambda>_. demo_os) al False fresh_world [OpOpen 0 Sender, OpOpen 1 Receiver] = Some w
     \<and> slow_world a 0 w \<and> receiving a \<and> \<not> ch_multi a \<and> ch_conn_id a = 1"
proof -
  have s: "slot_index 1 = 0" using trailing_zeros_exp [of 0, where 'a = 32] by (simp add: slot_index_def)
  have r: "reap_dead_receivers demo_os (\<lambda>_ r. r) (Some t) 0 0 = (Some t, 0, 0)" for t
    by (rule reap_nothing) simp
  show ?thesis
    by (simp add: chan_open_def put_new_def claim_sender_def claim_sole_owner_def fresh_world_def no_owner_def
        connect_receiver_def hdr_connections_def shm_live_def set_live_def set_connections_def hdr_write_cursor_def
        fresh_ring_def r connect_attempt_def set_since_def set_owner_def s slow_world_def filled_def new_inner_def
        sending_def receiving_def OWNER_CLAIMING_def Let_def)
qed

lemma late_send_evicts:
  assumes "slow_world a 256 w"
  shows "\<exists>w'. chan_apply osf al False late_send w = Some w' \<and> wd_eps w' 1 = Some a
    \<and> hdr_connections False (wd_shm w') = 0"
proof -
  obtain e where e: "wd_eps w 0 = Some e" "sending e" "\<not> ch_multi e" "ch_sender_claimed e"
    and f: "filled 256 (sm_route (wd_shm w))" using assms by (auto simp: slow_world_def)
  have c: "rg_connections (sm_route (wd_shm w)) = 1" using f by (simp add: filled_def)
  then have nz: "rg_connections (sm_route (wd_shm w)) \<noteq> 0" by simp
  obtain g' where g: "run_call push_result (push_access (ch_cc_id e) (ch_send_seq e, 1 - of_nat data_length, [1]))
      (replicate 4 Proceed @ [Timeout, Proceed, Proceed, Proceed]) (sm_route (wd_shm w)) PConn = Some (g', Inr False)"
    "rg_connections g' = 0"
    using push_timeout [OF c filled_lap [OF f]] by blast
  show ?thesis
    unfolding late_send_def using assms e g
    by (simp add: send_one [OF e(2-4) nz] put_back_def slow_world_def hdr_connections_def)
qed

text \<open>
  A slow receiver cuts off its successor: when a forced push has evicted a receiver
  from bit \<open>n\<close>, the lowest free one, the next receiver to connect is given the same bit. The evicted
  one does not know; when it disconnects or is dropped it clears the bit again, and the mask
  is what it was before the new receiver connected, which nobody sends to from then on.
\<close>

theorem evicted_receiver_cuts_off_successor:
  assumes "receiving a" "\<not> ch_multi a" "ch_conn_id a = 2 ^ n" "n < 32"
    and "\<not> bit (hdr_connections False sh) n" "\<forall>k < n. bit (hdr_connections False sh) k"
    and "\<forall>k. bit (hdr_connections False sh) k \<longrightarrow>
      is_process_alive os (so_pid (shm_live False sh k)) (so_start_tok (shm_live False sh k))"
    and "chan_open os pre name Receiver False sh = (sh1, r)"
  shows "\<exists>b. r = Inr b \<and> receiving b \<and> ch_conn_id b = ch_conn_id a \<and> bit (hdr_connections False sh1) n
    \<and> hdr_connections False (chan_drop os' sh1 a) = hdr_connections False sh"
proof -
  let ?cc = "hdr_connections False sh"
  define s0 where "s0 = sh\<lparr>sm_cc_id := alloc_cc_id (sm_cc_id sh)\<rparr>"
  have s0: "hdr_connections False s0 = ?cc" "shm_live False s0 = shm_live False sh" by (simp_all add: s0_def)
  obtain s2 o2 where c: "connect_receiver os False s0 = (s2, o2)" by fastforce
  have nm: "?cc \<noteq> - 1" using assms(4,5) by auto
  have fi: "free_index ?cc = n"
    using free_index [OF nm] assms(5,6) by (metis linorder_neqE_nat)
  have "is_process_alive os (so_pid (shm_live False s0 k)) (so_start_tok (shm_live False s0 k))"
    if "bit (hdr_connections False s0) k" for k
    using that assms(7) by (simp add: s0)
  note eff = connect_receiver_effect(3) [OF this c]
  then obtain cur where o: "o2 = Some (2 ^ n, cur)" "hdr_connections False s2 = set_bit n ?cc"
    using nm fi by (auto simp: s0 split: option.splits)
  have r: "sh1 = s2" "r = Inr (new_inner pre name Receiver False (alloc_cc_id (sm_cc_id sh)) (2 ^ n) cur False)"
    using assms(8) c o(1) by (simp_all add: chan_open_def Let_def s0_def)
  have "hdr_connections False (chan_drop os' sh1 a) = set_bit n ?cc AND NOT (2 ^ n)"
    using assms(1-3) r(1) o(2) by (simp add: chan_drop_def chan_disconnect_def receiving_def Let_def clear_owner_def)
  then show ?thesis
    using r o(2) assms(3-5) single_bit_unset [of n ?cc]
    by (simp add: new_inner_def receiving_def bit_set_bit_iff)
qed

theorem evicted_receiver_cuts_off_successor_witness:
  "\<exists>w a b sh1. chan_run (\<lambda>_. demo_os) Align8 False fresh_world
       ([OpOpen 0 Sender, OpOpen 1 Receiver] @ replicate 256 one_send @ [late_send]) = Some w
     \<and> wd_eps w 1 = Some a \<and> chan_open demo_os [] ''c'' Receiver False (wd_shm w) = (sh1, Inr b) \<and> receiving b
     \<and> bit (hdr_connections False sh1) 0 \<and> hdr_connections False (chan_drop demo_os sh1 a) = 0"
proof -
  obtain w0 a where w0: "chan_run (\<lambda>_. demo_os) Align8 False fresh_world [OpOpen 0 Sender, OpOpen 1 Receiver] = Some w0"
    "slow_world a 0 w0" and a: "receiving a" "\<not> ch_multi a" "ch_conn_id a = 1"
    using slow_start by blast
  obtain w1 where w1: "chan_run (\<lambda>_. demo_os) Align8 False w0 (replicate 256 one_send) = Some w1" "slow_world a 256 w1"
    using slow_sends [OF w0(2), of 256] by auto
  obtain w where w: "chan_apply (\<lambda>_. demo_os) Align8 False late_send w1 = Some w" "wd_eps w 1 = Some a"
    "hdr_connections False (wd_shm w) = 0"
    using late_send_evicts [OF w1(2)] by blast
  have run: "chan_run (\<lambda>_. demo_os) Align8 False fresh_world
       ([OpOpen 0 Sender, OpOpen 1 Receiver] @ replicate 256 one_send @ [late_send]) = Some w"
    unfolding chan_run_append w0(1) using w1(1) w(1) by (simp add: chan_run_append)
  obtain sh1 r where o: "chan_open demo_os [] ''c'' Receiver False (wd_shm w) = (sh1, r)" by fastforce
  have "ch_conn_id a = 2 ^ 0" using a(3) by simp
  from evicted_receiver_cuts_off_successor [OF a(1,2) this _ _ _ _ o, of demo_os] show ?thesis
    using run w(2,3) o by auto
qed

end
