(* ===== verification/Waiter.thy ===== *)
theory Waiter
  imports Prelude
begin

text \<open>
  \<open>waiter.rs\<close>: a condition variable with its mutex and a quit flag. \<open>wait_if\<close>, \<open>notify\<close>,
  \<open>broadcast\<close> and \<open>quit_waiting\<close> run by any number of threads, one step per operation on the
  mutex, the condition, the flag or the predicate; any of the operations on the mutex and the condition may fail. The mutex and the
  condition are taken at a contract: the mutex has one holder, a wait releases the mutex and starts to sleep in one step, a
  broadcast wakes every sleeper. The theories \<open>Apple_Mutex\<close>, \<open>Linux_Mutex\<close> and \<open>Condition\<close> show how far the platforms keep it; the
  condition of Windows does not, since a later waiter can take the token of an earlier one.
\<close>

section \<open>The threads\<close>

datatype wt_pc =
    WIdle
  | WLock
  | WQuit
  | WPred
  | WEnter
  | WSleep
  | WWake bool
  | WUnlock bool
  | WReturn bool
  | WError
  | WFailed
  | KStore
  | KLock bool
  | KHold bool
  | KWake bool
  | KDone
  | KError
  | KFailed

text \<open>\<open>wt_pred t\<close> is the predicate of thread \<open>t\<close>'s \<open>wait_if\<close> on the shared state: it still has to wait. \<open>wt_failed\<close>
  is set when a call that should wake (\<open>notify\<close>, \<open>broadcast\<close>, \<open>quit_waiting\<close>) returns an error.\<close>

record wt_sys =
  wt_lock :: "nat option"
  wt_quit :: bool
  wt_pred :: "nat \<Rightarrow> bool"
  wt_failed :: bool
  wt_pcs :: "nat \<Rightarrow> wt_pc"

definition wt_goto :: "nat \<Rightarrow> wt_pc \<Rightarrow> wt_sys \<Rightarrow> wt_sys" where
  "wt_goto t pc s = s\<lparr>wt_pcs := (wt_pcs s)(t := pc)\<rparr>"

text \<open>Taking the mutex waits until nobody holds it.\<close>

definition wt_take :: "nat \<Rightarrow> wt_pc \<Rightarrow> wt_sys \<Rightarrow> wt_sys" where
  "wt_take t pc s = (if wt_lock s = None then wt_goto t pc (s\<lparr>wt_lock := Some t\<rparr>) else s)"

definition wt_give :: "nat \<Rightarrow> wt_pc \<Rightarrow> wt_sys \<Rightarrow> wt_sys" where
  "wt_give t pc s = wt_goto t pc (s\<lparr>wt_lock := None\<rparr>)"

definition wt_fail :: "nat \<Rightarrow> wt_pc \<Rightarrow> wt_sys \<Rightarrow> wt_sys" where
  "wt_fail t pc s = wt_goto t pc (s\<lparr>wt_failed := True\<rparr>)"

definition wake_all :: "wt_sys \<Rightarrow> wt_sys" where
  "wake_all s = s\<lparr>wt_pcs := (\<lambda>u. if wt_pcs s u = WSleep then WWake True else wt_pcs s u)\<rparr>"

definition wake_one :: "nat \<Rightarrow> wt_sys \<Rightarrow> wt_sys" where
  "wake_one u s = (if wt_pcs s u = WSleep then wt_goto u (WWake True) s else s)"

text \<open>How an operation goes on: nothing yet, a timeout of a wait, a spurious wake-up, an error.\<close>

datatype wt_choice = Going | TimedOut | Woken | Failing

text \<open>
  One operation of thread \<open>t\<close>. \<open>u\<close> is the sleeper that \<open>notify\<close> picks. A waker carries
  whether it calls \<open>notify\<close> (true) or \<open>broadcast\<close>. An operation that fails makes the \<open>?\<close> after it return with the mutex as
  it is: not held when a \<open>lock\<close> failed (\<open>WFailed\<close>, \<open>KFailed\<close>), held when an \<open>unlock\<close> or the start of a wait failed (\<open>WError\<close>, \<open>KError\<close>).
\<close>

definition wt_access :: "wt_choice \<Rightarrow> nat \<Rightarrow> wt_sys \<Rightarrow> nat \<Rightarrow> wt_sys" where
  "wt_access ch u s t = (case wt_pcs s t of
     WLock \<Rightarrow> if ch = Failing then wt_goto t WFailed s else wt_take t WQuit s
   | WQuit \<Rightarrow> wt_goto t (if wt_quit s then WUnlock True else WPred) s
   | WPred \<Rightarrow> wt_goto t (if wt_pred s t then WEnter else WUnlock True) s
   | WEnter \<Rightarrow> if ch = Failing then wt_goto t WError s else wt_give t WSleep s
   | WSleep \<Rightarrow> (case ch of TimedOut \<Rightarrow> wt_goto t (WWake False) s | Woken \<Rightarrow> wt_goto t (WWake True) s | _ \<Rightarrow> s)
   | WWake signalled \<Rightarrow>
       if ch = Failing then wt_goto t WFailed s else wt_take t (if signalled then WQuit else WUnlock False) s
   | WUnlock b \<Rightarrow> if ch = Failing then wt_goto t WError s else wt_give t (WReturn b) s
   | KStore \<Rightarrow> wt_goto t (KLock False) (s\<lparr>wt_quit := True\<rparr>)
   | KLock one \<Rightarrow> if ch = Failing then wt_fail t KFailed s else wt_take t (KHold one) s
   | KHold one \<Rightarrow> if ch = Failing then wt_fail t KError s else wt_give t (KWake one) s
   | KWake one \<Rightarrow>
       if ch = Failing then wt_fail t KFailed s else wt_goto t KDone (if one then wake_one u s else wake_all s)
   | _ \<Rightarrow> s)"

text \<open>
  A thread that is in no call starts one: \<open>wait_if\<close> with a predicate, \<open>quit_waiting\<close>, or a
  change of the shared state, after which the predicates of the threads \<open>S\<close> are false,
  followed by a wake-up. \<open>notify_ok\<close> says whether that may be a \<open>notify\<close>.
\<close>

definition in_no_call :: "wt_pc \<Rightarrow> bool" where
  "in_no_call pc \<longleftrightarrow> pc \<in> {WIdle, WFailed, KDone, KFailed} \<or> (\<exists>b. pc = WReturn b)"

definition start_wait :: "nat \<Rightarrow> bool \<Rightarrow> wt_sys \<Rightarrow> wt_sys" where
  "start_wait t p s = wt_goto t WLock (s\<lparr>wt_pred := (wt_pred s)(t := p)\<rparr>)"

definition start_wake :: "nat \<Rightarrow> bool \<Rightarrow> nat set \<Rightarrow> wt_sys \<Rightarrow> wt_sys" where
  "start_wake t one S s = wt_goto t (KLock one) (s\<lparr>wt_pred := (\<lambda>u. wt_pred s u \<and> u \<notin> S)\<rparr>)"

definition start_quit :: "nat \<Rightarrow> wt_sys \<Rightarrow> wt_sys" where
  "start_quit t s = wt_goto t KStore s"

inductive wt_step :: "bool \<Rightarrow> wt_sys \<Rightarrow> wt_sys \<Rightarrow> bool" for notify_ok where
  wt_move: "wt_step notify_ok s (wt_access ch u s t)"
| wt_wait: "in_no_call (wt_pcs s t) \<Longrightarrow> wt_step notify_ok s (start_wait t p s)"
| wt_wake: "in_no_call (wt_pcs s t) \<Longrightarrow> one \<longrightarrow> notify_ok \<Longrightarrow> wt_step notify_ok s (start_wake t one S s)"
| wt_stop: "in_no_call (wt_pcs s t) \<Longrightarrow> wt_step notify_ok s (start_quit t s)"

definition wt_init :: wt_sys where
  "wt_init = \<lparr>wt_lock = None, wt_quit = False, wt_pred = (\<lambda>_. True), wt_failed = False, wt_pcs = (\<lambda>_. WIdle)\<rparr>"

section \<open>The invariant\<close>

fun holds_pc :: "wt_pc \<Rightarrow> bool" where
  "holds_pc WQuit = True"
| "holds_pc WPred = True"
| "holds_pc WEnter = True"
| "holds_pc (WUnlock b) = True"
| "holds_pc WError = True"
| "holds_pc (KHold one) = True"
| "holds_pc KError = True"
| "holds_pc _ = False"

text \<open>
  The mutex is held by exactly the thread that is between taking and giving it. A thread that is
  about to sleep and should not is owed a wake-up by a waker that has yet to take the mutex;
  one that sleeps, by a waker that has yet to wake. After a failed wake-up nothing is owed.
\<close>

definition owed_lock :: "wt_sys \<Rightarrow> bool" where
  "owed_lock s \<longleftrightarrow> wt_failed s \<or> (\<exists>k. wt_pcs s k = KLock False)"

definition owed_wake :: "wt_sys \<Rightarrow> bool" where
  "owed_wake s \<longleftrightarrow> wt_failed s \<or> (\<exists>k. wt_pcs s k \<in> {KLock False, KHold False, KWake False})"

definition wt_inv :: "wt_sys \<Rightarrow> bool" where
  "wt_inv s \<longleftrightarrow>
     (\<forall>t. holds_pc (wt_pcs s t) \<longleftrightarrow> wt_lock s = Some t)
   \<and> (\<forall>t. wt_pcs s t \<noteq> KLock True \<and> wt_pcs s t \<noteq> KHold True \<and> wt_pcs s t \<noteq> KWake True)
   \<and> (\<forall>t. wt_pcs s t = WPred \<longrightarrow> wt_quit s \<longrightarrow> owed_lock s)
   \<and> (\<forall>t. wt_pcs s t = WEnter \<longrightarrow> wt_quit s \<or> \<not> wt_pred s t \<longrightarrow> owed_lock s)
   \<and> (\<forall>t. wt_pcs s t = WSleep \<longrightarrow> wt_quit s \<or> \<not> wt_pred s t \<longrightarrow> owed_wake s)"

lemma wt_simps [simp]:
  "wt_pcs (wt_goto t pc s) = (wt_pcs s)(t := pc)" "wt_lock (wt_goto t pc s) = wt_lock s"
  "wt_quit (wt_goto t pc s) = wt_quit s" "wt_pred (wt_goto t pc s) = wt_pred s"
  "wt_pcs (wt_give t pc s) = (wt_pcs s)(t := pc)" "wt_lock (wt_give t pc s) = None"
  "wt_quit (wt_give t pc s) = wt_quit s" "wt_pred (wt_give t pc s) = wt_pred s"
  "wt_failed (wt_goto t pc s) = wt_failed s" "wt_failed (wt_give t pc s) = wt_failed s"
  by (simp_all add: wt_goto_def wt_give_def)

lemma wt_invD:
  assumes "wt_inv s"
  shows "holds_pc (wt_pcs s t) \<longleftrightarrow> wt_lock s = Some t"
    "wt_pcs s t \<noteq> KLock True" "wt_pcs s t \<noteq> KHold True" "wt_pcs s t \<noteq> KWake True"
    "wt_pcs s t = WPred \<Longrightarrow> wt_quit s \<Longrightarrow> owed_lock s"
    "wt_pcs s t = WEnter \<Longrightarrow> wt_quit s \<or> \<not> wt_pred s t \<Longrightarrow> owed_lock s"
    "wt_pcs s t = WSleep \<Longrightarrow> wt_quit s \<or> \<not> wt_pred s t \<Longrightarrow> owed_wake s"
  using assms unfolding wt_inv_def by blast+

lemma wt_invI:
  assumes "\<And>t. holds_pc (wt_pcs s t) \<longleftrightarrow> wt_lock s = Some t"
    "\<And>t. wt_pcs s t \<noteq> KLock True" "\<And>t. wt_pcs s t \<noteq> KHold True" "\<And>t. wt_pcs s t \<noteq> KWake True"
    "\<And>t. wt_pcs s t = WPred \<Longrightarrow> wt_quit s \<Longrightarrow> owed_lock s"
    "\<And>t. wt_pcs s t = WEnter \<Longrightarrow> wt_quit s \<or> \<not> wt_pred s t \<Longrightarrow> owed_lock s"
    "\<And>t. wt_pcs s t = WSleep \<Longrightarrow> wt_quit s \<or> \<not> wt_pred s t \<Longrightarrow> owed_wake s"
  shows "wt_inv s"
  unfolding wt_inv_def using assms by simp

text \<open>The pending wake-ups among the threads other than \<open>t\<close>.\<close>

lemma owed_upd:
  "owed_lock (s\<lparr>wt_pcs := (wt_pcs s')(t := pc)\<rparr>) \<longleftrightarrow> wt_failed s \<or> pc = KLock False \<or> (\<exists>k. k \<noteq> t \<and> wt_pcs s' k = KLock False)"
  "owed_wake (s\<lparr>wt_pcs := (wt_pcs s')(t := pc)\<rparr>)
     \<longleftrightarrow> wt_failed s \<or> pc \<in> {KLock False, KHold False, KWake False}
       \<or> (\<exists>k. k \<noteq> t \<and> wt_pcs s' k \<in> {KLock False, KHold False, KWake False})"
  by (auto simp: owed_lock_def owed_wake_def)

definition waker_pc :: "wt_pc \<Rightarrow> bool" where
  "waker_pc pc \<longleftrightarrow> pc \<in> {KLock False, KHold False, KWake False}"

lemma owed_others:
  "owed_lock s \<Longrightarrow> \<not> waker_pc (wt_pcs s t) \<Longrightarrow> wt_failed s \<or> (\<exists>k. k \<noteq> t \<and> wt_pcs s k = KLock False)"
  "owed_wake s \<Longrightarrow> \<not> waker_pc (wt_pcs s t) \<Longrightarrow> wt_failed s \<or> (\<exists>k. k \<noteq> t \<and> wt_pcs s k \<in> {KLock False, KHold False, KWake False})"
  by (auto simp: owed_lock_def owed_wake_def waker_pc_def)

lemma wt_inv_upd:
  assumes inv: "wt_inv s" and t: "\<not> waker_pc (wt_pcs s t)"
    and lock: "holds_pc pc \<longleftrightarrow> l = Some t" "\<And>u. u \<noteq> t \<Longrightarrow> wt_lock s = Some u \<longleftrightarrow> l = Some u"
    and pc: "pc \<noteq> KLock True" "pc \<noteq> KHold True" "pc \<noteq> KWake True"
    and ok: "pc = WPred \<Longrightarrow> wt_quit s \<Longrightarrow> owed_lock s"
      "pc = WEnter \<Longrightarrow> wt_quit s \<or> \<not> p \<Longrightarrow> owed_lock s"
      "pc = WSleep \<Longrightarrow> wt_quit s \<or> \<not> p \<Longrightarrow> owed_wake s"
    and p: "pc \<noteq> WLock \<Longrightarrow> p = wt_pred s t"
  shows "wt_inv (s\<lparr>wt_lock := l, wt_pred := (wt_pred s)(t := p), wt_pcs := (wt_pcs s)(t := pc)\<rparr>)" (is "wt_inv ?s")
proof -
  have ol: "owed_lock ?s" if "owed_lock s" using owed_others(1) [OF that t] by (auto simp: owed_upd)
  have ow: "owed_wake ?s" if "owed_wake s" using owed_others(2) [OF that t] by (auto simp: owed_upd)
  note d = wt_invD [OF inv]
  show ?thesis
  proof (rule wt_invI)
    fix u
    show "holds_pc (wt_pcs ?s u) \<longleftrightarrow> wt_lock ?s = Some u" using lock d(1) [of u] by simp
    show "wt_pcs ?s u \<noteq> KLock True" "wt_pcs ?s u \<noteq> KHold True" "wt_pcs ?s u \<noteq> KWake True"
      using pc d(2-4) [of u] by simp_all
    show "owed_lock ?s" if "wt_pcs ?s u = WPred" "wt_quit ?s"
      using that d(5) [of u] ok(1) by (intro ol) (simp split: if_splits)
    show "owed_lock ?s" if "wt_pcs ?s u = WEnter" "wt_quit ?s \<or> \<not> wt_pred ?s u"
      using that d(6) [of u] ok(2) by (intro ol) (simp split: if_splits)
    show "owed_wake ?s" if "wt_pcs ?s u = WSleep" "wt_quit ?s \<or> \<not> wt_pred ?s u"
      using that d(7) [of u] ok(3) by (intro ow) (simp split: if_splits)
  qed
qed

text \<open>The steps of the threads that wait.\<close>

lemma wt_inv_move:
  assumes "wt_inv s" "\<not> waker_pc (wt_pcs s t)" "holds_pc pc \<longleftrightarrow> l = Some t"
    "\<And>u. u \<noteq> t \<Longrightarrow> wt_lock s = Some u \<longleftrightarrow> l = Some u" "pc \<noteq> KLock True" "pc \<noteq> KHold True" "pc \<noteq> KWake True"
    "pc = WPred \<Longrightarrow> wt_quit s \<Longrightarrow> owed_lock s" "pc = WEnter \<Longrightarrow> wt_quit s \<or> \<not> wt_pred s t \<Longrightarrow> owed_lock s"
    "pc = WSleep \<Longrightarrow> wt_quit s \<or> \<not> wt_pred s t \<Longrightarrow> owed_wake s"
  shows "wt_inv (s\<lparr>wt_lock := l, wt_pcs := (wt_pcs s)(t := pc)\<rparr>)"
  using wt_inv_upd [of s t pc l "wt_pred s t"] assms by simp

lemma owed_lock_wake: "owed_lock s \<Longrightarrow> owed_wake s"
  by (auto simp: owed_lock_def owed_wake_def)

lemma wt_take_inv:
  assumes "wt_inv s" "\<not> waker_pc (wt_pcs s t)" "holds_pc pc" "pc \<notin> {WPred, WEnter, KHold True}"
  shows "wt_inv (wt_take t pc s)"
  using wt_inv_move [OF assms(1,2), of pc "Some t"] assms
  by (cases pc) (auto simp: wt_take_def wt_goto_def)

lemma wt_goto_inv:
  assumes "wt_inv s" "\<not> waker_pc (wt_pcs s t)" "holds_pc pc \<longleftrightarrow> holds_pc (wt_pcs s t)"
    "pc \<noteq> KLock True" "pc \<noteq> KHold True" "pc \<noteq> KWake True"
    "pc = WPred \<Longrightarrow> wt_quit s \<Longrightarrow> owed_lock s" "pc = WEnter \<Longrightarrow> wt_quit s \<or> \<not> wt_pred s t \<Longrightarrow> owed_lock s" "pc \<noteq> WSleep"
  shows "wt_inv (wt_goto t pc s)"
  using wt_inv_move [OF assms(1,2), of pc "wt_lock s"] assms wt_invD(1) [OF assms(1), of t] by (auto simp: wt_goto_def)

lemma wt_give_inv:
  assumes "wt_inv s" "\<not> waker_pc (wt_pcs s t)" "holds_pc (wt_pcs s t)" "\<not> holds_pc pc"
    "pc \<noteq> KLock True" "pc \<noteq> KWake True" "pc = WSleep \<Longrightarrow> wt_quit s \<or> \<not> wt_pred s t \<Longrightarrow> owed_wake s"
  shows "wt_inv (wt_give t pc s)"
proof -
  have "wt_lock s = Some t" using wt_invD(1) [OF assms(1), of t] assms(3) by simp
  then show ?thesis
    using wt_inv_move [OF assms(1,2), of pc None] assms
    by (cases pc) (auto simp: wt_give_def wt_goto_def)
qed

text \<open>The steps of the wakers.\<close>

lemma holder_unique: "wt_inv s \<Longrightarrow> holds_pc (wt_pcs s t) \<Longrightarrow> holds_pc (wt_pcs s u) \<Longrightarrow> t = u"
  using wt_invD(1) [of s t] wt_invD(1) [of s u] by simp

lemma waker_lock_inv:
  assumes "wt_inv s" "wt_pcs s t = KLock False" "wt_lock s = None"
  shows "wt_inv (wt_goto t (KHold False) (s\<lparr>wt_lock := Some t\<rparr>))" (is "wt_inv ?s")
proof (rule wt_invI)
  note d = wt_invD [OF assms(1)]
  have free: "\<not> holds_pc (wt_pcs s u)" for u using d(1) [of u] assms(3) by simp
  fix u
  show "holds_pc (wt_pcs ?s u) \<longleftrightarrow> wt_lock ?s = Some u" using free [of u] by simp
  show "wt_pcs ?s u \<noteq> KLock True" "wt_pcs ?s u \<noteq> KHold True" "wt_pcs ?s u \<noteq> KWake True"
    using d(2-4) [of u] by simp_all
  show "owed_lock ?s" if "wt_pcs ?s u = WPred" using that free [of u] by (simp split: if_splits)
  show "owed_lock ?s" if "wt_pcs ?s u = WEnter" using that free [of u] by (simp split: if_splits)
  show "owed_wake ?s" by (auto simp: owed_wake_def)
qed

lemma waker_unlock_inv:
  assumes "wt_inv s" "wt_pcs s t = KHold False"
  shows "wt_inv (wt_give t (KWake False) s)" (is "wt_inv ?s")
proof (rule wt_invI)
  note d = wt_invD [OF assms(1)]
  have mine: "holds_pc (wt_pcs s u) \<longleftrightarrow> u = t" for u
    using d(1) [of u] d(1) [of t] assms(2) by auto
  fix u
  show "holds_pc (wt_pcs ?s u) \<longleftrightarrow> wt_lock ?s = Some u" using mine [of u] by simp
  show "wt_pcs ?s u \<noteq> KLock True" "wt_pcs ?s u \<noteq> KHold True" "wt_pcs ?s u \<noteq> KWake True"
    using d(2-4) [of u] by simp_all
  show "owed_lock ?s" if "wt_pcs ?s u = WPred" using that mine [of u] by (simp split: if_splits)
  show "owed_lock ?s" if "wt_pcs ?s u = WEnter" using that mine [of u] by (simp split: if_splits)
  show "owed_wake ?s" by (auto simp: owed_wake_def)
qed

lemma waker_wake_inv:
  assumes "wt_inv s" "wt_pcs s t = KWake False"
  shows "wt_inv (wt_goto t KDone (wake_all s))" (is "wt_inv ?s")
proof (rule wt_invI)
  note d = wt_invD [OF assms(1)]
  have ol: "owed_lock ?s" if "owed_lock s"
  proof (cases "wt_failed s")
    case True
    then show ?thesis by (simp add: owed_lock_def wake_all_def)
  next
    case False
    then obtain k where "wt_pcs s k = KLock False" using \<open>owed_lock s\<close> by (auto simp: owed_lock_def)
    then have "wt_pcs ?s k = KLock False" using assms(2) by (auto simp: wake_all_def)
    then show ?thesis unfolding owed_lock_def by blast
  qed
  fix u
  show "holds_pc (wt_pcs ?s u) \<longleftrightarrow> wt_lock ?s = Some u" using d(1) [of u] assms(2) by (auto simp: wake_all_def)
  show "wt_pcs ?s u \<noteq> KLock True" "wt_pcs ?s u \<noteq> KHold True" "wt_pcs ?s u \<noteq> KWake True"
    using d(2-4) [of u] by (simp_all add: wake_all_def)
  show "owed_lock ?s" if "wt_pcs ?s u = WPred" "wt_quit ?s"
    using that d(5) [of u] by (intro ol) (simp add: wake_all_def split: if_splits)
  show "owed_lock ?s" if "wt_pcs ?s u = WEnter" "wt_quit ?s \<or> \<not> wt_pred ?s u"
    using that d(6) [of u] by (intro ol) (simp add: wake_all_def split: if_splits)
  show "owed_wake ?s" if "wt_pcs ?s u = WSleep" using that by (simp add: wake_all_def split: if_splits)
qed

text \<open>A waker whose call fails leaves with the mutex as it is.\<close>

lemma waker_fail_inv:
  assumes "wt_inv s" "holds_pc pc \<longleftrightarrow> holds_pc (wt_pcs s t)" "pc \<in> {KFailed, KError}"
  shows "wt_inv (wt_fail t pc s)" (is "wt_inv ?s")
proof (rule wt_invI)
  note d = wt_invD [OF assms(1)]
  fix u
  show "holds_pc (wt_pcs ?s u) \<longleftrightarrow> wt_lock ?s = Some u" using d(1) [of u] d(1) [of t] assms(2) by (auto simp: wt_fail_def)
  show "wt_pcs ?s u \<noteq> KLock True" "wt_pcs ?s u \<noteq> KHold True" "wt_pcs ?s u \<noteq> KWake True"
    using d(2-4) [of u] assms(3) by (auto simp: wt_fail_def)
  show "owed_lock ?s" "owed_lock ?s" "owed_wake ?s" by (simp_all add: owed_lock_def owed_wake_def wt_fail_def)
qed

text \<open>A thread that is outside the mutex and turns waker owes everybody a wake-up.\<close>

lemma become_waker_inv:
  assumes "wt_inv s" "\<not> holds_pc (wt_pcs s t)"
  shows "wt_inv (wt_goto t (KLock False) (s\<lparr>wt_quit := q, wt_pred := p\<rparr>))" (is "wt_inv ?s")
proof (rule wt_invI)
  note d = wt_invD [OF assms(1)]
  fix u
  show "holds_pc (wt_pcs ?s u) \<longleftrightarrow> wt_lock ?s = Some u" using d(1) [of u] d(1) [of t] assms(2) by auto
  show "wt_pcs ?s u \<noteq> KLock True" "wt_pcs ?s u \<noteq> KHold True" "wt_pcs ?s u \<noteq> KWake True"
    using d(2-4) [of u] by simp_all
  show "owed_lock ?s" "owed_lock ?s" "owed_wake ?s" by (auto simp: owed_lock_def owed_wake_def)
qed

lemma wt_access_inv:
  assumes inv: "wt_inv s"
  shows "wt_inv (wt_access ch u s t)"
proof -
  note d = wt_invD [OF inv]
  show ?thesis
  proof (cases "wt_pcs s t")
    case WLock
    then show ?thesis using wt_take_inv [OF inv, of t WQuit] wt_goto_inv [OF inv, of t WFailed] by (simp add: wt_access_def waker_pc_def)
  next
    case WQuit
    then show ?thesis
      using wt_goto_inv [OF inv, of t "WUnlock True"] wt_goto_inv [OF inv, of t WPred]
      by (auto simp: wt_access_def waker_pc_def)
  next
    case WPred
    then show ?thesis
      using wt_goto_inv [OF inv, of t "WUnlock True"] wt_goto_inv [OF inv, of t WEnter] d(5) [of t]
      by (auto simp: wt_access_def waker_pc_def)
  next
    case WEnter
    then show ?thesis
      using wt_goto_inv [OF inv, of t WError] wt_give_inv [OF inv, of t WSleep] d(6) [of t] owed_lock_wake
      by (auto simp: wt_access_def waker_pc_def)
  next
    case WSleep
    then show ?thesis
      using wt_goto_inv [OF inv, of t "WWake True"] wt_goto_inv [OF inv, of t "WWake False"] inv
      by (cases ch) (simp_all add: wt_access_def waker_pc_def)
  next
    case (WWake b)
    then show ?thesis
      using wt_take_inv [OF inv, of t WQuit] wt_take_inv [OF inv, of t "WUnlock False"] wt_goto_inv [OF inv, of t WFailed]
      by (cases b) (simp_all add: wt_access_def waker_pc_def)
  next
    case (WUnlock b)
    then show ?thesis
      using wt_give_inv [OF inv, of t "WReturn b"] wt_goto_inv [OF inv, of t WError] by (simp add: wt_access_def waker_pc_def)
  next
    case KStore
    then show ?thesis using become_waker_inv [OF inv, of t "wt_pred s" True] by (simp add: wt_access_def)
  next
    case (KLock one)
    then have "\<not> one" using d(2) [of t] by auto
    then show ?thesis using KLock waker_lock_inv [OF inv, of t] waker_fail_inv [OF inv, of KFailed t] inv by (simp add: wt_access_def wt_take_def)
  next
    case (KHold one)
    then have "\<not> one" using d(3) [of t] by auto
    then show ?thesis using KHold waker_unlock_inv [OF inv, of t] waker_fail_inv [OF inv, of KError t] by (simp add: wt_access_def)
  next
    case (KWake one)
    then have "\<not> one" using d(4) [of t] by auto
    then show ?thesis using KWake waker_wake_inv [OF inv, of t] waker_fail_inv [OF inv, of KFailed t] by (simp add: wt_access_def)
  qed (simp_all add: wt_access_def inv)
qed

lemma wt_step_inv:
  assumes "wt_inv s" "wt_step False s s'"
  shows "wt_inv s'"
  using assms(2)
proof cases
  case (wt_move ch u t)
  then show ?thesis using wt_access_inv [OF assms(1)] by simp
next
  case (wt_wait t p)
  then have "\<not> waker_pc (wt_pcs s t)" "wt_lock s \<noteq> Some t"
    using wt_invD(1) [OF assms(1), of t] by (auto simp: in_no_call_def waker_pc_def)
  then show ?thesis
    using wt_inv_upd [OF assms(1), of t WLock "wt_lock s" p] wt_wait(1) by (simp add: start_wait_def wt_goto_def)
next
  case (wt_wake t one S)
  then have "\<not> holds_pc (wt_pcs s t)" by (auto simp: in_no_call_def)
  from become_waker_inv [OF assms(1) this, of _ "wt_quit s"] show ?thesis
    using wt_wake by (simp add: start_wake_def)
next
  case (wt_stop t)
  then show ?thesis
    using wt_goto_inv [OF assms(1), of t KStore] by (auto simp: start_quit_def in_no_call_def waker_pc_def)
qed

lemma wt_init_inv: "wt_inv wt_init"
  by (simp add: wt_inv_def wt_init_def)

interpretation waiter: invariant_system wt_init "wt_step False" wt_inv
  by unfold_locales (auto intro: wt_init_inv wt_step_inv)

section \<open>No wake-up is lost\<close>


datatype wt_event = EMove wt_choice nat nat | EWait nat bool | EChange nat "nat list" | EQuit nat

fun wt_apply :: "wt_sys \<Rightarrow> wt_event \<Rightarrow> wt_sys option" where
  "wt_apply s (EMove ch u t) = Some (wt_access ch u s t)"
| "wt_apply s (EWait t p) = (if in_no_call (wt_pcs s t) then Some (start_wait t p s) else None)"
| "wt_apply s (EChange t us) = (if in_no_call (wt_pcs s t) then Some (start_wake t False (set us) s) else None)"
| "wt_apply s (EQuit t) = (if in_no_call (wt_pcs s t) then Some (start_quit t s) else None)"

fun wt_run :: "wt_sys \<Rightarrow> wt_event list \<Rightarrow> wt_sys option" where
  "wt_run s [] = Some s"
| "wt_run s (ev # evs) = (case wt_apply s ev of None \<Rightarrow> None | Some s' \<Rightarrow> wt_run s' evs)"

lemma wt_apply_step: "wt_apply s ev = Some s' \<Longrightarrow> wt_step False s s'"
  by (cases ev) (auto split: if_splits intro: wt_step.intros)

lemma wt_run_steps: "wt_run s evs = Some s' \<Longrightarrow> rtranclp (wt_step False) s s'"
  by (induction s evs rule: wt_run.induct)
     (auto split: option.splits intro: converse_rtranclp_into_rtranclp dest: wt_apply_step)

text \<open>Thread 1 changes the state between thread 0's test and its sleep, and waits for the mutex until then.\<close>

definition close_call :: "wt_event list" where
  "close_call = EWait 0 True # replicate 3 (EMove Going 0 0) @ [EChange 1 [0], EMove Going 0 1, EMove Going 0 0]"

lemma in_no_call_code [code]:
  "in_no_call pc = (case pc of WIdle \<Rightarrow> True | WFailed \<Rightarrow> True | KDone \<Rightarrow> True | KFailed \<Rightarrow> True | WReturn _ \<Rightarrow> True | _ \<Rightarrow> False)"
  by (cases pc) (simp_all add: in_no_call_def)


text \<open>Without the brief lock the broadcast could fall between the test and the sleep; a notify wakes one sleeper only.\<close>

lemma broadcast_wakes_all: "wt_pcs s t = KWake False \<Longrightarrow> ch \<noteq> Failing \<Longrightarrow> wt_pcs (wt_access ch u s t) v \<noteq> WSleep"
  by (simp add: wt_access_def wake_all_def)

lemma notify_wakes_one:
  "wt_pcs s t = KWake True \<Longrightarrow> v \<noteq> u \<Longrightarrow> wt_pcs s v = WSleep \<Longrightarrow> wt_pcs (wt_access ch u s t) v = WSleep"
  by (auto simp: wt_access_def wake_one_def wt_fail_def)

section \<open>A failing wait\<close>

text \<open>
  A wait on the condition that fails keeps the mutex: \<open>wait_if\<close> returns the error without
  unlocking, so that from then on no other thread ever gets past taking the mutex, in \<open>wait_if\<close> as
  in \<open>broadcast\<close>, whatever the threads do.
\<close>

theorem waiter_error_keeps_lock:
  assumes "rtranclp (wt_step False) wt_init s" "wt_pcs s t = WError" "rtranclp (wt_step False) s s'"
  shows "wt_pcs s' t = WError \<and> wt_lock s' = Some t \<and> (\<forall>u. u \<noteq> t \<longrightarrow> \<not> holds_pc (wt_pcs s' u))"
proof -
  have keeps: "wt_pcs b t = WError" if "wt_step False a b" "wt_pcs a t = WError" for a b
    using that
  proof (cases rule: wt_step.cases)
    case (wt_move ch u v)
    then show ?thesis
      using that(2)
      by (cases "v = t"; cases "wt_pcs a v")
        (auto simp: wt_access_def wt_take_def wt_fail_def wake_one_def wake_all_def split: wt_choice.splits)
  qed (auto simp: start_wait_def start_wake_def start_quit_def in_no_call_def)
  have "wt_pcs s' t = WError" using assms(3,2) by (induction rule: rtranclp_induct) (auto intro: keeps)
  moreover have inv: "wt_inv s'" using waiter.reachable_inv assms(1,3) by (meson rtranclp_trans)
  ultimately show ?thesis using wt_invD(1) [OF inv, of t] holder_unique [OF inv, of t] by auto
qed

definition failing_wait :: "wt_event list" where
  "failing_wait = EWait 0 True # replicate 3 (EMove Going 0 0) @ [EMove Failing 0 0]"

theorem waiter_error_keeps_lock_witness:
  "\<exists>s s'. wt_run wt_init failing_wait = Some s \<and> wt_run s (EChange 1 [0] # replicate 9 (EMove Going 0 1)) = Some s'
     \<and> wt_pcs s' 0 = WError \<and> wt_lock s' = Some 0 \<and> \<not> holds_pc (wt_pcs s' 1)"
proof -
  have "case wt_run wt_init failing_wait of None \<Rightarrow> False
     | Some s \<Rightarrow> wt_pcs s 0 = WError \<and> wt_run s (EChange 1 [0] # replicate 9 (EMove Going 0 1)) \<noteq> None"
    by code_simp
  then obtain s s' where s: "wt_run wt_init failing_wait = Some s" "wt_pcs s 0 = WError"
    "wt_run s (EChange 1 [0] # replicate 9 (EMove Going 0 1)) = Some s'"
    by (auto split: option.splits)
  then show ?thesis
    using waiter_error_keeps_lock [OF wt_run_steps [OF s(1)] s(2) wt_run_steps [OF s(3)]] by auto
qed

end
