(* ===== verification/Posix_Shm.thy ===== *)
theory Posix_Shm
  imports Names
begin

text \<open>
  \<open>platform/posix.rs\<close> and \<open>shm.rs\<close>: named shared memory with a reference counter behind the user's
  bytes, and the process-local cache of such segments. The kernel is a table of names
  and the objects behind them; an object outlives its name as long as it is mapped. Calls that the
  kernel refuses for other reasons (no memory, no descriptors, permissions) are not modelled.
\<close>

section \<open>The kernel's objects\<close>

text \<open>The content of an object by 32-bit words; past its end and inside its last page it reads as zero.\<close>

record shm_obj =
  ob_size :: nat
  ob_mem :: "nat \<Rightarrow> i32"

record shm_world =
  sx_names :: "string \<rightharpoonup> nat"
  sx_objs :: "nat \<Rightarrow> shm_obj"
  sx_next :: nat

record platform =
  pf_name_max :: nat
  pf_macos :: bool

definition linux :: platform where
  "linux = \<lparr>pf_name_max = SHM_NAME_MAX_other, pf_macos = False\<rparr>"

definition macos :: platform where
  "macos = \<lparr>pf_name_max = SHM_NAME_MAX_macos, pf_macos = True\<rparr>"

definition upd_obj :: "nat \<Rightarrow> (shm_obj \<Rightarrow> shm_obj) \<Rightarrow> shm_world \<Rightarrow> shm_world" where
  "upd_obj ob f w = w\<lparr>sx_objs := (sx_objs w)(ob := f (sx_objs w ob))\<rparr>"

datatype shm_error = NameEmpty | SizeZero | NamePanic str_panic | NameNul | EExist | ENoent | EInval | Unsupported | BusFault

text \<open>\<open>shm_open\<close> with \<open>O_CREAT | O_EXCL\<close>, and without.\<close>

definition open_excl :: "string \<Rightarrow> shm_world \<Rightarrow> shm_world \<times> (shm_error + nat)" where
  "open_excl pn w = (case sx_names w pn of
     Some _ \<Rightarrow> (w, Inl EExist)
   | None \<Rightarrow> (w\<lparr>sx_names := (sx_names w)(pn \<mapsto> sx_next w),
                sx_objs := (sx_objs w)(sx_next w := \<lparr>ob_size = 0, ob_mem = (\<lambda>_. 0)\<rparr>),
                sx_next := sx_next w + 1\<rparr>, Inr (sx_next w)))"

definition open_existing :: "string \<Rightarrow> shm_world \<Rightarrow> shm_error + nat" where
  "open_existing pn w = (case sx_names w pn of None \<Rightarrow> Inl ENoent | Some ob \<Rightarrow> Inr ob)"

text \<open>\<open>ftruncate\<close>; macOS sizes an object once.\<close>

definition ftruncate :: "platform \<Rightarrow> nat \<Rightarrow> nat \<Rightarrow> shm_world \<Rightarrow> shm_world \<times> shm_error option" where
  "ftruncate pf ob n w =
     (if pf_macos pf \<and> ob_size (sx_objs w ob) \<noteq> 0 then (w, Some EInval)
      else (upd_obj ob (\<lambda>x. \<lparr>ob_size = n, ob_mem = (\<lambda>i. if i < min n (ob_size x) div 4 then ob_mem x i else 0)\<rparr>) w, None))"

section \<open>PlatformShm\<close>

definition calc_size :: "nat \<Rightarrow> nat" where
  "calc_size user_size = ((user_size - 1) div 4 + 1) * 4 + 4"

text \<open>The word of the reference counter: the last of the mapping.\<close>

definition acc_of :: "nat \<Rightarrow> nat" where
  "acc_of total_size = (total_size - 4) div 4"

record platform_shm =
  ps_mem :: "nat option"
  ps_size :: nat
  ps_user_size :: nat
  ps_name :: string
  ps_prev_ref :: i32

datatype shm_mode = ShmCreate | ShmOpen | ShmCreateOrOpen

definition unlink :: "string \<Rightarrow> shm_world \<Rightarrow> shm_world" where
  "unlink pn w = w\<lparr>sx_names := (sx_names w)(pn := None)\<rparr>"

definition unlink_by_name :: "platform \<Rightarrow> string \<Rightarrow> shm_world \<Rightarrow> shm_world" where
  "unlink_by_name pf name w = (case make_shm_name (pf_name_max pf) name of Inl _ \<Rightarrow> w | Inr pn \<Rightarrow> unlink pn w)"

text \<open>\<open>Inr (ob, need_truncate)\<close>.\<close>

definition open_fd :: "shm_mode \<Rightarrow> string \<Rightarrow> shm_world \<Rightarrow> shm_world \<times> (shm_error + nat \<times> bool)" where
  "open_fd mode pn w = (case mode of
     ShmCreate \<Rightarrow> (case open_excl pn w of (w, Inl e) \<Rightarrow> (w, Inl e) | (w, Inr ob) \<Rightarrow> (w, Inr (ob, True)))
   | ShmOpen \<Rightarrow> (case open_existing pn w of Inl e \<Rightarrow> (w, Inl e) | Inr ob \<Rightarrow> (w, Inr (ob, False)))
   | ShmCreateOrOpen \<Rightarrow>
       (case open_excl pn w of
          (w, Inr ob) \<Rightarrow> (w, Inr (ob, True))
        | (w, Inl e) \<Rightarrow>
            if e \<noteq> EExist then (w, Inl e)
            else (case open_existing pn w of Inl e \<Rightarrow> (w, Inl e) | Inr ob \<Rightarrow> (w, Inr (ob, False)))))"

definition ftruncate_to_size :: "platform \<Rightarrow> nat \<Rightarrow> nat \<Rightarrow> shm_world \<Rightarrow> shm_world \<times> shm_error option" where
  "ftruncate_to_size pf ob total_size w = (case ftruncate pf ob total_size w of
     (w, None) \<Rightarrow> (w, None)
   | (w, Some err) \<Rightarrow>
       if err = EInval \<and> total_size \<le> ob_size (sx_objs w ob) then (w, None) else (w, Some err))"

text \<open>
  \<open>wait_until_sized\<close>: the sizes it sees, each with whether the deadline has passed. \<open>None\<close> is:
  still waiting.
\<close>

fun wait_until_sized :: "nat \<Rightarrow> (nat \<times> bool) list \<Rightarrow> bool option" where
  "wait_until_sized total_size [] = None"
| "wait_until_sized total_size ((st_size, expired) # obs) =
     (if total_size \<le> st_size then Some True
      else if expired then Some False else wait_until_sized total_size obs)"

text \<open>The change of a reference counter.\<close>

definition add_ref :: "nat \<Rightarrow> nat \<Rightarrow> i32 \<Rightarrow> shm_world \<Rightarrow> shm_world" where
  "add_ref ob total_size d w =
     upd_obj ob (\<lambda>x. x\<lparr>ob_mem := (ob_mem x)(acc_of total_size := ob_mem x (acc_of total_size) + d)\<rparr>) w"

text \<open>Touching a page that the object does not reach is a bus error.\<close>

definition page_round :: "nat \<Rightarrow> nat" where
  "page_round n = ((n + 4095) div 4096) * 4096"

definition mmap_and_finish ::
  "nat \<Rightarrow> nat \<Rightarrow> nat \<Rightarrow> string \<Rightarrow> shm_world \<Rightarrow> shm_world \<times> (shm_error + platform_shm)" where
  "mmap_and_finish ob total_size user_size pn w =
     (if page_round (ob_size (sx_objs w ob)) < total_size then (w, Inl BusFault)
      else let prev = ob_mem (sx_objs w ob) (acc_of total_size)
           in (add_ref ob total_size 1 w,
               Inr \<lparr>ps_mem = Some ob, ps_size = total_size, ps_user_size = user_size, ps_name = pn, ps_prev_ref = prev\<rparr>))"

definition posix_name :: "platform \<Rightarrow> string \<Rightarrow> shm_error + string" where
  "posix_name pf name = (case make_shm_name (pf_name_max pf) name of
     Inl p \<Rightarrow> Inl (NamePanic p)
   | Inr pn \<Rightarrow> if CHR 0x00 \<in> set pn then Inl NameNul else Inr pn)"

text \<open>
  \<open>acquire\<close> when no other process is at work on the object: one that is too small stays so
  until the deadline, and is then sized here.
\<close>

definition shm_acquire ::
  "platform \<Rightarrow> string \<Rightarrow> nat \<Rightarrow> shm_mode \<Rightarrow> shm_world \<Rightarrow> shm_world \<times> (shm_error + platform_shm)" where
  "shm_acquire pf name user_size mode w =
     (if name = [] then (w, Inl NameEmpty)
      else if user_size = 0 then (w, Inl SizeZero)
      else case posix_name pf name of
        Inl e \<Rightarrow> (w, Inl e)
      | Inr pn \<Rightarrow>
          let total_size = calc_size user_size
          in (case open_fd mode pn w of
                (w, Inl e) \<Rightarrow> (w, Inl e)
              | (w, Inr (ob, need_truncate)) \<Rightarrow>
                  (case (if need_truncate \<or> mode = ShmCreateOrOpen \<and> \<not> total_size \<le> ob_size (sx_objs w ob)
                         then ftruncate_to_size pf ob total_size w else (w, None)) of
                     (w, Some e) \<Rightarrow> (w, Inl e)
                   | (w, None) \<Rightarrow> mmap_and_finish ob total_size user_size pn w)))"

definition ref_count :: "platform_shm \<Rightarrow> shm_world \<Rightarrow> i32" where
  "ref_count h w = (case ps_mem h of None \<Rightarrow> 0
     | Some ob \<Rightarrow> if ps_size h = 0 then 0 else ob_mem (sx_objs w ob) (acc_of (ps_size h)))"

text \<open>The two halves of \<open>release_mapping\<close>: the counter, and the name if this was the last reference.\<close>

definition release_sub :: "platform_shm \<Rightarrow> shm_world \<Rightarrow> shm_world \<times> i32" where
  "release_sub h w = (case ps_mem h of None \<Rightarrow> (w, - 1)
     | Some ob \<Rightarrow> (add_ref ob (ps_size h) (- 1) w, ob_mem (sx_objs w ob) (acc_of (ps_size h))))"

definition release_unlink :: "platform_shm \<Rightarrow> i32 \<Rightarrow> shm_world \<Rightarrow> shm_world" where
  "release_unlink h prev w = (if ps_mem h \<noteq> None \<and> sint prev \<le> 1 then unlink (ps_name h) w else w)"

definition release_mapping :: "platform_shm \<Rightarrow> shm_world \<Rightarrow> shm_world \<times> platform_shm \<times> i32" where
  "release_mapping h w = (case release_sub h w of (w, prev) \<Rightarrow>
     (release_unlink h prev w, h\<lparr>ps_mem := None\<rparr>, prev))"

definition can_grow :: "platform \<Rightarrow> bool" where
  "can_grow pf \<longleftrightarrow> \<not> pf_macos pf"

text \<open>The name is opened again: it need not be the object that is mapped.\<close>

definition shm_grow :: "platform \<Rightarrow> nat \<Rightarrow> platform_shm \<Rightarrow> shm_world \<Rightarrow> shm_world \<times> platform_shm \<times> shm_error option" where
  "shm_grow pf new_user_size h w =
     (if new_user_size \<le> ps_user_size h then (w, h, None)
      else if \<not> can_grow pf then (w, h, Some Unsupported)
      else case open_existing (ps_name h) w of
        Inl e \<Rightarrow> (w, h, Some e)
      | Inr ob \<Rightarrow>
          let total_size = calc_size new_user_size
          in (case (if ob_size (sx_objs w ob) < total_size then ftruncate_to_size pf ob total_size w else (w, None)) of
                (w, Some e) \<Rightarrow> (w, h, Some e)
              | (w, None) \<Rightarrow>
                  (let prev = ob_mem (sx_objs w ob) (acc_of total_size);
                       w = add_ref ob total_size 1 w;
                       w = (case ps_mem h of None \<Rightarrow> w | Some old \<Rightarrow> add_ref old (ps_size h) (- 1) w)
                   in (w, h\<lparr>ps_mem := Some ob, ps_size := total_size, ps_user_size := new_user_size,
                            ps_prev_ref := prev\<rparr>, None))))"

section \<open>Handles come and go\<close>

record shm_sys =
  ss_world :: shm_world
  ss_handles :: "nat \<Rightarrow> platform_shm option"

text \<open>
  Handles are acquired and dropped one after the other; \<open>sz\<close> is the size every user of a
  name asks for, and fewer than \<open>2^31\<close> handles are open at a time.
\<close>

inductive shm_step :: "platform \<Rightarrow> (string \<Rightarrow> nat) \<Rightarrow> shm_sys \<Rightarrow> shm_sys \<Rightarrow> bool" for pf sz where
  shm_open_step: "ss_handles s i = None \<Longrightarrow> card (dom (ss_handles s)) < 2 ^ 31 - 1 \<Longrightarrow> posix_name pf name = Inr pn \<Longrightarrow>
    shm_acquire pf name (sz pn) ShmCreateOrOpen (ss_world s) = (w, Inr h) \<Longrightarrow>
    shm_step pf sz s \<lparr>ss_world = w, ss_handles = (ss_handles s)(i \<mapsto> h)\<rparr>"
| shm_drop_step: "ss_handles s i = Some h \<Longrightarrow> release_mapping h (ss_world s) = (w, h', prev) \<Longrightarrow>
    shm_step pf sz s \<lparr>ss_world = w, ss_handles = (ss_handles s)(i := None)\<rparr>"

definition shm_empty :: shm_sys where
  "shm_empty = \<lparr>ss_world = \<lparr>sx_names = Map.empty, sx_objs = (\<lambda>_. \<lparr>ob_size = 0, ob_mem = (\<lambda>_. 0)\<rparr>), sx_next = 0\<rparr>,
     ss_handles = Map.empty\<rparr>"

definition users :: "(nat \<Rightarrow> platform_shm option) \<Rightarrow> string \<Rightarrow> nat set" where
  "users hs pn = {i. \<exists>h. hs i = Some h \<and> ps_name h = pn}"

definition name_ok :: "(string \<Rightarrow> nat) \<Rightarrow> shm_sys \<Rightarrow> string \<Rightarrow> nat \<Rightarrow> bool" where
  "name_ok sz s pn ob \<longleftrightarrow> ob < sx_next (ss_world s) \<and> ob_size (sx_objs (ss_world s) ob) = calc_size (sz pn)
     \<and> users (ss_handles s) pn \<noteq> {}
     \<and> ob_mem (sx_objs (ss_world s) ob) (acc_of (calc_size (sz pn))) = of_nat (card (users (ss_handles s) pn))"

definition handle_ok :: "(string \<Rightarrow> nat) \<Rightarrow> shm_world \<Rightarrow> platform_shm \<Rightarrow> bool" where
  "handle_ok sz w h \<longleftrightarrow> ps_mem h \<noteq> None \<and> sx_names w (ps_name h) = ps_mem h \<and> ps_size h = calc_size (sz (ps_name h))"

definition shm_ok :: "(string \<Rightarrow> nat) \<Rightarrow> shm_sys \<Rightarrow> bool" where
  "shm_ok sz s \<longleftrightarrow> finite (dom (ss_handles s)) \<and> card (dom (ss_handles s)) < 2 ^ 31
     \<and> (\<forall>i h. ss_handles s i = Some h \<longrightarrow> handle_ok sz (ss_world s) h)
     \<and> (\<forall>pn ob. sx_names (ss_world s) pn = Some ob \<longrightarrow> name_ok sz s pn ob)
     \<and> (\<forall>pn qn ob. sx_names (ss_world s) pn = Some ob \<longrightarrow> sx_names (ss_world s) qn = Some ob \<longrightarrow> pn = qn)"

lemma shm_okD:
  assumes "shm_ok sz s"
  shows "finite (dom (ss_handles s))" "card (dom (ss_handles s)) < 2 ^ 31"
    "ss_handles s i = Some h \<Longrightarrow> handle_ok sz (ss_world s) h"
    "sx_names (ss_world s) pn = Some ob \<Longrightarrow> name_ok sz s pn ob"
    "sx_names (ss_world s) pn = Some ob \<Longrightarrow> sx_names (ss_world s) qn = Some ob \<Longrightarrow> pn = qn"
  using assms unfolding shm_ok_def by blast+

lemma shm_okI:
  assumes "finite (dom (ss_handles s))" "card (dom (ss_handles s)) < 2 ^ 31"
    "\<And>i h. ss_handles s i = Some h \<Longrightarrow> handle_ok sz (ss_world s) h"
    "\<And>pn ob. sx_names (ss_world s) pn = Some ob \<Longrightarrow> name_ok sz s pn ob"
    "\<And>pn qn ob. sx_names (ss_world s) pn = Some ob \<Longrightarrow> sx_names (ss_world s) qn = Some ob \<Longrightarrow> pn = qn"
  shows "shm_ok sz s"
  unfolding shm_ok_def using assms by blast

lemma users_subset: "users hs pn \<subseteq> dom hs"
  by (auto simp: users_def)

lemma users_upd:
  "users (hs(i := x)) pn = (users hs pn - {i}) \<union> (case x of Some h \<Rightarrow> if ps_name h = pn then {i} else {} | None \<Rightarrow> {})"
  by (rule set_eqI, cases x) (simp_all add: users_def)

lemma page_round_ge: "n \<le> page_round n"
proof -
  have "(n + 4095) div 4096 * 4096 + (n + 4095) mod 4096 = n + 4095" by (rule div_mult_mod_eq)
  moreover have "(n + 4095) mod 4096 < 4096" by simp
  ultimately show ?thesis unfolding page_round_def by linarith
qed

text \<open>\<open>acquire\<close> of a name that does not exist, and of one that is large enough.\<close>

lemma acquire_new:
  assumes "posix_name pf name = Inr pn" "name \<noteq> []" "0 < u" "sx_names w pn = None"
  shows "shm_acquire pf name u ShmCreateOrOpen w =
    (w\<lparr>sx_names := (sx_names w)(pn \<mapsto> sx_next w),
       sx_objs := (sx_objs w)(sx_next w := \<lparr>ob_size = calc_size u, ob_mem = (\<lambda>_. 0)(acc_of (calc_size u) := 1)\<rparr>),
       sx_next := sx_next w + 1\<rparr>,
     Inr \<lparr>ps_mem = Some (sx_next w), ps_size = calc_size u, ps_user_size = u, ps_name = pn, ps_prev_ref = 0\<rparr>)"
  using assms page_round_ge [of "calc_size u"]
  by (simp add: shm_acquire_def open_fd_def open_excl_def ftruncate_to_size_def ftruncate_def upd_obj_def
      mmap_and_finish_def add_ref_def not_less Let_def)

lemma acquire_existing:
  assumes "posix_name pf name = Inr pn" "name \<noteq> []" "0 < u" "sx_names w pn = Some ob"
    "calc_size u \<le> ob_size (sx_objs w ob)"
  shows "shm_acquire pf name u ShmCreateOrOpen w = (add_ref ob (calc_size u) 1 w,
     Inr \<lparr>ps_mem = Some ob, ps_size = calc_size u, ps_user_size = u, ps_name = pn,
          ps_prev_ref = ob_mem (sx_objs w ob) (acc_of (calc_size u))\<rparr>)"
  using assms page_round_ge [of "ob_size (sx_objs w ob)"]
  by (simp add: shm_acquire_def open_fd_def open_excl_def open_existing_def mmap_and_finish_def Let_def)

lemma acquire_Inr: "shm_acquire pf name u m w = (w', Inr h) \<Longrightarrow> name \<noteq> [] \<and> 0 < u"
  by (auto simp: shm_acquire_def split: if_splits)

lemma add_ref_simps [simp]:
  "sx_names (add_ref ob n d w) = sx_names w" "sx_next (add_ref ob n d w) = sx_next w"
  "ob_size (sx_objs (add_ref ob n d w) o2) = ob_size (sx_objs w o2)"
  "ob_mem (sx_objs (add_ref ob n d w) ob) (acc_of n) = ob_mem (sx_objs w ob) (acc_of n) + d"
  "o2 \<noteq> ob \<Longrightarrow> sx_objs (add_ref ob n d w) o2 = sx_objs w o2"
  by (simp_all add: add_ref_def upd_obj_def)

lemma shm_ok_open_new:
  assumes ok: "shm_ok sz s" and i: "ss_handles s i = None" "card (dom (ss_handles s)) < 2 ^ 31 - 1"
    and n: "sx_names (ss_world s) pn = None"
    and s': "s' = \<lparr>ss_world = (ss_world s)\<lparr>sx_names := (sx_names (ss_world s))(pn \<mapsto> sx_next (ss_world s)),
       sx_objs := (sx_objs (ss_world s))(sx_next (ss_world s) :=
         \<lparr>ob_size = calc_size (sz pn), ob_mem = (\<lambda>_. 0)(acc_of (calc_size (sz pn)) := 1)\<rparr>),
       sx_next := sx_next (ss_world s) + 1\<rparr>, ss_handles = (ss_handles s)(i \<mapsto> h)\<rparr>"
    and h: "ps_mem h = Some (sx_next (ss_world s))" "ps_size h = calc_size (sz pn)" "ps_name h = pn"
  shows "shm_ok sz s'"
proof -
  note d = shm_okD [OF ok]
  have fresh: "sx_names (ss_world s) qn \<noteq> Some (sx_next (ss_world s))" for qn
    using d(4) [of qn "sx_next (ss_world s)"] by (auto simp: name_ok_def)
  have none: "users (ss_handles s) pn = {}"
    using d(3) n unfolding users_def handle_ok_def by fastforce
  have u: "users (ss_handles s') qn = (if qn = pn then {i} else users (ss_handles s) qn)" for qn
    using i(1) none h(3) by (auto simp: s' users_upd users_def)
  have names: "name_ok sz s' qn ob" if "sx_names (ss_world s') qn = Some ob" for qn ob
  proof (cases "qn = pn")
    case True
    then show ?thesis using that u by (simp add: s' name_ok_def)
  next
    case False
    then have "name_ok sz s qn ob" "ob \<noteq> sx_next (ss_world s)" using that d(4) fresh by (auto simp: s')
    then show ?thesis using False u by (simp add: s' name_ok_def less_Suc_eq)
  qed
  have handles: "handle_ok sz (ss_world s') h'" if "ss_handles s' j = Some h'" for j h'
  proof (cases "j = i")
    case True
    then show ?thesis using that h by (simp add: s' handle_ok_def)
  next
    case False
    then have "handle_ok sz (ss_world s) h'" using that d(3) by (simp add: s')
    moreover from this have "ps_name h' \<noteq> pn" using n by (auto simp: handle_ok_def)
    ultimately show ?thesis by (simp add: s' handle_ok_def)
  qed
  have c: "card (dom (ss_handles s')) < 2 ^ 31" using i d(1) by (simp add: s' card_insert_if domIff)
  have inj: "pa = pb" if "sx_names (ss_world s') pa = Some ob" "sx_names (ss_world s') pb = Some ob" for pa pb ob
    using that fresh d(5) by (auto simp: s' split: if_splits)
  show ?thesis by (rule shm_okI [OF _ c handles names inj]) (use d(1) in \<open>auto simp: s'\<close>)
qed

text \<open>A counter changes together with the users of its name.\<close>

lemma shm_ok_count:
  assumes ok: "shm_ok sz s" and n: "sx_names (ss_world s) pn = Some ob"
    and s': "s' = \<lparr>ss_world = add_ref ob (calc_size (sz pn)) d (ss_world s), ss_handles = (ss_handles s)(i := x)\<rparr>"
    and u: "\<And>qn. qn \<noteq> pn \<Longrightarrow> users (ss_handles s') qn = users (ss_handles s) qn"
      "users (ss_handles s') pn \<noteq> {}"
      "of_nat (card (users (ss_handles s) pn)) + d = of_nat (card (users (ss_handles s') pn))"
    and h: "\<And>h. x = Some h \<Longrightarrow> handle_ok sz (ss_world s) h" "card (dom (ss_handles s')) < 2 ^ 31"
  shows "shm_ok sz s'"
proof -
  note d = shm_okD [OF ok]
  have names: "name_ok sz s' qn o2" if q: "sx_names (ss_world s') qn = Some o2" for qn o2
  proof (cases "qn = pn")
    case True
    then show ?thesis using d(4) [OF n] q n u(2,3) by (simp add: s' name_ok_def)
  next
    case False
    then have "o2 \<noteq> ob" using d(5) [OF n, of qn] q by (auto simp: s')
    then show ?thesis using d(4) [of qn o2] q u(1) [OF False] by (simp add: s' name_ok_def)
  qed
  have handles: "handle_ok sz (ss_world s') h'" if "ss_handles s' j = Some h'" for j h'
  proof -
    have "handle_ok sz (ss_world s) h'" using that d(3) h(1) by (cases "j = i") (auto simp: s')
    then show ?thesis by (simp add: s' handle_ok_def)
  qed
  have inj: "pa = pb" if "sx_names (ss_world s') pa = Some ob" "sx_names (ss_world s') pb = Some ob" for pa pb ob
    using that d(5) by (auto simp: s')
  show ?thesis by (rule shm_okI [OF _ h(2) handles names inj]) (use d(1) in \<open>auto simp: s'\<close>)
qed

lemma shm_ok_open:
  assumes ok: "shm_ok sz s" and i: "ss_handles s i = None" "card (dom (ss_handles s)) < 2 ^ 31 - 1"
    and pn: "posix_name pf name = Inr pn"
    and a: "shm_acquire pf name (sz pn) ShmCreateOrOpen (ss_world s) = (w, Inr h)"
  shows "shm_ok sz \<lparr>ss_world = w, ss_handles = (ss_handles s)(i \<mapsto> h)\<rparr>"
proof -
  have nz: "name \<noteq> []" "0 < sz pn" using acquire_Inr [OF a] by simp_all
  show ?thesis
  proof (cases "sx_names (ss_world s) pn")
    case None
    show ?thesis
      by (rule shm_ok_open_new [OF ok i None, of _ h]) (use a acquire_new [OF pn nz None] in auto)
  next
    case (Some ob)
    note d = shm_okD [OF ok]
    have no: "name_ok sz s pn ob" using d(4) [OF Some] .
    then have sz: "calc_size (sz pn) \<le> ob_size (sx_objs (ss_world s) ob)" by (simp add: name_ok_def)
    from a acquire_existing [OF pn nz Some sz]
    have e: "w = add_ref ob (calc_size (sz pn)) 1 (ss_world s)" "ps_name h = pn" "ps_mem h = Some ob"
      "ps_size h = calc_size (sz pn)" by auto
    have u: "users ((ss_handles s)(i \<mapsto> h)) qn = (if qn = pn then insert i (users (ss_handles s) pn) else users (ss_handles s) qn)" for qn
      using i(1) e(2) by (auto simp: users_upd users_def)
    have "i \<notin> users (ss_handles s) pn" using i(1) by (simp add: users_def)
    then have c: "card (insert i (users (ss_handles s) pn)) = Suc (card (users (ss_handles s) pn))"
      using finite_subset [OF users_subset d(1)] by simp
    show ?thesis
    proof (rule shm_ok_count [OF ok Some])
      show "\<lparr>ss_world = w, ss_handles = (ss_handles s)(i \<mapsto> h)\<rparr> =
        \<lparr>ss_world = add_ref ob (calc_size (sz pn)) 1 (ss_world s), ss_handles = (ss_handles s)(i := Some h)\<rparr>"
        by (simp add: e(1))
    qed (use u c e Some i d(1) in \<open>auto simp: handle_ok_def card_insert_if domIff\<close>)
  qed
qed

lemma sint_of_card: "n < 2 ^ 31 \<Longrightarrow> sint (of_nat n :: i32) = int n"
  by (simp add: signed_of_nat signed_take_bit_int_eq_self)

lemma shm_ok_drop:
  assumes ok: "shm_ok sz s" and i: "ss_handles s i = Some h"
    and r: "release_mapping h (ss_world s) = (w, h', prev)"
  shows "shm_ok sz \<lparr>ss_world = w, ss_handles = (ss_handles s)(i := None)\<rparr>" (is "shm_ok sz ?s")
proof -
  note d = shm_okD [OF ok]
  let ?pn = "ps_name h"
  obtain ob where ob: "ps_mem h = Some ob" "sx_names (ss_world s) ?pn = Some ob" "ps_size h = calc_size (sz ?pn)"
    using d(3) [OF i] by (auto simp: handle_ok_def)
  have no: "name_ok sz s ?pn ob" by (rule d(4) [OF ob(2)])
  let ?U = "users (ss_handles s) ?pn"
  have fin: "finite ?U" by (rule finite_subset [OF users_subset d(1)])
  have iU: "i \<in> ?U" using i by (auto simp: users_def)
  have card: "card ?U < 2 ^ 31" using card_mono [OF d(1) users_subset] d(2) by (rule le_less_trans)
  have prev: "prev = of_nat (card ?U)"
    and w: "w = release_unlink h prev (add_ref ob (calc_size (sz ?pn)) (- 1) (ss_world s))"
    using r ob no by (auto simp: release_mapping_def release_sub_def name_ok_def)
  have u: "users (ss_handles ?s) qn = (if qn = ?pn then ?U - {i} else users (ss_handles s) qn)" for qn
    using i by (auto simp: users_upd users_def)
  have dom: "card (dom (ss_handles ?s)) < 2 ^ 31"
    using d(2) card_mono [OF d(1), of "dom (ss_handles s) - {i}"] by simp
  show ?thesis
  proof (cases "?U = {i}")
    case True
    then have w1: "w = unlink ?pn (add_ref ob (calc_size (sz ?pn)) (- 1) (ss_world s))"
      using w prev ob(1) by (simp add: release_unlink_def)
    have names: "name_ok sz ?s qn o2" if "sx_names (ss_world ?s) qn = Some o2" for qn o2
    proof -
      have q: "qn \<noteq> ?pn" "sx_names (ss_world s) qn = Some o2"
        using that by (auto simp: w1 unlink_def split: if_splits)
      then have "o2 \<noteq> ob" using d(5) [OF ob(2), of qn] by auto
      then show ?thesis using d(4) [OF q(2)] u q(1) by (simp add: w1 unlink_def name_ok_def)
    qed
    have handles: "handle_ok sz (ss_world ?s) h2" if "ss_handles ?s j = Some h2" for j h2
    proof -
      have j: "ss_handles s j = Some h2" "j \<noteq> i" using that by (auto split: if_splits)
      then have "ps_name h2 \<noteq> ?pn" using True by (auto simp: users_def)
      then show ?thesis using d(3) [OF j(1)] by (simp add: w1 unlink_def handle_ok_def)
    qed
    have inj: "pa = pb" if "sx_names (ss_world ?s) pa = Some o2" "sx_names (ss_world ?s) pb = Some o2" for pa pb o2
      using that d(5) by (auto simp: w1 unlink_def split: if_splits)
    show ?thesis by (rule shm_okI [OF _ dom handles names inj]) (use d(1) in auto)
  next
    case False
    then have "{i} \<subset> ?U" using iU by blast
    from psubset_card_mono [OF fin this] have c: "1 < card ?U" by simp
    then have w1: "w = add_ref ob (calc_size (sz ?pn)) (- 1) (ss_world s)"
      using w prev sint_of_card [OF card] by (simp add: release_unlink_def)
    have cd: "card (?U - {i}) = card ?U - 1" by (rule card_Diff_singleton [OF iU])
    show ?thesis
    proof (rule shm_ok_count [OF ok ob(2)])
      show "?s = \<lparr>ss_world = add_ref ob (calc_size (sz ?pn)) (- 1) (ss_world s), ss_handles = (ss_handles s)(i := None)\<rparr>"
        by (simp add: w1)
      have "?U - {i} \<noteq> {}" using c cd by (intro notI) simp
      then show "users (ss_handles ?s) ?pn \<noteq> {}" using u by simp
      show "of_nat (card ?U) + - 1 = (of_nat (card (users (ss_handles ?s) ?pn)) :: i32)"
        using c cd u by (simp add: of_nat_diff)
    qed (use u dom in auto)
  qed
qed

lemma shm_step_ok: "shm_ok sz s \<Longrightarrow> shm_step pf sz s s' \<Longrightarrow> shm_ok sz s'"
  by (erule shm_step.cases) (auto intro: shm_ok_open shm_ok_drop)

lemma shm_empty_ok: "shm_ok sz shm_empty"
  by (simp add: shm_ok_def shm_empty_def)

interpretation shm: invariant_system shm_empty "shm_step pf sz" "shm_ok sz" for pf sz
  by unfold_locales (rule shm_empty_ok, rule shm_step_ok)

text \<open>
  C16. Reference counts: however handles to named segments are opened and dropped, one after the
  other and with one size per name, a name exists exactly as long as a handle to it is open, the counter in the segment is the
  number of those handles, and all of them map one and the same object.
\<close>

theorem shm_ref_counts:
  assumes "rtranclp (shm_step pf sz) shm_empty s"
  shows "(case sx_names (ss_world s) pn of
       None \<Rightarrow> \<forall>i h. ss_handles s i = Some h \<longrightarrow> ps_name h \<noteq> pn
     | Some ob \<Rightarrow> (\<exists>i h. ss_handles s i = Some h \<and> ps_name h = pn)
         \<and> (\<forall>i h. ss_handles s i = Some h \<longrightarrow> ps_name h = pn \<longrightarrow> ps_mem h = Some ob
              \<and> sint (ref_count h (ss_world s)) = int (card {j. \<exists>h. ss_handles s j = Some h \<and> ps_name h = pn})))"
proof (cases "sx_names (ss_world s) pn")
  case None
  then show ?thesis using shm_okD(3) [OF shm.reachable_inv [OF assms]] by (fastforce simp: handle_ok_def)
next
  case (Some ob)
  note d = shm_okD [OF shm.reachable_inv [OF assms]]
  have no: "name_ok sz s pn ob" by (rule d(4) [OF Some])
  have c: "card (users (ss_handles s) pn) < 2 ^ 31"
    using card_mono [OF d(1) users_subset] d(2) by (rule le_less_trans)
  have "ps_mem h = Some ob \<and> sint (ref_count h (ss_world s)) = int (card (users (ss_handles s) pn))"
    if h: "ss_handles s i = Some h" "ps_name h = pn" for i h
  proof -
    have m: "ps_mem h = Some ob" "ps_size h = calc_size (sz pn)"
      using d(3) [OF h(1)] Some h(2) by (auto simp: handle_ok_def)
    have "ref_count h (ss_world s) = of_nat (card (users (ss_handles s) pn))"
      using no m by (simp add: ref_count_def name_ok_def calc_size_def)
    then show ?thesis using m sint_of_card [OF c] by simp
  qed
  moreover have "\<exists>i h. ss_handles s i = Some h \<and> ps_name h = pn"
    using no by (auto simp: name_ok_def users_def)
  ultimately show ?thesis using Some unfolding users_def by simp
qed

text \<open>Two handles to one name.\<close>

lemma posix_name_a: "posix_name linux ''a'' = Inr ''/a''"
  by code_simp

theorem shm_ref_counts_witness:
  "\<exists>s. rtranclp (shm_step linux (\<lambda>_. 8)) shm_empty s \<and> sx_names (ss_world s) ''/a'' = Some 0
     \<and> (\<forall>h. ss_handles s 0 = Some h \<longrightarrow> ps_mem h = Some 0)"
proof -
  let ?w1 = "fst (shm_acquire linux ''a'' 8 ShmCreateOrOpen (ss_world shm_empty))"
  obtain h1 where a1: "shm_acquire linux ''a'' 8 ShmCreateOrOpen (ss_world shm_empty) = (?w1, Inr h1)"
    "ps_name h1 = ''/a''" "sx_names ?w1 ''/a'' = Some 0"
    using acquire_new [OF posix_name_a, of 8 "ss_world shm_empty"] by (simp add: shm_empty_def)
  define s1 where "s1 = \<lparr>ss_world = ?w1, ss_handles = (ss_handles shm_empty)(0 \<mapsto> h1)\<rparr>"
  have "shm_step linux (\<lambda>_. 8) shm_empty s1"
    unfolding s1_def by (rule shm_open_step [OF _ _ posix_name_a a1(1)]) (simp_all add: shm_empty_def)
  then have st: "rtranclp (shm_step linux (\<lambda>_. 8)) shm_empty s1" by blast
  have n: "sx_names (ss_world s1) ''/a'' = Some 0" using a1(3) by (simp add: s1_def)
  have "\<forall>i h. ss_handles s1 i = Some h \<longrightarrow> ps_name h = ''/a'' \<longrightarrow> ps_mem h = Some 0"
    using shm_ref_counts [OF st, of "''/a''"] n by simp
  moreover have "ss_handles s1 0 = Some h1" by (simp add: s1_def)
  ultimately show ?thesis using st n a1(2) by (metis option.inject)
qed

section \<open>Where the name and the object part\<close>

lemma posix_name_unlink: "posix_name pf name = Inr pn \<Longrightarrow> unlink_by_name pf name w = unlink pn w"
  by (auto simp: posix_name_def unlink_by_name_def split: sum.splits if_splits)

lemma acc_calc: "acc_of (calc_size u) = (u - 1) div 4 + 1"
  by (simp add: acc_of_def calc_size_def)

text \<open>
  Dropping the last handle to a segment that was cleared meanwhile (\<open>unlink_by_name\<close>,
  \<open>clear_storage\<close>) unlinks its successor: \<open>release_mapping\<close> unlinks by name, whatever object the name stands for
  by then. The next process to open the name gets a third segment, while the
  handle to the second one is still open.
\<close>

theorem stale_drop_unlinks_successor:
  assumes "posix_name pf name = Inr pn" "name \<noteq> []" "0 < u" "sx_names w pn = None"
    and "shm_acquire pf name u ShmCreateOrOpen w = (w1, Inr a)"
    and "shm_acquire pf name u ShmCreateOrOpen (unlink_by_name pf name w1) = (w2, Inr b)"
    and "release_mapping a w2 = (w3, a', prev)"
    and "shm_acquire pf name u ShmCreateOrOpen w3 = (w4, Inr c)"
  shows "sx_names w3 pn = None \<and> ps_mem b \<noteq> None \<and> ps_mem c \<noteq> ps_mem b \<and> ref_count b w4 = 1"
proof -
  have n1: "sx_names (unlink_by_name pf name w1) pn = None"
    by (simp add: posix_name_unlink [OF assms(1)] unlink_def)
  have a: "ps_mem a = Some (sx_next w)" "ps_size a = calc_size u" "ps_name a = pn"
    "sx_next w1 = sx_next w + 1" "ob_mem (sx_objs w1 (sx_next w)) (acc_of (calc_size u)) = 1"
    using assms(5) acquire_new [OF assms(1-4)] by auto
  have u1: "sx_next (unlink_by_name pf name w1) = sx_next w + 1" "sx_objs (unlink_by_name pf name w1) = sx_objs w1"
    by (simp_all add: posix_name_unlink [OF assms(1)] unlink_def a(4))
  have b: "ps_mem b = Some (sx_next w + 1)" "ps_size b = calc_size u" "sx_next w2 = sx_next w + 2"
    "ob_mem (sx_objs w2 (sx_next w + 1)) (acc_of (calc_size u)) = 1" "sx_objs w2 (sx_next w) = sx_objs w1 (sx_next w)"
    using assms(6) acquire_new [OF assms(1-3) n1] u1 by auto
  have w3: "w3 = unlink pn (add_ref (sx_next w) (calc_size u) (- 1) w2)"
    using assms(7) a b(5) by (auto simp: release_mapping_def release_sub_def release_unlink_def)
  then have n3: "sx_names w3 pn = None" by (simp add: unlink_def)
  have c: "ps_mem c = Some (sx_next w + 2)" "sx_objs w4 (sx_next w + 1) = sx_objs w2 (sx_next w + 1)"
    using assms(8) acquire_new [OF assms(1-3) n3] w3 b(3) by (auto simp: unlink_def)
  show ?thesis using n3 b c by (simp add: ref_count_def calc_size_def)
qed

lemma acquired_case:
  assumes "case p of (w, Inl _) \<Rightarrow> False | (w, Inr h) \<Rightarrow> P w h"
  obtains w h where "p = (w, Inr h)" "P w h"
  using assms by (cases p; cases "snd p") auto

lemma stale_drop_runs:
  "case shm_acquire linux ''a'' 8 ShmCreateOrOpen (ss_world shm_empty) of (w1, Inl _) \<Rightarrow> False
   | (w1, Inr a) \<Rightarrow> (case shm_acquire linux ''a'' 8 ShmCreateOrOpen (unlink_by_name linux ''a'' w1) of (w2, Inl _) \<Rightarrow> False
     | (w2, Inr b) \<Rightarrow> (case release_mapping a w2 of (w3, a', prev) \<Rightarrow>
         (case shm_acquire linux ''a'' 8 ShmCreateOrOpen w3 of (w4, Inl _) \<Rightarrow> False | (w4, Inr c) \<Rightarrow> True)))"
  by (simp add: shm_empty_def acquire_new [OF posix_name_a] acquire_existing [OF posix_name_a]
      posix_name_unlink [OF posix_name_a] unlink_def release_mapping_def release_sub_def release_unlink_def add_ref_def
      upd_obj_def)

theorem stale_drop_unlinks_successor_witness:
  "\<exists>w1 w2 w3 w4 a b c a' prev. shm_acquire linux ''a'' 8 ShmCreateOrOpen (ss_world shm_empty) = (w1, Inr a)
     \<and> shm_acquire linux ''a'' 8 ShmCreateOrOpen (unlink_by_name linux ''a'' w1) = (w2, Inr b)
     \<and> release_mapping a w2 = (w3, a', prev) \<and> shm_acquire linux ''a'' 8 ShmCreateOrOpen w3 = (w4, Inr c)
     \<and> ps_mem c \<noteq> ps_mem b \<and> ref_count b w4 = 1"
proof -
  have e: "sx_names (ss_world shm_empty) ''/a'' = None" by (simp add: shm_empty_def)
  obtain w1 a where 1: "shm_acquire linux ''a'' 8 ShmCreateOrOpen (ss_world shm_empty) = (w1, Inr a)"
    "case shm_acquire linux ''a'' 8 ShmCreateOrOpen (unlink_by_name linux ''a'' w1) of (w2, Inl _) \<Rightarrow> False
     | (w2, Inr b) \<Rightarrow> (case release_mapping a w2 of (w3, a', prev) \<Rightarrow>
         (case shm_acquire linux ''a'' 8 ShmCreateOrOpen w3 of (w4, Inl _) \<Rightarrow> False | (w4, Inr c) \<Rightarrow> True))"
    by (rule acquired_case [OF stale_drop_runs])
  obtain w2 b where 2: "shm_acquire linux ''a'' 8 ShmCreateOrOpen (unlink_by_name linux ''a'' w1) = (w2, Inr b)"
    "case release_mapping a w2 of (w3, a', prev) \<Rightarrow>
       (case shm_acquire linux ''a'' 8 ShmCreateOrOpen w3 of (w4, Inl _) \<Rightarrow> False | (w4, Inr c) \<Rightarrow> True)"
    by (rule acquired_case [OF 1(2)])
  obtain w3 a' prev where 3: "release_mapping a w2 = (w3, a', prev)" by (cases "release_mapping a w2") auto
  have 4: "case shm_acquire linux ''a'' 8 ShmCreateOrOpen w3 of (w4, Inl _) \<Rightarrow> False | (w4, Inr c) \<Rightarrow> True"
    using 2(2) 3 by simp
  obtain w4 c where 5: "shm_acquire linux ''a'' 8 ShmCreateOrOpen w3 = (w4, Inr c)"
    by (rule acquired_case [OF 4])
  note r = 1(1) 2(1) 3 5
  then show ?thesis using stale_drop_unlinks_successor [OF posix_name_a _ _ e r] by fastforce
qed

text \<open>
  Growing a shared segment splits its count: the counter lies behind the mapped bytes, so that
  the handle that grew counts itself at the new end and those that did not at the old one.
  When of two handles one has grown and the other is dropped, the old counter says it was the last, and
  the name is unlinked while the grown handle is open.
\<close>

theorem grow_splits_count:
  assumes "posix_name pf name = Inr pn" "name \<noteq> []" "0 < u" "sx_names w pn = None"
    and "\<not> pf_macos pf" "calc_size u < calc_size v"
    and "shm_acquire pf name u ShmCreateOrOpen w = (w1, Inr a)" "shm_acquire pf name u ShmCreateOrOpen w1 = (w2, Inr b)"
    and "shm_grow pf v a w2 = (w3, a', e)" "release_mapping b w3 = (w4, b', prev)"
  shows "e = None \<and> ps_mem a' = ps_mem b \<and> ref_count a' w4 = 1 \<and> prev = 1 \<and> sx_names w4 pn = None"
proof -
  let ?o = "sx_next w"
  define k where "k = acc_of (calc_size u)"
  define l where "l = acc_of (calc_size v)"
  have kl: "k < l" "calc_size u div 4 = Suc k"
    using assms(6) unfolding k_def l_def acc_calc unfolding calc_size_def by simp_all
  have uv: "u < v" using assms(6) div_le_mono [of "v - 1" "u - 1" 4] by (fastforce simp: calc_size_def)
  have w1: "sx_names w1 pn = Some ?o" "sx_objs w1 ?o = \<lparr>ob_size = calc_size u, ob_mem = (\<lambda>_. 0)(k := 1)\<rparr>"
    and a: "a = \<lparr>ps_mem = Some ?o, ps_size = calc_size u, ps_user_size = u, ps_name = pn, ps_prev_ref = 0\<rparr>"
    using assms(7) acquire_new [OF assms(1-4)] by (auto simp: k_def)
  have w2: "w2 = add_ref ?o (calc_size u) 1 w1"
    and b: "ps_mem b = Some ?o" "ps_size b = calc_size u" "ps_name b = pn"
    using assms(8) acquire_existing [OF assms(1-3) w1(1)] w1(2) by auto
  have o2: "sx_names w2 pn = Some ?o" "sx_objs w2 ?o = \<lparr>ob_size = calc_size u, ob_mem = (\<lambda>_. 0)(k := 2)\<rparr>"
    using w1 by (simp_all add: w2 add_ref_def upd_obj_def flip: k_def)
  define wt where "wt = w2\<lparr>sx_objs := (sx_objs w2)(?o := \<lparr>ob_size = calc_size v,
    ob_mem = (\<lambda>i. if i < Suc k then ob_mem (sx_objs w2 ?o) i else 0)\<rparr>)\<rparr>"
  have t: "ftruncate_to_size pf ?o (calc_size v) w2 = (wt, None)"
    using assms(5,6) o2(2) kl(2) by (simp add: ftruncate_to_size_def ftruncate_def upd_obj_def wt_def min_def)
  have "shm_grow pf v a w2 = (add_ref ?o (calc_size u) (- 1) (add_ref ?o (calc_size v) 1 wt),
      a\<lparr>ps_mem := Some ?o, ps_size := calc_size v, ps_user_size := v,
        ps_prev_ref := ob_mem (sx_objs wt ?o) l\<rparr>, None)"
    using uv assms(5,6) o2 by (simp add: shm_grow_def a can_grow_def open_existing_def t l_def Let_def)
  then have g: "e = None" "ps_mem a' = Some ?o" "ps_size a' = calc_size v"
    "w3 = add_ref ?o (calc_size u) (- 1) (add_ref ?o (calc_size v) 1 wt)"
    using assms(9) by auto
  have o3: "ob_mem (sx_objs w3 ?o) k = 1" "ob_mem (sx_objs w3 ?o) l = 1"
    using kl(1) o2(2) by (simp_all add: g(4) wt_def add_ref_def upd_obj_def flip: k_def l_def)
  have r: "prev = 1" "w4 = unlink pn (add_ref ?o (calc_size u) (- 1) w3)"
    using assms(10) b o3(1) by (auto simp: release_mapping_def release_sub_def release_unlink_def k_def)
  have "ob_mem (sx_objs w4 ?o) l = 1"
    using o3(2) kl(1) by (simp add: r(2) unlink_def add_ref_def upd_obj_def flip: k_def l_def)
  moreover have "calc_size v \<noteq> 0" by (simp add: calc_size_def)
  ultimately show ?thesis using g b r by (simp add: ref_count_def unlink_def flip: l_def)
qed

lemma grow_runs:
  "case shm_acquire linux ''a'' 8 ShmCreateOrOpen (ss_world shm_empty) of (w1, Inl _) \<Rightarrow> False
   | (w1, Inr a) \<Rightarrow> (case shm_acquire linux ''a'' 8 ShmCreateOrOpen w1 of (w2, Inl _) \<Rightarrow> False | (w2, Inr b) \<Rightarrow> True)"
  by (simp add: shm_empty_def acquire_new [OF posix_name_a] acquire_existing [OF posix_name_a]
      posix_name_unlink [OF posix_name_a] unlink_def release_mapping_def release_sub_def release_unlink_def add_ref_def
      upd_obj_def)

theorem grow_splits_count_witness:
  "\<exists>w1 w2 w3 w4 a b a' b' prev. shm_acquire linux ''a'' 8 ShmCreateOrOpen (ss_world shm_empty) = (w1, Inr a)
     \<and> shm_acquire linux ''a'' 8 ShmCreateOrOpen w1 = (w2, Inr b) \<and> shm_grow linux 64 a w2 = (w3, a', None)
     \<and> release_mapping b w3 = (w4, b', prev) \<and> ref_count a' w4 = 1 \<and> sx_names w4 ''/a'' = None"
proof -
  have e: "sx_names (ss_world shm_empty) ''/a'' = None" by (simp add: shm_empty_def)
  obtain w1 a w2 b where r: "shm_acquire linux ''a'' 8 ShmCreateOrOpen (ss_world shm_empty) = (w1, Inr a)"
    "shm_acquire linux ''a'' 8 ShmCreateOrOpen w1 = (w2, Inr b)"
    using grow_runs by (elim acquired_case) blast
  obtain w3 a' x w4 b' prev where g: "shm_grow linux 64 a w2 = (w3, a', x)" "release_mapping b w3 = (w4, b', prev)"
    by (metis prod.exhaust)
  have "\<not> pf_macos linux" "calc_size 8 < calc_size 64" by (simp_all add: linux_def calc_size_def)
  from grow_splits_count [OF posix_name_a _ _ e this r g] show ?thesis using r g by fastforce
qed

text \<open>
  Dropping races with opening: between the decrement and the unlink of the last handle another
  process may open the segment. It maps the object of the first one, counts itself as its
  creator (a previous count of 0), and then loses the name; whoever opens the name next maps another object.
\<close>

theorem drop_races_with_open:
  assumes "posix_name pf name = Inr pn" "name \<noteq> []" "0 < u" "sx_names w pn = None"
    and "shm_acquire pf name u ShmCreateOrOpen w = (w1, Inr a)" "release_sub a w1 = (w2, prev)"
    and "shm_acquire pf name u ShmCreateOrOpen w2 = (w3, Inr b)"
    and "shm_acquire pf name u ShmCreateOrOpen (release_unlink a prev w3) = (w4, Inr c)"
  shows "ps_mem b = ps_mem a \<and> ps_prev_ref b = 0 \<and> ps_mem c \<noteq> ps_mem b \<and> ref_count b w4 = 1"
proof -
  let ?o = "sx_next w"
  have a: "ps_mem a = Some ?o" "ps_size a = calc_size u" "ps_name a = pn"
    and w1: "sx_names w1 pn = Some ?o" "ob_size (sx_objs w1 ?o) = calc_size u"
      "ob_mem (sx_objs w1 ?o) (acc_of (calc_size u)) = 1" "sx_next w1 = ?o + 1"
    using assms(5) acquire_new [OF assms(1-4)] by auto
  have w2: "w2 = add_ref ?o (calc_size u) (- 1) w1" "prev = 1" using assms(6) a w1(3) by (auto simp: release_sub_def)
  have n2: "sx_names w2 pn = Some ?o" "calc_size u \<le> ob_size (sx_objs w2 ?o)" using w1 by (simp_all add: w2)
  have b: "ps_mem b = Some ?o" "ps_size b = calc_size u" "ps_prev_ref b = 0" "w3 = add_ref ?o (calc_size u) 1 w2"
    using assms(7) acquire_existing [OF assms(1-3) n2] w1(3) w2(1) by auto
  have n3: "sx_names (release_unlink a prev w3) pn = None" using a w2(2) by (simp add: release_unlink_def unlink_def)
  have r: "sx_next (release_unlink a prev w3) = ?o + 1" "sx_objs (release_unlink a prev w3) = sx_objs w3"
    using w1(4) by (simp_all add: release_unlink_def unlink_def b(4) w2(1))
  have c: "ps_mem c = Some (?o + 1)" "sx_objs w4 ?o = sx_objs w3 ?o"
    using assms(8) acquire_new [OF assms(1-3) n3] r by auto
  show ?thesis using a b c w1(3) by (simp add: ref_count_def w2(1)) (simp add: calc_size_def)
qed

lemma race_runs:
  "case shm_acquire linux ''a'' 8 ShmCreateOrOpen (ss_world shm_empty) of (w1, Inl _) \<Rightarrow> False
   | (w1, Inr a) \<Rightarrow> (case release_sub a w1 of (w2, prev) \<Rightarrow>
      (case shm_acquire linux ''a'' 8 ShmCreateOrOpen w2 of (w3, Inl _) \<Rightarrow> False
       | (w3, Inr b) \<Rightarrow> (case shm_acquire linux ''a'' 8 ShmCreateOrOpen (release_unlink a prev w3) of
           (w4, Inl _) \<Rightarrow> False | (w4, Inr c) \<Rightarrow> True)))"
  by (simp add: shm_empty_def acquire_new [OF posix_name_a] acquire_existing [OF posix_name_a]
      posix_name_unlink [OF posix_name_a] unlink_def release_mapping_def release_sub_def release_unlink_def add_ref_def
      upd_obj_def)

theorem drop_races_with_open_witness:
  "\<exists>w1 w2 w3 w4 a b c prev. shm_acquire linux ''a'' 8 ShmCreateOrOpen (ss_world shm_empty) = (w1, Inr a)
     \<and> release_sub a w1 = (w2, prev) \<and> shm_acquire linux ''a'' 8 ShmCreateOrOpen w2 = (w3, Inr b)
     \<and> shm_acquire linux ''a'' 8 ShmCreateOrOpen (release_unlink a prev w3) = (w4, Inr c) \<and> ps_mem c \<noteq> ps_mem b"
proof -
  have e: "sx_names (ss_world shm_empty) ''/a'' = None" by (simp add: shm_empty_def)
  obtain w1 a where 1: "shm_acquire linux ''a'' 8 ShmCreateOrOpen (ss_world shm_empty) = (w1, Inr a)"
    "case release_sub a w1 of (w2, prev) \<Rightarrow>
      (case shm_acquire linux ''a'' 8 ShmCreateOrOpen w2 of (w3, Inl _) \<Rightarrow> False
       | (w3, Inr b) \<Rightarrow> (case shm_acquire linux ''a'' 8 ShmCreateOrOpen (release_unlink a prev w3) of
           (w4, Inl _) \<Rightarrow> False | (w4, Inr c) \<Rightarrow> True))"
    by (rule acquired_case [OF race_runs])
  obtain w2 prev where 2: "release_sub a w1 = (w2, prev)" by fastforce
  have 3: "case shm_acquire linux ''a'' 8 ShmCreateOrOpen w2 of (w3, Inl _) \<Rightarrow> False
     | (w3, Inr b) \<Rightarrow> (case shm_acquire linux ''a'' 8 ShmCreateOrOpen (release_unlink a prev w3) of
         (w4, Inl _) \<Rightarrow> False | (w4, Inr c) \<Rightarrow> True)"
    using 1(2) 2 by simp
  obtain w3 b where 4: "shm_acquire linux ''a'' 8 ShmCreateOrOpen w2 = (w3, Inr b)"
    "case shm_acquire linux ''a'' 8 ShmCreateOrOpen (release_unlink a prev w3) of
       (w4, Inl _) \<Rightarrow> False | (w4, Inr c) \<Rightarrow> True"
    by (rule acquired_case [OF 3])
  obtain w4 c where 5: "shm_acquire linux ''a'' 8 ShmCreateOrOpen (release_unlink a prev w3) = (w4, Inr c)"
    by (rule acquired_case [OF 4(2)])
  note r = 1(1) 2 4(1) 5
  then show ?thesis using drop_races_with_open [OF posix_name_a _ _ e r] by fastforce
qed

end
