(* ===== verification/Shm_Cache.thy ===== *)
theory Shm_Cache
  imports Posix_Shm
begin

text \<open>
  The process-local caches of \<open>platform/posix.rs\<close>, one for mutexes and one for condition variables: the handles of one kind and name that
  a process opens share one mapping. An entry is reference counted twice, by its users (\<open>local_ref\<close>)
  and by the \<open>Arc\<close>s to it; the segment is released with the last \<open>Arc\<close>. The users
  are the \<open>PlatformMutex\<close> and \<open>PlatformCondition\<close> handles.
\<close>

section \<open>The cache\<close>

record cached_shm =
  ca_shm :: platform_shm
  ca_local_ref :: nat
  ca_strong :: nat

text \<open>\<open>mutex_cache\<close> and \<open>cond_cache\<close> are two maps by name: a key is the cache and the name in it.\<close>

datatype cache_kind = Mutex_Cache | Cond_Cache

datatype cache_key = In_Cache cache_kind (key_name: string)

record cache_world =
  cw_shm :: shm_world
  cw_map :: "cache_key \<rightharpoonup> nat"
  cw_entries :: "nat \<Rightarrow> cached_shm"
  cw_next :: nat

datatype cache_error = ShmFailed shm_error | InitFailed

definition upd_entry :: "nat \<Rightarrow> (cached_shm \<Rightarrow> cached_shm) \<Rightarrow> cache_world \<Rightarrow> cache_world" where
  "upd_entry x f w = w\<lparr>cw_entries := (cw_entries w)(x := f (cw_entries w x))\<rparr>"

text \<open>\<open>init_ok\<close> is whether the initialiser succeeds; it runs only for the creator of the segment.\<close>

definition cached_shm_acquire ::
  "platform \<Rightarrow> cache_key \<Rightarrow> nat \<Rightarrow> bool \<Rightarrow> cache_world \<Rightarrow> cache_world \<times> (cache_error + nat)" where
  "cached_shm_acquire pf key sz init_ok w = (case cw_map w key of
     Some x \<Rightarrow> (upd_entry x (\<lambda>e. e\<lparr>ca_local_ref := ca_local_ref e + 1, ca_strong := ca_strong e + 1\<rparr>) w, Inr x)
   | None \<Rightarrow>
       (case shm_acquire pf (key_name key) sz ShmCreateOrOpen (cw_shm w) of
          (sw, Inl e) \<Rightarrow> (w\<lparr>cw_shm := sw\<rparr>, Inl (ShmFailed e))
        | (sw, Inr h) \<Rightarrow>
            if ps_prev_ref h = 0 \<and> \<not> init_ok then (w\<lparr>cw_shm := fst (release_mapping h sw)\<rparr>, Inl InitFailed)
            else (w\<lparr>cw_shm := sw, cw_map := (cw_map w)(key \<mapsto> cw_next w),
                   cw_entries := (cw_entries w)(cw_next w := \<lparr>ca_shm = h, ca_local_ref = 1, ca_strong = 2\<rparr>),
                   cw_next := cw_next w + 1\<rparr>, Inr (cw_next w))))"

definition drop_arc :: "nat \<Rightarrow> cache_world \<Rightarrow> cache_world" where
  "drop_arc x w =
     (let e = cw_entries w x; w = upd_entry x (\<lambda>e. e\<lparr>ca_strong := ca_strong e - 1\<rparr>) w
      in if ca_strong e \<le> 1 then w\<lparr>cw_shm := fst (release_mapping (ca_shm e) (cw_shm w))\<rparr> else w)"

definition cached_shm_purge :: "cache_key \<Rightarrow> cache_world \<Rightarrow> cache_world" where
  "cached_shm_purge key w = (case cw_map w key of None \<Rightarrow> w
     | Some x \<Rightarrow> drop_arc x (w\<lparr>cw_map := (cw_map w)(key := None)\<rparr>))"

definition cached_shm_release :: "cache_key \<Rightarrow> cache_world \<Rightarrow> cache_world" where
  "cached_shm_release key w = (case cw_map w key of None \<Rightarrow> w
     | Some x \<Rightarrow>
         let prev = ca_local_ref (cw_entries w x);
             w = upd_entry x (\<lambda>e. e\<lparr>ca_local_ref := ca_local_ref e - 1\<rparr>) w
         in if prev \<le> 1 then cached_shm_purge key w else w)"

text \<open>\<open>Drop\<close> of a mutex or condition handle: its body, then its \<open>Arc\<close>.\<close>

definition handle_drop :: "cache_key \<Rightarrow> nat \<Rightarrow> cache_world \<Rightarrow> cache_world" where
  "handle_drop key x w = drop_arc x (cached_shm_release key w)"

definition sync_clear_storage :: "platform \<Rightarrow> cache_key \<Rightarrow> cache_world \<Rightarrow> cache_world" where
  "sync_clear_storage pf key w =
     (let w = cached_shm_purge key w in w\<lparr>cw_shm := unlink_by_name pf (key_name key) (cw_shm w)\<rparr>)"

section \<open>One mapping per kind and name\<close>

record cache_sys =
  cy_world :: cache_world
  cy_users :: "nat \<Rightarrow> (cache_key \<times> nat) option"

inductive cache_step :: "platform \<Rightarrow> cache_sys \<Rightarrow> cache_sys \<Rightarrow> bool" for pf where
  cache_open: "cy_users s i = None \<Longrightarrow> cached_shm_acquire pf key sz ok (cy_world s) = (w, Inr x) \<Longrightarrow>
    cache_step pf s \<lparr>cy_world = w, cy_users = (cy_users s)(i \<mapsto> (key, x))\<rparr>"
| cache_fail: "cached_shm_acquire pf key sz ok (cy_world s) = (w, Inl e) \<Longrightarrow>
    cache_step pf s (s\<lparr>cy_world := w\<rparr>)"
| cache_drop: "cy_users s i = Some (key, x) \<Longrightarrow>
    cache_step pf s \<lparr>cy_world = handle_drop key x (cy_world s), cy_users = (cy_users s)(i := None)\<rparr>"

definition cache_empty :: cache_sys where
  "cache_empty = \<lparr>cy_world = \<lparr>cw_shm = ss_world shm_empty, cw_map = Map.empty,
     cw_entries = (\<lambda>_. \<lparr>ca_shm = \<lparr>ps_mem = None, ps_size = 0, ps_user_size = 0, ps_name = [], ps_prev_ref = 0\<rparr>,
       ca_local_ref = 0, ca_strong = 0\<rparr>), cw_next = 0\<rparr>, cy_users = Map.empty\<rparr>"

definition entry_users :: "cache_sys \<Rightarrow> cache_key \<Rightarrow> nat set" where
  "entry_users s key = {i. \<exists>x. cy_users s i = Some (key, x)}"

definition cache_ok :: "cache_sys \<Rightarrow> bool" where
  "cache_ok s \<longleftrightarrow> finite (dom (cy_users s))
     \<and> (\<forall>i key x. cy_users s i = Some (key, x) \<longrightarrow> cw_map (cy_world s) key = Some x)
     \<and> (\<forall>key x. cw_map (cy_world s) key = Some x \<longrightarrow> x < cw_next (cy_world s)
          \<and> ca_local_ref (cw_entries (cy_world s) x) = card (entry_users s key)
          \<and> ca_strong (cw_entries (cy_world s) x) = Suc (card (entry_users s key)) \<and> entry_users s key \<noteq> {})
     \<and> (\<forall>n m x. cw_map (cy_world s) n = Some x \<longrightarrow> cw_map (cy_world s) m = Some x \<longrightarrow> n = m)"

lemma cache_okD:
  assumes "cache_ok s"
  shows "finite (dom (cy_users s))"
    "cy_users s i = Some (key, x) \<Longrightarrow> cw_map (cy_world s) key = Some x"
    "cw_map (cy_world s) key = Some x \<Longrightarrow> x < cw_next (cy_world s)"
    "cw_map (cy_world s) key = Some x \<Longrightarrow> ca_local_ref (cw_entries (cy_world s) x) = card (entry_users s key)"
    "cw_map (cy_world s) key = Some x \<Longrightarrow> ca_strong (cw_entries (cy_world s) x) = Suc (card (entry_users s key))"
    "cw_map (cy_world s) key = Some x \<Longrightarrow> entry_users s key \<noteq> {}"
    "cw_map (cy_world s) n = Some x \<Longrightarrow> cw_map (cy_world s) m = Some x \<Longrightarrow> n = m"
  using assms unfolding cache_ok_def by blast+

lemma cache_okI:
  assumes "finite (dom (cy_users s))"
    "\<And>i key x. cy_users s i = Some (key, x) \<Longrightarrow> cw_map (cy_world s) key = Some x"
    "\<And>key x. cw_map (cy_world s) key = Some x \<Longrightarrow> x < cw_next (cy_world s)
       \<and> ca_local_ref (cw_entries (cy_world s) x) = card (entry_users s key)
       \<and> ca_strong (cw_entries (cy_world s) x) = Suc (card (entry_users s key)) \<and> entry_users s key \<noteq> {}"
    "\<And>n m x. cw_map (cy_world s) n = Some x \<Longrightarrow> cw_map (cy_world s) m = Some x \<Longrightarrow> n = m"
  shows "cache_ok s"
  unfolding cache_ok_def using assms by blast

lemma entry_users_upd:
  "entry_users \<lparr>cy_world = w, cy_users = us(i := v)\<rparr> key =
     ({j. \<exists>x. us j = Some (key, x)} - {i}) \<union> (case v of Some (n, x) \<Rightarrow> if n = key then {i} else {} | None \<Rightarrow> {})"
  by (rule set_eqI, cases v) (auto simp: entry_users_def split: if_splits)

lemma entry_users_finite: "cache_ok s \<Longrightarrow> finite (entry_users s key)"
  by (rule finite_subset [of _ "dom (cy_users s)"]) (auto simp: entry_users_def dest: cache_okD(1))

lemma cache_entries [simp]:
  "cw_map (upd_entry x f w) = cw_map w" "cw_next (upd_entry x f w) = cw_next w"
  "cw_entries (upd_entry x f w) = (cw_entries w)(x := f (cw_entries w x))"
  "cw_map (drop_arc x w) = cw_map w" "cw_next (drop_arc x w) = cw_next w"
  "cw_entries (drop_arc x w) = (cw_entries w)(x := (cw_entries w x)\<lparr>ca_strong := ca_strong (cw_entries w x) - 1\<rparr>)"
  by (simp_all add: upd_entry_def drop_arc_def Let_def)

lemma cache_ok_open:
  assumes ok: "cache_ok s" and i: "cy_users s i = None"
    and a: "cached_shm_acquire pf key sz init_ok (cy_world s) = (w, Inr x)"
  shows "cache_ok \<lparr>cy_world = w, cy_users = (cy_users s)(i \<mapsto> (key, x))\<rparr>" (is "cache_ok ?s")
proof -
  note d = cache_okD [OF ok]
  have iU: "i \<notin> entry_users s m" for m using i by (simp add: entry_users_def)
  have u: "entry_users ?s m = (if m = key then insert i (entry_users s key) else entry_users s m)" for m
    using i by (auto simp: entry_users_upd entry_users_def)
  have c: "card (insert i (entry_users s key)) = Suc (card (entry_users s key))"
    using iU entry_users_finite [OF ok] by simp
  show ?thesis
  proof (cases "cw_map (cy_world s) key")
    case None
    then have e: "entry_users s key = {}" using d(2) by (auto simp: entry_users_def)
    have w: "x = cw_next (cy_world s)" "cw_map w = (cw_map (cy_world s))(key \<mapsto> x)" "cw_next w = Suc x"
      "ca_local_ref (cw_entries w x) = 1" "ca_strong (cw_entries w x) = 2"
      "\<And>y. y \<noteq> x \<Longrightarrow> cw_entries w y = cw_entries (cy_world s) y"
      using a None by (auto simp: cached_shm_acquire_def split: prod.splits sum.splits if_splits)
    have fresh: "cw_map (cy_world s) m \<noteq> Some x" for m using d(3) [of m x] w(1) by auto
    show ?thesis
    proof (rule cache_okI)
      show "finite (dom (cy_users ?s))" using d(1) by simp
      show "cw_map (cy_world ?s) m = Some y" if "cy_users ?s j = Some (m, y)" for j m y
        using that d(2) [of j m y] None by (auto simp: w(2) split: if_splits)
      show "y < cw_next (cy_world ?s) \<and> ca_local_ref (cw_entries (cy_world ?s) y) = card (entry_users ?s m)
         \<and> ca_strong (cw_entries (cy_world ?s) y) = Suc (card (entry_users ?s m)) \<and> entry_users ?s m \<noteq> {}"
        if m: "cw_map (cy_world ?s) m = Some y" for m y
      proof (cases "m = key")
        case True
        then have "y = x" using m by (simp add: w(2))
        then show ?thesis using True w(3-5) by (simp add: u e)
      next
        case False
        then have m': "cw_map (cy_world s) m = Some y" using m by (simp add: w(2))
        then have "y \<noteq> x" using fresh by auto
        moreover have "entry_users ?s m = entry_users s m" using False u by simp
        ultimately show ?thesis using d(3-6) [OF m'] w(1,3,6) by simp
      qed
      show "n = m" if "cw_map (cy_world ?s) n = Some y" "cw_map (cy_world ?s) m = Some y" for n m y
        using that fresh d(7) by (auto simp: w(2) split: if_splits)
    qed
  next
    case (Some y)
    then have "x = y" "w = upd_entry x (\<lambda>e. e\<lparr>ca_local_ref := ca_local_ref e + 1, ca_strong := ca_strong e + 1\<rparr>) (cy_world s)"
      using a by (auto simp: cached_shm_acquire_def)
    then have w: "x = y" "cw_map w = cw_map (cy_world s)" "cw_next w = cw_next (cy_world s)"
      "cw_entries w = (cw_entries (cy_world s))(x := (cw_entries (cy_world s) x)
         \<lparr>ca_local_ref := ca_local_ref (cw_entries (cy_world s) x) + 1, ca_strong := ca_strong (cw_entries (cy_world s) x) + 1\<rparr>)"
      by simp_all
    show ?thesis
    proof (rule cache_okI)
      show "finite (dom (cy_users ?s))" using d(1) by simp
      show "cw_map (cy_world ?s) m = Some z" if "cy_users ?s j = Some (m, z)" for j m z
        using that d(2) [of j m z] Some w(1) by (auto simp: w(2) split: if_splits)
      show "z < cw_next (cy_world ?s) \<and> ca_local_ref (cw_entries (cy_world ?s) z) = card (entry_users ?s m)
         \<and> ca_strong (cw_entries (cy_world ?s) z) = Suc (card (entry_users ?s m)) \<and> entry_users ?s m \<noteq> {}"
        if "cw_map (cy_world ?s) m = Some z" for m z
      proof -
        have m: "cw_map (cy_world s) m = Some z" using that by (simp add: w(2))
        have "m = key \<longleftrightarrow> z = x" using d(7) [OF m, of key] Some m w(1) by auto
        then show ?thesis using d(3-6) [OF m] c by (auto simp: w(3,4) u)
      qed
      show "n = m" if "cw_map (cy_world ?s) n = Some z" "cw_map (cy_world ?s) m = Some z" for n m z
        using that d(7) by (simp add: w(2))
    qed
  qed
qed

lemma cache_ok_fail:
  assumes "cache_ok s" "cached_shm_acquire pf key sz init_ok (cy_world s) = (w, Inl e)"
  shows "cache_ok (s\<lparr>cy_world := w\<rparr>)"
proof -
  have "cw_map w = cw_map (cy_world s)" "cw_entries w = cw_entries (cy_world s)" "cw_next w = cw_next (cy_world s)"
    using assms(2) by (auto simp: cached_shm_acquire_def split: option.splits prod.splits sum.splits if_splits)
  then show ?thesis using assms(1) by (simp add: cache_ok_def entry_users_def)
qed

lemma cache_ok_drop:
  assumes ok: "cache_ok s" and i: "cy_users s i = Some (key, x)"
  shows "cache_ok \<lparr>cy_world = handle_drop key x (cy_world s), cy_users = (cy_users s)(i := None)\<rparr>" (is "cache_ok ?s")
proof -
  note d = cache_okD [OF ok]
  have x: "cw_map (cy_world s) key = Some x" by (rule d(2) [OF i])
  have iU: "i \<in> entry_users s key" "\<And>m. m \<noteq> key \<Longrightarrow> i \<notin> entry_users s m" using i by (auto simp: entry_users_def)
  have u: "entry_users ?s m = (if m = key then entry_users s key - {i} else entry_users s m)" for m
    using iU(2) [of m] by (auto simp: entry_users_upd entry_users_def)
  have c: "card (entry_users s key - {i}) = card (entry_users s key) - 1" by (rule card_Diff_singleton [OF iU(1)])
  let ?w = "handle_drop key x (cy_world s)"
  have map: "cw_map ?w = (if card (entry_users s key) \<le> 1 then (cw_map (cy_world s))(key := None) else cw_map (cy_world s))"
    "cw_next ?w = cw_next (cy_world s)" "\<And>y. y \<noteq> x \<Longrightarrow> cw_entries ?w y = cw_entries (cy_world s) y"
    "1 < card (entry_users s key) \<Longrightarrow> ca_local_ref (cw_entries ?w x) = card (entry_users s key) - 1
       \<and> ca_strong (cw_entries ?w x) = card (entry_users s key)"
    using x d(4,5) [OF x] by (auto simp: handle_drop_def cached_shm_release_def cached_shm_purge_def Let_def)
  show ?thesis
  proof (rule cache_okI)
    show "finite (dom (cy_users ?s))" using d(1) by simp
    show "cw_map (cy_world ?s) m = Some z" if "cy_users ?s j = Some (m, z)" for j m z
    proof -
      have j: "cy_users s j = Some (m, z)" "j \<noteq> i" using that by (auto split: if_splits)
      have "m \<noteq> key" if "card (entry_users s key) \<le> 1"
      proof
        assume "m = key"
        then have "{i, j} \<subseteq> entry_users s key" using iU(1) j(1) by (auto simp: entry_users_def)
        from card_mono [OF entry_users_finite [OF ok] this] show False using j(2) that by simp
      qed
      then show ?thesis using d(2) [OF j(1)] by (auto simp: map(1))
    qed
    show "z < cw_next (cy_world ?s) \<and> ca_local_ref (cw_entries (cy_world ?s) z) = card (entry_users ?s m)
       \<and> ca_strong (cw_entries (cy_world ?s) z) = Suc (card (entry_users ?s m)) \<and> entry_users ?s m \<noteq> {}"
      if "cw_map (cy_world ?s) m = Some z" for m z
    proof (cases "m = key")
      case True
      then have n: "1 < card (entry_users s key)" "z = x" using that x by (auto simp: map(1) split: if_splits)
      have "entry_users s key - {i} \<noteq> {}" using n(1) c by (intro notI) simp
      then show ?thesis using True n map(2,4) d(3) [OF x] c by (simp add: u)
    next
      case False
      then have m: "cw_map (cy_world s) m = Some z" using that by (simp add: map(1) split: if_splits)
      have "z \<noteq> x"
      proof
        assume "z = x"
        then have "m = key" using d(7) [OF m] x by blast
        then show False using False by simp
      qed
      then show ?thesis using False d(3-6) [OF m] map(2,3) by (simp add: u)
    qed
    show "n = m" if "cw_map (cy_world ?s) n = Some z" "cw_map (cy_world ?s) m = Some z" for n m z
      using that d(7) by (auto simp: map(1) split: if_splits)
  qed
qed

lemma cache_step_ok: "cache_ok s \<Longrightarrow> cache_step pf s s' \<Longrightarrow> cache_ok s'"
  by (erule cache_step.cases) (auto intro: cache_ok_open cache_ok_fail cache_ok_drop)

lemma cache_empty_ok: "cache_ok cache_empty"
  by (simp add: cache_ok_def cache_empty_def)

interpretation cache: invariant_system cache_empty "cache_step pf" cache_ok for pf
  by unfold_locales (rule cache_empty_ok, rule cache_step_ok)


lemma cached_new:
  assumes "posix_name pf (key_name key) = Inr pn" "key_name key \<noteq> []" "0 < sz" "sx_names (cw_shm w) pn = None" "cw_map w key = None"
  shows "cached_shm_acquire pf key sz True w =
    (w\<lparr>cw_shm := (cw_shm w)\<lparr>sx_names := (sx_names (cw_shm w))(pn \<mapsto> sx_next (cw_shm w)),
         sx_objs := (sx_objs (cw_shm w))(sx_next (cw_shm w) :=
           \<lparr>ob_size = calc_size sz, ob_mem = (\<lambda>_. 0)(acc_of (calc_size sz) := 1)\<rparr>), sx_next := sx_next (cw_shm w) + 1\<rparr>,
       cw_map := (cw_map w)(key \<mapsto> cw_next w),
       cw_entries := (cw_entries w)(cw_next w := \<lparr>ca_shm = \<lparr>ps_mem = Some (sx_next (cw_shm w)), ps_size = calc_size sz,
         ps_user_size = sz, ps_name = pn, ps_prev_ref = 0\<rparr>, ca_local_ref = 1, ca_strong = 2\<rparr>),
       cw_next := cw_next w + 1\<rparr>, Inr (cw_next w))"
  using assms by (simp add: cached_shm_acquire_def acquire_new [OF assms(1-4)])


section \<open>A handle that outlives a clear\<close>

text \<open>
  Clearing a mutex's storage while a handle is open splits the name: a handle opened afterwards has
  a new entry and a new segment, but dropping the old handle releases by name, so that it takes the new entry out of the cache and
  unlinks the new segment. The next handle of the process has a third segment: two handles of one name, both open, on two mutexes.
\<close>

theorem cleared_mutex_splits:
  assumes "posix_name pf (key_name key) = Inr pn" "key_name key \<noteq> []" "0 < sz" "sx_names (cw_shm w) pn = None" "cw_map w key = None"
    and "cached_shm_acquire pf key sz True w = (w1, Inr x)"
    and "cached_shm_acquire pf key sz True (sync_clear_storage pf key w1) = (w2, Inr y)"
    and "cached_shm_acquire pf key sz True (handle_drop key x w2) = (w3, Inr z)"
  shows "z \<noteq> y \<and> 0 < ca_strong (cw_entries w3 y)
    \<and> ps_mem (ca_shm (cw_entries w3 z)) \<noteq> ps_mem (ca_shm (cw_entries w3 y))"
proof -
  let ?o = "sx_next (cw_shm w)" and ?n = "cw_next w" and ?k = "acc_of (calc_size sz)"
  have w1: "x = ?n" "cw_map w1 key = Some x" "cw_next w1 = x + 1" "sx_next (cw_shm w1) = ?o + 1"
    "cw_entries w1 x = \<lparr>ca_shm = \<lparr>ps_mem = Some ?o, ps_size = calc_size sz, ps_user_size = sz, ps_name = pn,
       ps_prev_ref = 0\<rparr>, ca_local_ref = 1, ca_strong = 2\<rparr>" "ob_mem (sx_objs (cw_shm w1) ?o) ?k = 1"
    using assms(6) cached_new [OF assms(1-5)] by auto
  define wc where "wc = sync_clear_storage pf key w1"
  have wc: "cw_map wc key = None" "cw_next wc = x + 1" "sx_next (cw_shm wc) = ?o + 1" "sx_names (cw_shm wc) pn = None"
    "sx_objs (cw_shm wc) = sx_objs (cw_shm w1)" "ca_strong (cw_entries wc x) = 1" "ca_shm (cw_entries wc x) = ca_shm (cw_entries w1 x)"
    using w1 by (simp_all add: wc_def sync_clear_storage_def cached_shm_purge_def drop_arc_def upd_entry_def Let_def
        posix_name_unlink [OF assms(1)] unlink_def)
  have w2: "y = x + 1" "cw_map w2 key = Some y" "cw_next w2 = x + 2" "sx_next (cw_shm w2) = ?o + 2"
    "ca_strong (cw_entries w2 y) = 2" "ca_local_ref (cw_entries w2 y) = 1" "ps_mem (ca_shm (cw_entries w2 y)) = Some (?o + 1)"
    "cw_entries w2 x = cw_entries wc x" "sx_objs (cw_shm w2) ?o = sx_objs (cw_shm wc) ?o"
    using assms(7) cached_new [OF assms(1-3) wc(4,1)] wc(2,3) by (auto simp flip: wc_def)
  define wd where "wd = handle_drop key x w2"
  have "cw_shm wd = fst (release_mapping (ca_shm (cw_entries w1 x)) (cw_shm w2))"
    using w2 wc(6,7)
    by (simp add: wd_def handle_drop_def cached_shm_release_def cached_shm_purge_def drop_arc_def upd_entry_def Let_def)
  then have wd: "cw_shm wd = unlink pn (add_ref ?o (calc_size sz) (- 1) (cw_shm w2))"
    using w1(5,6) w2(9) wc(5) by (simp add: release_mapping_def release_sub_def release_unlink_def)
  have we: "cw_map wd key = None" "cw_next wd = x + 2" "ca_strong (cw_entries wd y) = 1"
    "ca_shm (cw_entries wd y) = ca_shm (cw_entries w2 y)"
    using w2 by (simp_all add: wd_def handle_drop_def cached_shm_release_def cached_shm_purge_def)
  have n: "sx_names (cw_shm wd) pn = None" "sx_next (cw_shm wd) = ?o + 2"
    using w2(4) by (simp_all add: wd unlink_def)
  have "z = x + 2" "ps_mem (ca_shm (cw_entries w3 z)) = Some (?o + 2)" "cw_entries w3 y = cw_entries wd y"
    using assms(8) cached_new [OF assms(1-3) n(1) we(1)] n(2) we(2) w2(1) by (auto simp flip: wd_def)
  then show ?thesis using we w2(1,7) by simp
qed

theorem cleared_mutex_splits_witness:
  "\<exists>w1 w2 w3 x y z. cached_shm_acquire linux (In_Cache Mutex_Cache ''a'') 8 True (cy_world cache_empty) = (w1, Inr x)
     \<and> cached_shm_acquire linux (In_Cache Mutex_Cache ''a'') 8 True (sync_clear_storage linux (In_Cache Mutex_Cache ''a'') w1) = (w2, Inr y)
     \<and> cached_shm_acquire linux (In_Cache Mutex_Cache ''a'') 8 True (handle_drop (In_Cache Mutex_Cache ''a'') x w2) = (w3, Inr z)
     \<and> ps_mem (ca_shm (cw_entries w3 z)) \<noteq> ps_mem (ca_shm (cw_entries w3 y))"
proof -
  have n: "posix_name linux (key_name (In_Cache Mutex_Cache ''a'')) = Inr ''/a''" by (simp add: posix_name_a)
  have e: "sx_names (cw_shm (cy_world cache_empty)) ''/a'' = None" "cw_map (cy_world cache_empty) (In_Cache Mutex_Cache ''a'') = None"
    by (simp_all add: cache_empty_def shm_empty_def)
  note defs = sync_clear_storage_def handle_drop_def cached_shm_release_def cached_shm_purge_def drop_arc_def upd_entry_def
    Let_def posix_name_unlink [OF posix_name_a] unlink_def release_mapping_def release_sub_def release_unlink_def add_ref_def
    upd_obj_def cache_empty_def shm_empty_def
  obtain w1 x where 1: "cached_shm_acquire linux (In_Cache Mutex_Cache ''a'') 8 True (cy_world cache_empty) = (w1, Inr x)"
    using cached_new [OF n _ _ e, of 8] by simp
  obtain w2 y where 2: "cached_shm_acquire linux (In_Cache Mutex_Cache ''a'') 8 True (sync_clear_storage linux (In_Cache Mutex_Cache ''a'') w1) = (w2, Inr y)"
    using 1 cached_new [OF n _ _ e, of 8] by (auto simp: cached_new [OF n] defs)
  obtain w3 z where 3: "cached_shm_acquire linux (In_Cache Mutex_Cache ''a'') 8 True (handle_drop (In_Cache Mutex_Cache ''a'') x w2) = (w3, Inr z)"
    using 1 2 cached_new [OF n _ _ e, of 8] by (auto simp: cached_new [OF n] defs)
  show ?thesis using cleared_mutex_splits [OF n _ _ e 1 2 3] 1 2 3 by fastforce
qed

end
