(* ===== verification/Notify.thy ===== *)
theory Notify
  imports Names
begin

text \<open>
  \<open>notify.rs\<close> with named FIFOs, and \<open>async_recv.rs\<close> on top of it: a sender pokes the FIFO of every
  connected receiver after it has published a message; a receiver that has opened its FIFO can wait for
  it in a reactor. The file system is a table of paths and the FIFOs behind them; a
  FIFO outlives its path as long as it is open. The environment variable for the directory is a
  parameter, and refusals of the kernel other than those of FIFOs are not modelled.
\<close>

unbundle bit_operations_syntax

section \<open>Names\<close>

definition notify_hash :: "string \<Rightarrow> string \<Rightarrow> string" where
  "notify_hash pfx name = to_hex (fnv1a_64 (pfx @ ''__THOTH_SHM__NOTIFY__'' @ name))"

definition notify_key :: "string \<Rightarrow> string \<Rightarrow> string" where
  "notify_key pfx name = ''thoth.ntf.'' @ notify_hash pfx name"

text \<open>The second golden value of the unit test is the hash under an earlier common part of the names, \<open>__IPC_SHM__\<close>.\<close>

lemma notify_goldens:
  "notify_hash [] ''xchan'' = ''098e889ce378ae04''"
  "notify_key [] ''xchan'' = name_golden_notify_key"
  "notify_hash ''app'' ''st.agent.cmd'' = ''d2e8d0cdf2e4aaf9''"
  "to_hex (fnv1a_64 ''app__IPC_SHM__NOTIFY__st.agent.cmd'') = ''ad223836b598bfaa''"
  by code_simp+

definition MAX_SLOTS :: nat where "MAX_SLOTS = 32"

text \<open>\<open>None\<close> is the \<open>-1\<close> of the code.\<close>

definition slot_of :: "u32 \<Rightarrow> nat option" where
  "slot_of b = (if b = 0 then None else Some (trailing_zeros b))"

definition fifo_path :: "string option \<Rightarrow> string \<Rightarrow> string \<Rightarrow> nat \<Rightarrow> string" where
  "fifo_path env pfx name slot =
     (case env of Some d \<Rightarrow> if d = [] then ''/tmp'' else d | None \<Rightarrow> ''/tmp'')
     @ ''/thothntf_'' @ notify_hash pfx name @ ''.'' @ dec slot"

section \<open>FIFOs\<close>

record fifo =
  ff_readers :: nat
  ff_bytes :: nat

record fifo_fs =
  fs_paths :: "string \<rightharpoonup> nat"
  fs_nodes :: "nat \<Rightarrow> fifo"
  fs_next :: nat

definition upd_node :: "nat \<Rightarrow> (fifo \<Rightarrow> fifo) \<Rightarrow> fifo_fs \<Rightarrow> fifo_fs" where
  "upd_node n f fs = fs\<lparr>fs_nodes := (fs_nodes fs)(n := f (fs_nodes fs n))\<rparr>"

definition mkfifo :: "string \<Rightarrow> fifo_fs \<Rightarrow> fifo_fs" where
  "mkfifo p fs = (case fs_paths fs p of Some _ \<Rightarrow> fs
     | None \<Rightarrow> fs\<lparr>fs_paths := (fs_paths fs)(p \<mapsto> fs_next fs),
                fs_nodes := (fs_nodes fs)(fs_next fs := \<lparr>ff_readers = 0, ff_bytes = 0\<rparr>), fs_next := fs_next fs + 1\<rparr>)"

text \<open>A non-blocking open for writing needs a reader; a write to a FIFO without one is a broken pipe.\<close>

definition open_write :: "string \<Rightarrow> fifo_fs \<Rightarrow> nat option" where
  "open_write p fs = (case fs_paths fs p of None \<Rightarrow> None
     | Some n \<Rightarrow> if ff_readers (fs_nodes fs n) = 0 then None else Some n)"

datatype write_result = Wrote | WouldBlock | BrokenPipe

definition fifo_write :: "nat \<Rightarrow> nat \<Rightarrow> fifo_fs \<Rightarrow> fifo_fs \<times> write_result" where
  "fifo_write cap n fs =
     (if ff_readers (fs_nodes fs n) = 0 then (fs, BrokenPipe)
      else if cap \<le> ff_bytes (fs_nodes fs n) then (fs, WouldBlock)
      else (upd_node n (\<lambda>f. f\<lparr>ff_bytes := ff_bytes f + 1\<rparr>) fs, Wrote))"

section \<open>The source\<close>

text \<open>The open write ends by slot.\<close>

type_synonym notify_source = "nat \<Rightarrow> nat option"

definition source_new :: notify_source where
  "source_new = (\<lambda>_. None)"

definition wanted :: "u32 \<Rightarrow> u32 \<Rightarrow> nat \<Rightarrow> bool" where
  "wanted conns self_bit i \<longleftrightarrow> conns AND 2 ^ i \<noteq> 0 \<and> self_bit AND 2 ^ i = 0"

definition poke :: "nat \<Rightarrow> nat \<Rightarrow> nat \<Rightarrow> fifo_fs \<times> notify_source \<Rightarrow> fifo_fs \<times> notify_source" where
  "poke cap i n st = (case st of (fs, wfd) \<Rightarrow>
     (case fifo_write cap n fs of (fs, r) \<Rightarrow> (fs, if r = BrokenPipe then wfd(i := None) else wfd)))"

definition signal_slot ::
  "nat \<Rightarrow> (nat \<Rightarrow> string) \<Rightarrow> u32 \<Rightarrow> u32 \<Rightarrow> nat \<Rightarrow> fifo_fs \<times> notify_source \<Rightarrow> fifo_fs \<times> notify_source" where
  "signal_slot cap path conns self_bit i st = (case st of (fs, wfd) \<Rightarrow>
     if \<not> wanted conns self_bit i then (fs, wfd(i := None))
     else case wfd i of
       Some n \<Rightarrow> poke cap i n (fs, wfd)
     | None \<Rightarrow> (case open_write (path i) fs of
           None \<Rightarrow> (fs, wfd)
         | Some n \<Rightarrow> poke cap i n (fs, wfd(i \<mapsto> n))))"

definition signal ::
  "nat \<Rightarrow> (nat \<Rightarrow> string) \<Rightarrow> u32 \<Rightarrow> u32 \<Rightarrow> fifo_fs \<times> notify_source \<Rightarrow> fifo_fs \<times> notify_source" where
  "signal cap path conns self_bit st = fold (signal_slot cap path conns self_bit) [0..<MAX_SLOTS] st"

section \<open>The sink\<close>

record notify_sink =
  sk_rfd :: "nat option"
  sk_wfd :: "nat option"
  sk_path :: "string option"

definition sink_new :: notify_sink where
  "sink_new = \<lparr>sk_rfd = None, sk_wfd = None, sk_path = None\<rparr>"

text \<open>
  What the operating system refuses is an argument: making the FIFO, opening its read end, opening its write end. A path holds no
  NUL, so the conversion to a C string never fails.
\<close>

record refusals =
  no_mkfifo :: bool
  no_read_end :: bool
  no_write_end :: bool

definition unlink_fifo :: "string \<Rightarrow> fifo_fs \<Rightarrow> fifo_fs" where
  "unlink_fifo p fs = fs\<lparr>fs_paths := (fs_paths fs)(p := None)\<rparr>"

definition sink_open ::
  "refusals \<Rightarrow> (nat \<Rightarrow> string) \<Rightarrow> u32 \<Rightarrow> notify_sink \<Rightarrow> fifo_fs \<Rightarrow> fifo_fs \<times> notify_sink \<times> bool" where
  "sink_open no path slot_bit sk fs =
     (if sk_rfd sk \<noteq> None then (fs, sk, True)
      else case slot_of slot_bit of
        None \<Rightarrow> (fs, sk, False)
      | Some slot \<Rightarrow>
          if MAX_SLOTS \<le> slot \<or> no_mkfifo no \<and> fs_paths fs (path slot) = None then (fs, sk, False)
          else let fs = mkfifo (path slot) fs in
            (case fs_paths fs (path slot) of
               None \<Rightarrow> (fs, sk, False)
             | Some n \<Rightarrow>
                 if no_read_end no then (unlink_fifo (path slot) fs, sk, False)
                 else let fs = upd_node n (\<lambda>f. f\<lparr>ff_readers := ff_readers f + 1\<rparr>) fs
                   in (fs, \<lparr>sk_rfd = Some n,
                            sk_wfd = (if no_write_end no then None else open_write (path slot) fs),
                            sk_path = Some (path slot)\<rparr>, True)))"

definition sink_valid :: "notify_sink \<Rightarrow> bool" where
  "sink_valid sk \<longleftrightarrow> sk_rfd sk \<noteq> None"

text \<open>\<open>drain\<close> reads 256 bytes at a time until nothing is left.\<close>

fun drain_loop :: "nat \<Rightarrow> nat" where
  "drain_loop n = (if n = 0 then 0 else drain_loop (n - 256))"

declare drain_loop.simps [simp del]

definition sink_drain :: "notify_sink \<Rightarrow> fifo_fs \<Rightarrow> fifo_fs" where
  "sink_drain sk fs = (case sk_rfd sk of None \<Rightarrow> fs
     | Some n \<Rightarrow> upd_node n (\<lambda>f. f\<lparr>ff_bytes := drain_loop (ff_bytes f)\<rparr>) fs)"

definition sink_close :: "notify_sink \<Rightarrow> fifo_fs \<Rightarrow> fifo_fs \<times> notify_sink" where
  "sink_close sk fs =
     (let fs = (case sk_rfd sk of None \<Rightarrow> fs | Some n \<Rightarrow> upd_node n (\<lambda>f. f\<lparr>ff_readers := ff_readers f - 1\<rparr>) fs);
          fs = (case sk_path sk of None \<Rightarrow> fs | Some p \<Rightarrow> unlink_fifo p fs)
      in (fs, sink_new))"

text \<open>Of a receiver, the readiness handle of its channel: the sink is opened at the first call.\<close>

definition native_wait_handle ::
  "refusals \<Rightarrow> (nat \<Rightarrow> string) \<Rightarrow> bool \<Rightarrow> u32 \<Rightarrow> notify_sink \<Rightarrow> fifo_fs \<Rightarrow> fifo_fs \<times> notify_sink \<times> nat option" where
  "native_wait_handle no path is_receiver conn_id sk fs =
     (if \<not> is_receiver then (fs, sk, None)
      else case (if sink_valid sk then (fs, sk, True) else sink_open no path conn_id sk fs) of
        (fs, sk, _) \<Rightarrow> (fs, sk, if sink_valid sk then sk_rfd sk else None))"

definition notify_clear_storage :: "(nat \<Rightarrow> string) \<Rightarrow> fifo_fs \<Rightarrow> fifo_fs" where
  "notify_clear_storage path fs = fold (\<lambda>i. unlink_fifo (path i)) [0..<MAX_SLOTS] fs"

definition readable :: "notify_sink \<Rightarrow> fifo_fs \<Rightarrow> bool" where
  "readable sk fs \<longleftrightarrow> (case sk_rfd sk of None \<Rightarrow> False | Some n \<Rightarrow> 0 < ff_bytes (fs_nodes fs n))"

section \<open>Every connected receiver is poked\<close>

lemma wanted_iff: "i < 32 \<Longrightarrow> wanted conns self_bit i \<longleftrightarrow> bit conns i \<and> \<not> bit self_bit i"
  by (simp add: wanted_def and_exp_eq_0_iff_not_bit)

lemma drain_loop_0: "drain_loop n = 0"
  by (induction n rule: drain_loop.induct) (subst drain_loop.simps, simp)

lemma drain_empties: "\<not> readable sk (sink_drain sk fs)"
  by (auto simp: readable_def sink_drain_def upd_node_def drain_loop_0 split: option.splits)

text \<open>What a poke of one slot leaves of the others.\<close>

lemma signal_slot_keeps:
  assumes "signal_slot cap path conns sb i (fs, wfd) = (fs', wfd')"
  shows "fs_paths fs' = fs_paths fs" "ff_readers (fs_nodes fs' n) = ff_readers (fs_nodes fs n)"
    "ff_bytes (fs_nodes fs n) \<le> ff_bytes (fs_nodes fs' n)" "j \<noteq> i \<Longrightarrow> wfd' j = wfd j"
  using assms
  by (auto simp: signal_slot_def poke_def fifo_write_def upd_node_def split: if_splits option.splits prod.splits)

lemma signal_slot_pokes:
  assumes "signal_slot cap path conns sb i (fs, wfd) = (fs', wfd')" "wanted conns sb i" "0 < cap"
    "fs_paths fs (path i) = Some n" "0 < ff_readers (fs_nodes fs n)" "wfd i \<in> {None, Some n}"
  shows "0 < ff_bytes (fs_nodes fs' n)"
  using assms by (auto simp: signal_slot_def poke_def fifo_write_def upd_node_def open_write_def split: if_splits)

lemma signal_slots_keep:
  assumes "fold (signal_slot cap path conns sb) is (fs, wfd) = (fs', wfd')"
  shows "fs_paths fs' = fs_paths fs \<and> ff_readers (fs_nodes fs' n) = ff_readers (fs_nodes fs n)
    \<and> ff_bytes (fs_nodes fs n) \<le> ff_bytes (fs_nodes fs' n) \<and> (j \<notin> set is \<longrightarrow> wfd' j = wfd j)"
  using assms
proof (induction "is" arbitrary: fs wfd)
  case (Cons i "is")
  obtain fs1 wfd1 where s: "signal_slot cap path conns sb i (fs, wfd) = (fs1, wfd1)" by fastforce
  have "fold (signal_slot cap path conns sb) is (fs1, wfd1) = (fs', wfd')" using Cons.prems s by simp
  from Cons.IH [OF this] signal_slot_keeps(1) [OF s] signal_slot_keeps(2,3) [OF s, of n] signal_slot_keeps(4) [OF s, of j]
  show ?case by auto
qed simp

lemma signal_slots_leave:
  assumes "st' = fold (signal_slot cap path conns sb) is st" "\<forall>j. snd st j \<noteq> Some n"
    "\<forall>j\<in>set is. fs_paths (fst st) (path j) \<noteq> Some n"
  shows "fs_nodes (fst st') n = fs_nodes (fst st) n \<and> (\<forall>j. snd st' j \<noteq> Some n) \<and> fs_paths (fst st') = fs_paths (fst st)"
  using assms
proof (induction "is" arbitrary: st)
  case (Cons j "is")
  define s1 where "s1 = signal_slot cap path conns sb j st"
  have a: "fs_nodes (fst s1) n = fs_nodes (fst st) n" "\<forall>k. snd s1 k \<noteq> Some n" "fs_paths (fst s1) = fs_paths (fst st)"
    using Cons.prems(2,3)
    by (auto simp: s1_def signal_slot_def poke_def fifo_write_def upd_node_def open_write_def
        split: prod.splits if_splits option.splits)
  have "fs_nodes (fst st') n = fs_nodes (fst s1) n \<and> (\<forall>j. snd st' j \<noteq> Some n) \<and> fs_paths (fst st') = fs_paths (fst s1)"
    by (rule Cons.IH) (use Cons.prems a in \<open>auto simp: s1_def\<close>)
  then show ?case using a by simp
qed simp

lemma signal_split:
  assumes "i < MAX_SLOTS"
  shows "signal cap path conns sb st =
    fold (signal_slot cap path conns sb) [Suc i..<MAX_SLOTS]
      (signal_slot cap path conns sb i (fold (signal_slot cap path conns sb) [0..<i] st))"
proof -
  have "[0..<MAX_SLOTS] = [0..<i] @ i # [Suc i..<MAX_SLOTS]"
    using assms upt_add_eq_append [of 0 i "MAX_SLOTS - i"] by (simp add: upt_conv_Cons)
  then show ?thesis by (simp add: signal_def)
qed

text \<open>A source's write ends stay those of the FIFOs at the paths.\<close>

definition ends_current :: "(nat \<Rightarrow> string) \<Rightarrow> fifo_fs \<Rightarrow> notify_source \<Rightarrow> bool" where
  "ends_current path fs wfd \<longleftrightarrow> (\<forall>j n. wfd j = Some n \<longrightarrow> fs_paths fs (path j) = Some n)"

lemma signal_ends_current:
  assumes "signal cap path conns sb (fs, wfd) = (fs', wfd')" "ends_current path fs wfd"
  shows "ends_current path fs' wfd'"
proof -
  have "ends_current path (fst st') (snd st')"
    if "st' = fold (signal_slot cap path conns sb) is st" "ends_current path (fst st) (snd st)" for "is" st st'
    using that
  proof (induction "is" arbitrary: st)
    case (Cons j "is")
    have "ends_current path (fst (signal_slot cap path conns sb j st)) (snd (signal_slot cap path conns sb j st))"
      using Cons.prems(2)
      by (auto simp: ends_current_def signal_slot_def poke_def fifo_write_def upd_node_def open_write_def
          split: prod.splits if_splits option.splits)
    then show ?case using Cons.IH Cons.prems(1) by simp
  qed simp
  from this [of "(fs', wfd')" "[0..<MAX_SLOTS]" "(fs, wfd)"] assms show ?thesis by (simp add: signal_def)
qed

lemma signal_slot_end:
  assumes "signal_slot cap path conns sb i (fs, wfd) = (fs', wfd')" "fs_paths fs (path i) = Some n" "wfd i \<in> {None, Some n}"
  shows "wfd' i \<in> {None, Some n}"
  using assms by (auto simp: signal_slot_def poke_def fifo_write_def open_write_def split: if_splits option.splits prod.splits)

lemma signal_pokes:
  assumes "wfd i \<in> {None, Some n}" "0 < cap"
    and "signal cap path conns sb (fs, wfd) = (fs', wfd')"
    and "i < 32" "bit conns i" "\<not> bit sb i" "fs_paths fs (path i) = Some n" "0 < ff_readers (fs_nodes fs n)"
  shows "0 < ff_bytes (fs_nodes fs' n) \<and> fs_paths fs' = fs_paths fs
    \<and> (\<forall>k. ff_bytes (fs_nodes fs k) \<le> ff_bytes (fs_nodes fs' k)) \<and> wfd' i \<in> {None, Some n}"
proof -
  have i: "i < MAX_SLOTS" using assms(4) by (simp add: MAX_SLOTS_def)
  obtain fs1 wfd1 where 1: "fold (signal_slot cap path conns sb) [0..<i] (fs, wfd) = (fs1, wfd1)" by fastforce
  obtain fs2 wfd2 where 2: "signal_slot cap path conns sb i (fs1, wfd1) = (fs2, wfd2)" by fastforce
  have 3: "fold (signal_slot cap path conns sb) [Suc i..<MAX_SLOTS] (fs2, wfd2) = (fs', wfd')"
    using assms(3) signal_split [OF i, of cap path conns sb] 1 2 by simp
  note k1 = signal_slots_keep [OF 1]
  have w: "wfd1 i = wfd i" using k1 [of _ i] by simp
  have p: "0 < ff_bytes (fs_nodes fs2 n)"
  proof (rule signal_slot_pokes [OF 2])
    show "wanted conns sb i" using assms(4-6) by (simp add: wanted_iff)
    show "fs_paths fs1 (path i) = Some n" "0 < ff_readers (fs_nodes fs1 n)" using k1 assms(7,8) by auto
    show "wfd1 i \<in> {None, Some n}" using w assms(1) by simp
  qed (rule assms(2))
  have all: "fold (signal_slot cap path conns sb) [0..<MAX_SLOTS] (fs, wfd) = (fs', wfd')"
    using assms(3) by (simp add: signal_def)
  have e: "wfd2 i \<in> {None, Some n}" by (rule signal_slot_end [OF 2]) (use k1 w assms(1,7) in auto)
  moreover have "wfd' i = wfd2 i" using signal_slots_keep [OF 3, of n i] by simp
  ultimately show ?thesis
    using p signal_slots_keep [OF 3, of n] signal_slots_keep [OF all] by (auto intro: less_le_trans)
qed

text \<open>
  A signal wakes every receiver: when no write end the source has open belongs to a FIFO other than the one at the
  slot's path, then after \<open>signal\<close> the FIFO of every connected slot but the sender's own that a
  receiver has open holds a byte, however full it was, and no byte is taken from any other.
\<close>

theorem signal_wakes_receivers:
  assumes "ends_current path fs wfd" "0 < cap"
    and "signal cap path conns sb (fs, wfd) = (fs', wfd')"
    and "i < 32" "bit conns i" "\<not> bit sb i" "fs_paths fs (path i) = Some n" "0 < ff_readers (fs_nodes fs n)"
  shows "0 < ff_bytes (fs_nodes fs' n) \<and> fs_paths fs' = fs_paths fs
    \<and> (\<forall>k. ff_bytes (fs_nodes fs k) \<le> ff_bytes (fs_nodes fs' k))"
proof -
  have "wfd i \<in> {None, Some n}" using assms(1,7) unfolding ends_current_def by (cases "wfd i") auto
  then show ?thesis using signal_pokes [OF _ assms(2-8)] by blast
qed

text \<open>A receiver that opens its FIFO, and a source that has not signalled before.\<close>

definition fs_empty :: fifo_fs where
  "fs_empty = \<lparr>fs_paths = Map.empty, fs_nodes = (\<lambda>_. \<lparr>ff_readers = 0, ff_bytes = 0\<rparr>), fs_next = 0\<rparr>"

definition all_granted :: refusals where
  "all_granted = \<lparr>no_mkfifo = False, no_read_end = False, no_write_end = False\<rparr>"

theorem signal_wakes_receivers_witness:
  "\<exists>fs sk fs' wfd'. sink_open all_granted (fifo_path None [] ''c'') 1 sink_new fs_empty = (fs, sk, True)
     \<and> signal 65536 (fifo_path None [] ''c'') 1 0 (fs, source_new) = (fs', wfd') \<and> readable sk fs'"
proof -
  let ?p = "fifo_path None [] ''c''"
  have s: "slot_of 1 = Some 0" using trailing_zeros_exp [of 0, where 'a = 32] by (simp add: slot_of_def)
  obtain fs sk where o: "sink_open all_granted ?p 1 sink_new fs_empty = (fs, sk, True)" "sk_rfd sk = Some 0"
    "fs_paths fs (?p 0) = Some 0" "ff_readers (fs_nodes fs 0) = 1"
    by (simp add: sink_open_def sink_new_def s MAX_SLOTS_def mkfifo_def fs_empty_def all_granted_def upd_node_def Let_def)
  obtain fs' wfd' where g: "signal 65536 ?p 1 0 (fs, source_new) = (fs', wfd')" by fastforce
  have "0 < ff_bytes (fs_nodes fs' 0)"
    using signal_wakes_receivers [OF _ _ g, of 0 0] o(3,4) by (simp add: source_new_def ends_current_def)
  then show ?thesis using o(1,2) g by (auto simp: readable_def)
qed

section \<open>A stale write end\<close>

text \<open>
  A stale write end swallows a wake-up: when the source still has the write end of a FIFO whose reader has
  gone, and another receiver has taken over the slot with a FIFO of its own, then \<open>signal\<close> meets a broken
  pipe, forgets the write end and does not try again. The new receiver, although connected and waiting, is not woken for
  this message.
\<close>

theorem stale_end_loses_wakeup:
  assumes "signal cap path conns sb (fs, wfd) = (fs', wfd')" "i < 32" "bit conns i" "\<not> bit sb i"
    and "wfd i = Some old" "ff_readers (fs_nodes fs old) = 0" "fs_paths fs (path i) = Some n"
    and "\<forall>j. wfd j \<noteq> Some n" "\<forall>j. j \<noteq> i \<longrightarrow> fs_paths fs (path j) \<noteq> Some n"
  shows "fs_nodes fs' n = fs_nodes fs n \<and> wfd' i = None"
proof -
  have i: "i < MAX_SLOTS" using assms(2) by (simp add: MAX_SLOTS_def)
  define s1 where "s1 = fold (signal_slot cap path conns sb) [0..<i] (fs, wfd)"
  have 1: "fs_nodes (fst s1) n = fs_nodes fs n" "snd s1 i = Some old" "\<forall>j. snd s1 j \<noteq> Some n" "fs_paths (fst s1) = fs_paths fs"
    using signal_slots_leave [OF s1_def] assms(5,8,9) signal_slots_keep [of cap path conns sb "[0..<i]" fs wfd "fst s1" "snd s1" _ i]
    by (auto simp: s1_def)
  have r: "ff_readers (fs_nodes (fst s1) old) = 0"
    using signal_slots_keep [of cap path conns sb "[0..<i]" fs wfd "fst s1" "snd s1" old] assms(6)
    by (simp add: s1_def)
  define s2 where "s2 = signal_slot cap path conns sb i s1"
  have w: "wanted conns sb i" using assms(2-4) by (simp add: wanted_iff)
  have 2: "fs_nodes (fst s2) n = fs_nodes fs n" "snd s2 i = None" "\<forall>j. snd s2 j \<noteq> Some n" "fs_paths (fst s2) = fs_paths fs"
    using 1 r w by (auto simp: s2_def signal_slot_def poke_def fifo_write_def split: prod.splits if_splits)
  have 3: "(fs', wfd') = fold (signal_slot cap path conns sb) [Suc i..<MAX_SLOTS] s2"
    using assms(1) signal_split [OF i, of cap path conns sb] by (simp add: s1_def s2_def)
  show ?thesis
    using signal_slots_leave [OF 3 2(3)] 2 assms(9)
      signal_slots_keep [of cap path conns sb "[Suc i..<MAX_SLOTS]" "fst s2" "snd s2" fs' wfd' n i]
    by (auto simp flip: 3)
qed

text \<open>The runs below: a receiver opens its FIFO in slot 0 and a sender signals it.\<close>

definition slot_path :: "nat \<Rightarrow> string" where
  "slot_path i = replicate i (CHR ''s'')"

lemma slot_path_eq [simp]: "slot_path i = slot_path j \<longleftrightarrow> i = j"
  by (metis length_replicate slot_path_def)

lemma slot_of_1 [simp]: "slot_of 1 = Some 0"
  using trailing_zeros_exp [of 0, where 'a = 32] by (simp add: slot_of_def)

lemmas sink_simps = sink_open_def sink_close_def sink_new_def MAX_SLOTS_def mkfifo_def fs_empty_def all_granted_def
  upd_node_def unlink_fifo_def open_write_def Let_def

definition first_open :: "fifo_fs \<times> notify_sink" where
  "first_open = (case sink_open all_granted slot_path 1 sink_new fs_empty of (fs, sk, _) \<Rightarrow> (fs, sk))"

text \<open>The first receiver leaves, a second takes its slot; the source has signalled the first.\<close>

definition second_open :: "fifo_fs \<times> notify_sink" where
  "second_open = (case sink_open all_granted slot_path 1 sink_new (fst (sink_close (snd first_open) (fst first_open))) of
     (fs, sk, _) \<Rightarrow> (fs, sk))"

theorem stale_end_loses_wakeup_witness:
  "\<not> readable (snd second_open) (fst (signal 65536 slot_path 1 0 (fst second_open, source_new(0 \<mapsto> 0))))"
proof -
  obtain fs' wfd' where g: "signal 65536 slot_path 1 0 (fst second_open, source_new(0 \<mapsto> 0)) = (fs', wfd')" by fastforce
  have "fs_nodes fs' 1 = fs_nodes (fst second_open) 1 \<and> wfd' 0 = None"
    by (rule stale_end_loses_wakeup [OF g, where old = 0])
      (auto simp: second_open_def first_open_def source_new_def sink_simps)
  then show ?thesis unfolding g by (simp add: readable_def second_open_def first_open_def sink_simps)
qed

section \<open>A receiver that leaves late\<close>

text \<open>
  Closing a sink takes the FIFO of the slot's next receiver away: when the receiver that had the slot before
  still has its sink, and the next one opened the same FIFO, then the late \<open>close\<close> unlinks the path. From then on a
  sender that has no write end for the slot yet finds no FIFO there, and no signal of such a sender ever wakes the
  receiver that is connected.
\<close>

theorem late_close_orphans_successor:
  assumes "sk_path old = Some (path i)" "sk_rfd old = Some n" "sk_rfd new = Some n"
    and "sink_close old fs = (fs1, old')"
    and "\<forall>j. wfd j \<noteq> Some n" "\<forall>j. j \<noteq> i \<longrightarrow> fs_paths fs (path j) \<noteq> Some n"
    and "signal cap path conns sb (fs1, wfd) = (fs2, wfd')"
  shows "readable new fs2 = readable new fs \<and> fs_paths fs2 (path i) = None \<and> (\<forall>j. wfd' j \<noteq> Some n)"
proof -
  have fs1: "fs_paths fs1 = (fs_paths fs)(path i := None)" "ff_bytes (fs_nodes fs1 n) = ff_bytes (fs_nodes fs n)"
    using assms(1,2,4) by (auto simp: sink_close_def unlink_fifo_def upd_node_def)
  have f: "(fs2, wfd') = fold (signal_slot cap path conns sb) [0..<MAX_SLOTS] (fs1, wfd)"
    using assms(7) by (simp add: signal_def)
  have "\<forall>j. fs_paths fs1 (path j) \<noteq> Some n" using assms(6) fs1(1) by auto
  then have "fs_nodes fs2 n = fs_nodes fs1 n \<and> (\<forall>j. wfd' j \<noteq> Some n) \<and> fs_paths fs2 = fs_paths fs1"
    using signal_slots_leave [OF f, of n] assms(5) by simp
  then show ?thesis using fs1 assms(3) by (simp add: readable_def)
qed

text \<open>The second receiver opens its sink while the first one's is still open; then the first one's is closed.\<close>

definition shared_open :: "fifo_fs \<times> notify_sink" where
  "shared_open = (case sink_open all_granted slot_path 1 sink_new (fst first_open) of (fs, sk, _) \<Rightarrow> (fs, sk))"

theorem late_close_orphans_successor_witness:
  "\<not> readable (snd shared_open)
     (fst (signal 65536 slot_path 1 0 (fst (sink_close (snd first_open) (fst shared_open)), source_new)))"
proof -
  obtain fs1 sk where c: "sink_close (snd first_open) (fst shared_open) = (fs1, sk)" by fastforce
  obtain fs2 wfd' where g: "signal 65536 slot_path 1 0 (fs1, source_new) = (fs2, wfd')" by fastforce
  have "readable (snd shared_open) fs2 = readable (snd shared_open) (fst shared_open)
      \<and> fs_paths fs2 (slot_path 0) = None \<and> (\<forall>j. wfd' j \<noteq> Some 0)"
    by (rule late_close_orphans_successor [OF _ _ _ c _ _ g])
      (auto simp: shared_open_def first_open_def source_new_def sink_simps)
  moreover have "\<not> readable (snd shared_open) (fst shared_open)"
    by (simp add: readable_def shared_open_def first_open_def sink_simps)
  ultimately show ?thesis by (simp add: c g)
qed

end
