(* ===== verification/Async_Recv.thy ===== *)
theory Async_Recv
  imports Notify
begin

text \<open>
  \<open>async_recv.rs\<close> on Unix: \<open>AsyncRoute\<close> waits for the readiness handle of its receiver. One receiver and
  any number of senders, one step per call of \<open>recv\<close>'s loop and two for a send: the message is pushed, then the
  sinks are signalled. Other receivers come and go, and their FIFOs with them. Tokio's \<open>AsyncFd\<close> is what its documentation says: a FIFO that is readable at the registration and
  a write to it become an event at some later time, an event sets the readiness and counts a tick, \<open>readable\<close> waits for the readiness
  and notes the tick, and \<open>clear_ready\<close> takes the readiness away unless an event came after that tick.
\<close>

section \<open>AsyncRoute\<close>

datatype async_error = InvalidInput | Unsupported

definition async_new ::
  "refusals \<Rightarrow> (nat \<Rightarrow> string) \<Rightarrow> bool \<Rightarrow> u32 \<Rightarrow> notify_sink \<Rightarrow> fifo_fs
     \<Rightarrow> fifo_fs \<times> notify_sink \<times> (async_error + nat)" where
  "async_new no path is_receiver conn_id sk fs =
     (if \<not> is_receiver then (fs, sk, Inl InvalidInput)
      else case native_wait_handle no path is_receiver conn_id sk fs of
        (fs, sk, None) \<Rightarrow> (fs, sk, Inl Unsupported)
      | (fs, sk, Some fd) \<Rightarrow> (fs, sk, Inr fd))"

text \<open>Where \<open>recv\<close> is: at its first \<open>try_recv\<close>, at the \<open>await\<close>, at the drain, at the second \<open>try_recv\<close>, at \<open>clear_ready\<close>.\<close>

datatype ar_pc = AIdle | ATry | APark | ADrain nat | ARetry nat | AClear nat | AGot

text \<open>\<open>ar_unread\<close> counts the messages the receiver has not read; \<open>ar_owes k\<close> says that sender \<open>k\<close> has pushed and not signalled.\<close>

record ar_sys =
  ar_fs :: fifo_fs
  ar_sink :: notify_sink
  ar_unread :: nat
  ar_event :: bool
  ar_ready :: bool
  ar_tick :: nat
  ar_pc :: ar_pc
  ar_owes :: "nat \<Rightarrow> bool"
  ar_source :: "nat \<Rightarrow> notify_source"

record ar_config =
  ac_cap :: nat
  ac_path :: "nat \<Rightarrow> string"
  ac_slot :: nat

definition take_message :: "ar_pc \<Rightarrow> ar_sys \<Rightarrow> ar_sys" where
  "take_message otherwise s =
     (if 0 < ar_unread s then s\<lparr>ar_unread := ar_unread s - 1, ar_pc := AGot\<rparr> else s\<lparr>ar_pc := otherwise\<rparr>)"

definition ar_recv :: "ar_sys \<Rightarrow> ar_sys" where
  "ar_recv s = (case ar_pc s of
     ATry \<Rightarrow> take_message APark s
   | APark \<Rightarrow> if ar_ready s then s\<lparr>ar_pc := ADrain (ar_tick s)\<rparr> else s
   | ADrain g \<Rightarrow> s\<lparr>ar_fs := sink_drain (ar_sink s) (ar_fs s), ar_pc := ARetry g\<rparr>
   | ARetry g \<Rightarrow> take_message (AClear g) s
   | AClear g \<Rightarrow> s\<lparr>ar_ready := (ar_ready s \<and> ar_tick s \<noteq> g), ar_pc := ATry\<rparr>
   | _ \<Rightarrow> s)"

definition ar_call :: "ar_sys \<Rightarrow> ar_sys" where
  "ar_call s = s\<lparr>ar_pc := ATry\<rparr>"

definition ar_push :: "nat \<Rightarrow> ar_sys \<Rightarrow> ar_sys" where
  "ar_push k s = s\<lparr>ar_unread := ar_unread s + 1, ar_owes := (ar_owes s)(k := True)\<rparr>"

definition sink_bytes :: "notify_sink \<Rightarrow> fifo_fs \<Rightarrow> nat" where
  "sink_bytes sk fs = (case sk_rfd sk of None \<Rightarrow> 0 | Some n \<Rightarrow> ff_bytes (fs_nodes fs n))"

definition ar_signal :: "ar_config \<Rightarrow> u32 \<Rightarrow> u32 \<Rightarrow> nat \<Rightarrow> ar_sys \<Rightarrow> ar_sys" where
  "ar_signal c conns sb k s = (case signal (ac_cap c) (ac_path c) conns sb (ar_fs s, ar_source s k) of (fs, wfd) \<Rightarrow>
     s\<lparr>ar_fs := fs, ar_source := (ar_source s)(k := wfd), ar_owes := (ar_owes s)(k := False),
       ar_event := (ar_event s \<or> sink_bytes (ar_sink s) (ar_fs s) < sink_bytes (ar_sink s) fs)\<rparr>)"

definition ar_react :: "ar_sys \<Rightarrow> ar_sys" where
  "ar_react s = s\<lparr>ar_ready := True, ar_tick := ar_tick s + 1, ar_event := False\<rparr>"

text \<open>
  The future of \<open>recv\<close> may be dropped where it waits. A sender that signals reads the connections, in which the receiver's slot is set, and
  skips its own bit. What others do to the file system leaves the FIFO of the slot alone.
\<close>

definition slot_fifo_kept :: "ar_config \<Rightarrow> ar_sys \<Rightarrow> fifo_fs \<Rightarrow> bool" where
  "slot_fifo_kept c s fs \<longleftrightarrow> fs_paths fs (ac_path c (ac_slot c)) = fs_paths (ar_fs s) (ac_path c (ac_slot c))
     \<and> (\<forall>n. sk_rfd (ar_sink s) = Some n \<longrightarrow> fs_nodes fs n = fs_nodes (ar_fs s) n)"

inductive ar_step :: "ar_config \<Rightarrow> ar_sys \<Rightarrow> ar_sys \<Rightarrow> bool" for c where
  ar_moves: "ar_step c s (ar_recv s)"
| ar_calls: "ar_pc s \<in> {AIdle, AGot} \<Longrightarrow> ar_step c s (ar_call s)"
| ar_cancels: "ar_pc s = APark \<Longrightarrow> ar_step c s (s\<lparr>ar_pc := AIdle\<rparr>)"
| ar_pushes: "\<not> ar_owes s k \<Longrightarrow> ar_step c s (ar_push k s)"
| ar_signals: "ar_owes s k \<Longrightarrow> bit conns (ac_slot c) \<Longrightarrow> \<not> bit sb (ac_slot c) \<Longrightarrow> ar_step c s (ar_signal c conns sb k s)"
| ar_reacts: "ar_step c s (ar_react s)"
| ar_others: "slot_fifo_kept c s fs \<Longrightarrow> ar_step c s (s\<lparr>ar_fs := fs\<rparr>)"

text \<open>
  The receiver opens its sink on any file system, an earlier FIFO at the path of its slot included; the senders may have signalled before. What the
  sources have open for the slot is the FIFO that is now at the path, or nothing.
\<close>

definition ar_init :: "ar_config \<Rightarrow> fifo_fs \<Rightarrow> (nat \<Rightarrow> notify_source) \<Rightarrow> ar_sys" where
  "ar_init c fs0 src = (case async_new all_granted (ac_path c) True (2 ^ ac_slot c) sink_new fs0 of (fs, sk, _) \<Rightarrow>
     \<lparr>ar_fs = fs, ar_sink = sk, ar_unread = 0, ar_event = readable sk fs, ar_ready = False, ar_tick = 0, ar_pc = AIdle,
      ar_owes = (\<lambda>_. False), ar_source = src\<rparr>)"

definition no_stale_end :: "ar_config \<Rightarrow> fifo_fs \<Rightarrow> (nat \<Rightarrow> notify_source) \<Rightarrow> bool" where
  "no_stale_end c fs src \<longleftrightarrow> (\<forall>k n. src k (ac_slot c) = Some n \<longrightarrow> fs_paths fs (ac_path c (ac_slot c)) = Some n)"

definition ac_ok :: "ar_config \<Rightarrow> fifo_fs \<Rightarrow> (nat \<Rightarrow> notify_source) \<Rightarrow> bool" where
  "ac_ok c fs src \<longleftrightarrow> 0 < ac_cap c \<and> ac_slot c < 32 \<and> no_stale_end c fs src"

section \<open>The invariant\<close>

text \<open>
  The sink is that of the slot's FIFO and no source has an old write end for it. A byte in the FIFO has an event to come, or
  the readiness is set and \<open>clear_ready\<close> will not take it away. A message that every sender has signalled has a byte in the FIFO, or the
  receiver is about to look.
\<close>

definition ar_sink_ok :: "ar_config \<Rightarrow> ar_sys \<Rightarrow> bool" where
  "ar_sink_ok c s \<longleftrightarrow> (\<exists>n. sk_rfd (ar_sink s) = Some n \<and> fs_paths (ar_fs s) (ac_path c (ac_slot c)) = Some n
     \<and> 0 < ff_readers (fs_nodes (ar_fs s) n) \<and> (\<forall>k. ar_source s k (ac_slot c) \<in> {None, Some n}))"

fun keeps_ready :: "ar_pc \<Rightarrow> nat \<Rightarrow> bool" where
  "keeps_ready (ARetry g) t = (g < t)"
| "keeps_ready (AClear g) t = (g < t)"
| "keeps_ready _ t = True"

fun will_look :: "ar_pc \<Rightarrow> bool" where
  "will_look (AClear g) = False"
| "will_look APark = False"
| "will_look _ = True"

fun noted :: "ar_pc \<Rightarrow> nat" where
  "noted (ADrain g) = g"
| "noted (ARetry g) = g"
| "noted (AClear g) = g"
| "noted _ = 0"

definition ar_inv :: "ar_config \<Rightarrow> bool \<Rightarrow> ar_sys \<Rightarrow> bool" where
  "ar_inv c fit s \<longleftrightarrow> (fit \<longrightarrow> 0 < ac_cap c \<and> ac_slot c < 32 \<and> ar_sink_ok c s \<and> noted (ar_pc s) \<le> ar_tick s
     \<and> (readable (ar_sink s) (ar_fs s) \<longrightarrow> ar_event s \<or> ar_ready s \<and> keeps_ready (ar_pc s) (ar_tick s))
     \<and> (0 < ar_unread s \<longrightarrow> (\<exists>k. ar_owes s k) \<or> readable (ar_sink s) (ar_fs s) \<or> will_look (ar_pc s)))"

lemma sink_ok_drain: "ar_sink_ok c s \<Longrightarrow> ar_sink_ok c (s\<lparr>ar_fs := sink_drain (ar_sink s) (ar_fs s), ar_pc := pc\<rparr>)"
  by (auto simp: ar_sink_ok_def sink_drain_def upd_node_def)

lemma sink_ok_simps [simp]:
  "ar_sink_ok c (s\<lparr>ar_pc := pc\<rparr>) = ar_sink_ok c s" "ar_sink_ok c (s\<lparr>ar_unread := u\<rparr>) = ar_sink_ok c s"
  "ar_sink_ok c (s\<lparr>ar_ready := r\<rparr>) = ar_sink_ok c s" "ar_sink_ok c (s\<lparr>ar_tick := t\<rparr>) = ar_sink_ok c s"
  "ar_sink_ok c (s\<lparr>ar_event := e\<rparr>) = ar_sink_ok c s" "ar_sink_ok c (s\<lparr>ar_owes := w\<rparr>) = ar_sink_ok c s"
  by (simp_all add: ar_sink_ok_def)

lemma ar_recv_inv: "ar_inv c fit s \<Longrightarrow> ar_inv c fit (ar_recv s)"
  using sink_ok_drain [of c s]
  by (cases "ar_pc s") (auto simp: ar_inv_def ar_recv_def take_message_def drain_empties)

lemma ar_signal_effect:
  assumes "0 < ac_cap c" "ac_slot c < 32" "ar_sink_ok c s" "bit conns (ac_slot c)" "\<not> bit sb (ac_slot c)"
  shows "ar_sink_ok c (ar_signal c conns sb k s)" "readable (ar_sink s) (ar_fs (ar_signal c conns sb k s))"
    "ar_event (ar_signal c conns sb k s) \<or> readable (ar_sink s) (ar_fs s) \<and> ar_event (ar_signal c conns sb k s) = ar_event s"
proof -
  obtain fs wfd where g: "signal (ac_cap c) (ac_path c) conns sb (ar_fs s, ar_source s k) = (fs, wfd)" by fastforce
  obtain n where n: "sk_rfd (ar_sink s) = Some n" "fs_paths (ar_fs s) (ac_path c (ac_slot c)) = Some n"
    "0 < ff_readers (fs_nodes (ar_fs s) n)" and cur: "\<forall>k. ar_source s k (ac_slot c) \<in> {None, Some n}"
    using assms(3) by (auto simp: ar_sink_ok_def)
  have p: "0 < ff_bytes (fs_nodes fs n) \<and> fs_paths fs = fs_paths (ar_fs s)
      \<and> (\<forall>j. ff_bytes (fs_nodes (ar_fs s) j) \<le> ff_bytes (fs_nodes fs j)) \<and> wfd (ac_slot c) \<in> {None, Some n}"
    by (rule signal_pokes [OF _ assms(1) g assms(2,4,5) n(2,3)]) (use cur in simp)
  have r: "ff_readers (fs_nodes fs n) = ff_readers (fs_nodes (ar_fs s) n)"
    using signal_slots_keep [of "ac_cap c" "ac_path c" conns sb "[0..<MAX_SLOTS]" "ar_fs s" "ar_source s k" fs wfd n]
      g by (simp add: signal_def)
  show "ar_sink_ok c (ar_signal c conns sb k s)" using n p r cur by (simp add: ar_sink_ok_def ar_signal_def g)
  show "readable (ar_sink s) (ar_fs (ar_signal c conns sb k s))" using n p by (simp add: readable_def ar_signal_def g)
  show "ar_event (ar_signal c conns sb k s) \<or> readable (ar_sink s) (ar_fs s) \<and> ar_event (ar_signal c conns sb k s) = ar_event s"
    using n p by (auto simp: readable_def ar_signal_def g sink_bytes_def)
qed

lemma ar_signal_simps [simp]:
  "ar_sink (ar_signal c conns sb k s) = ar_sink s" "ar_unread (ar_signal c conns sb k s) = ar_unread s" "ar_ready (ar_signal c conns sb k s) = ar_ready s"
  "ar_tick (ar_signal c conns sb k s) = ar_tick s" "ar_pc (ar_signal c conns sb k s) = ar_pc s"
  by (simp_all add: ar_signal_def split: prod.split)

lemma ar_signal_inv:
  "ar_inv c fit s \<Longrightarrow> bit conns (ac_slot c) \<Longrightarrow> \<not> bit sb (ac_slot c) \<Longrightarrow> ar_inv c fit (ar_signal c conns sb k s)"
  using ar_signal_effect [of c s conns sb k] by (auto simp: ar_inv_def)

lemma ar_react_inv: "ar_inv c fit s \<Longrightarrow> ar_inv c fit (ar_react s)"
  by (cases "ar_pc s") (auto simp: ar_inv_def ar_react_def)

lemma ar_push_inv: "ar_inv c fit s \<Longrightarrow> ar_inv c fit (ar_push k s)"
  by (auto simp: ar_inv_def ar_push_def)

lemma ar_call_inv: "ar_inv c fit s \<Longrightarrow> ar_pc s \<in> {AIdle, AGot} \<Longrightarrow> ar_inv c fit (ar_call s)"
  by (auto simp: ar_inv_def ar_call_def)

lemma ar_cancel_inv: "ar_inv c fit s \<Longrightarrow> ar_pc s = APark \<Longrightarrow> ar_inv c fit (s\<lparr>ar_pc := AIdle\<rparr>)"
  by (auto simp: ar_inv_def)

lemma ar_others_inv: "ar_inv c fit s \<Longrightarrow> slot_fifo_kept c s fs \<Longrightarrow> ar_inv c fit (s\<lparr>ar_fs := fs\<rparr>)"
  by (auto simp: ar_inv_def slot_fifo_kept_def ar_sink_ok_def readable_def)

lemma ar_step_inv: "ar_inv c fit s \<Longrightarrow> ar_step c s s' \<Longrightarrow> ar_inv c fit s'"
  by (erule ar_step.cases)
    (simp_all add: ar_recv_inv ar_signal_inv ar_react_inv ar_push_inv ar_call_inv ar_cancel_inv ar_others_inv)

lemma ar_init_inv: "ar_inv c (ac_ok c (ar_fs (ar_init c fs src)) src) (ar_init c fs src)"
proof (cases "ac_ok c (ar_fs (ar_init c fs src)) src")
  case True
  let ?fs = "mkfifo (ac_path c (ac_slot c)) fs"
  have o: "slot_of (2 ^ ac_slot c) = Some (ac_slot c)" using True by (simp add: slot_of_def trailing_zeros_exp ac_ok_def)
  obtain n where n: "fs_paths ?fs (ac_path c (ac_slot c)) = Some n" by (cases "fs_paths fs (ac_path c (ac_slot c))") (auto simp: mkfifo_def)
  have sk: "ar_sink (ar_init c fs src) = \<lparr>sk_rfd = Some n, sk_wfd = Some n, sk_path = Some (ac_path c (ac_slot c))\<rparr>"
    and f: "ar_fs (ar_init c fs src) = upd_node n (\<lambda>f. f\<lparr>ff_readers := ff_readers f + 1\<rparr>) ?fs"
    using True o n
    by (auto simp: ar_init_def async_new_def native_wait_handle_def sink_valid_def sink_open_def sink_new_def ac_ok_def MAX_SLOTS_def
        all_granted_def open_write_def upd_node_def Let_def)
  have "fs_paths (ar_fs (ar_init c fs src)) (ac_path c (ac_slot c)) = Some n" using n by (simp add: f upd_node_def)
  then have "src k (ac_slot c) \<in> {None, Some n}" for k
    using True by (cases "src k (ac_slot c)") (auto simp: ac_ok_def no_stale_end_def)
  moreover have "ar_source (ar_init c fs src) = src" by (simp add: ar_init_def split: prod.split)
  ultimately have "ar_sink_ok c (ar_init c fs src)" using n unfolding ar_sink_ok_def sk f by (auto simp: upd_node_def)
  then show ?thesis using True by (auto simp: ar_inv_def ac_ok_def ar_init_def split: prod.split)
qed (simp add: ar_inv_def)

interpretation async: invariant_system "ar_init c fs src" "ar_step c" "ar_inv c (ac_ok c (ar_fs (ar_init c fs src)) src)"
  by unfold_locales (auto intro: ar_init_inv ar_step_inv)


text \<open>A message is pushed between the first \<open>try_recv\<close> and the \<open>await\<close>.\<close>

definition ar_demo :: ar_config where
  "ar_demo = \<lparr>ac_cap = 65536, ac_path = slot_path, ac_slot = 0\<rparr>"

definition demo_init :: ar_sys where
  "demo_init = ar_init ar_demo fs_empty (\<lambda>_. source_new)"


end
