(* ===== verification/Apple_Mutex.thy ===== *)
theory Apple_Mutex
  imports Prelude
begin

text \<open>
  \<open>platform/apple.rs\<close>: the macOS mutex on two words of shared memory, \<open>state\<close> (0 unlocked, 1 locked, 2 locked with
  waiters) and \<open>holder\<close> (the process id of the owner, 0 if none), with \<open>__ulock_wait\<close> and \<open>__ulock_wake\<close>.
  Any number of threads of any number of processes, one step per access to a word and per system call. What the clock and
  the kernel do (a deadline that has passed, a wait that is interrupted, the sleeper that a wake picks) is an argument of a step.
\<close>

section \<open>The threads\<close>

definition SPIN_COUNT :: nat where "SPIN_COUNT = 40"

text \<open>The call a thread is in: \<open>lock\<close>, \<open>lock_timeout\<close> with its \<open>tried_recovery\<close>, \<open>try_lock\<close>.\<close>

datatype lock_call = Forever | Until bool | Once

text \<open>
  A \<open>bool\<close> is the local \<open>contended\<close>. The thread is at: the first access of the loop, the spin phase with the tries left, the load after it, the
  exchange of 1 by 2, the look at the clock, \<open>__ulock_wait\<close>; asleep in it; at the store of the holder after the lock was
  taken; in the critical section; out of the call. \<open>R\<close> is \<open>try_recover_dead_holder\<close>, \<open>U\<close> is \<open>unlock\<close>.
\<close>

datatype am_pc =
    LIdle
  | LSpin lock_call bool nat
  | LLoad lock_call bool
  | LMark lock_call bool
  | LClock lock_call bool
  | LWait lock_call
  | LAsleep lock_call
  | LTry
  | LTryAgain
  | LStore
  | LHeld
  | LReturn bool
  | RHolder lock_call bool
  | RAlive lock_call bool u32
  | RSwap lock_call bool
  | RStore lock_call bool u32
  | RWake lock_call bool
  | UStore
  | USwap
  | UWake

record am_sys =
  am_state :: u32
  am_holder :: u32
  am_alive :: "u32 \<Rightarrow> bool"
  am_pcs :: "nat \<Rightarrow> am_pc"

definition am_goto :: "nat \<Rightarrow> am_pc \<Rightarrow> am_sys \<Rightarrow> am_sys" where
  "am_goto t pc s = s\<lparr>am_pcs := (am_pcs s)(t := pc)\<rparr>"

definition spin_from :: "lock_call \<Rightarrow> bool \<Rightarrow> am_pc" where
  "spin_from k contended = LSpin k contended SPIN_COUNT"

text \<open>The compare-exchange of \<open>state\<close>, and where the thread goes on success and on failure.\<close>

definition am_cas :: "nat \<Rightarrow> u32 \<Rightarrow> u32 \<Rightarrow> am_pc \<Rightarrow> am_pc \<Rightarrow> am_sys \<Rightarrow> am_sys" where
  "am_cas t old new yes no s =
     (if am_state s = old then am_goto t yes (s\<lparr>am_state := new\<rparr>) else am_goto t no s)"

text \<open>A deadline has passed: recovery is tried once.\<close>

definition on_timeout :: "lock_call \<Rightarrow> bool \<Rightarrow> am_pc" where
  "on_timeout k contended = (case k of Until False \<Rightarrow> RHolder (Until True) contended | _ \<Rightarrow> LReturn False)"

text \<open>Recovery has freed the mutex: \<open>try_lock\<close> tries a second time, the others start the loop again.\<close>

definition recovered :: "lock_call \<Rightarrow> bool \<Rightarrow> am_pc" where
  "recovered k contended = (case k of Once \<Rightarrow> LTryAgain | _ \<Rightarrow> spin_from k contended)"

text \<open>A sleeper that wakes up goes to the top of the loop with \<open>contended\<close> set.\<close>

definition am_awake :: "am_pc \<Rightarrow> am_pc" where
  "am_awake pc = (case pc of LAsleep k \<Rightarrow> spin_from k True | _ \<Rightarrow> pc)"

definition ulock_wake_one :: "nat \<Rightarrow> am_sys \<Rightarrow> am_sys" where
  "ulock_wake_one u s = am_goto u (am_awake (am_pcs s u)) s"

definition ulock_wake_all :: "(nat \<Rightarrow> u32) \<Rightarrow> am_sys \<Rightarrow> am_sys" where
  "ulock_wake_all pid s = s\<lparr>am_pcs := (\<lambda>u. if am_alive s (pid u) then am_awake (am_pcs s u) else am_pcs s u)\<rparr>"

datatype am_choice = Nothing | Expired | Interrupted

definition am_access :: "(nat \<Rightarrow> u32) \<Rightarrow> am_choice \<Rightarrow> nat \<Rightarrow> am_sys \<Rightarrow> nat \<Rightarrow> am_sys" where
  "am_access pid ch u s t = (case am_pcs s t of
     LSpin k contended n \<Rightarrow>
       if n = 0 then am_goto t (LLoad k contended) s
       else am_cas t 0 (if contended then 2 else 1) LStore (LSpin k contended (n - 1)) s
   | LLoad k contended \<Rightarrow>
       if am_state s = 0 then am_goto t (spin_from k contended) s
       else if am_state s = 1 then am_goto t (LMark k contended) s
       else am_goto t (LClock k contended) s
   | LMark k contended \<Rightarrow> am_cas t 1 2 (LClock k contended) (spin_from k contended) s
   | LClock k contended \<Rightarrow>
       if k \<noteq> Forever \<and> ch = Expired then am_goto t (on_timeout k contended) s else am_goto t (LWait k) s
   | LWait k \<Rightarrow> am_goto t (if am_state s = 2 then LAsleep k else spin_from k True) s
   | LAsleep k \<Rightarrow>
       (case ch of Interrupted \<Rightarrow> am_goto t (spin_from k True) s
        | Expired \<Rightarrow> if k \<noteq> Forever then am_goto t (on_timeout k True) s else s
        | Nothing \<Rightarrow> s)
   | LTry \<Rightarrow> am_cas t 0 1 LStore (RHolder Once False) s
   | LTryAgain \<Rightarrow> am_cas t 0 1 LStore (LReturn False) s
   | LStore \<Rightarrow> am_goto t LHeld (s\<lparr>am_holder := pid t\<rparr>)
   | RHolder k contended \<Rightarrow>
       am_goto t (if am_holder s = 0 then LReturn False else RAlive k contended (am_holder s)) s
   | RAlive k contended h \<Rightarrow> am_goto t (if am_alive s h then LReturn False else RSwap k contended) s
   | RSwap k contended \<Rightarrow> am_goto t (RStore k contended (am_state s)) (s\<lparr>am_state := 0\<rparr>)
   | RStore k contended old \<Rightarrow>
       am_goto t (if old = 2 then RWake k contended else recovered k contended) (s\<lparr>am_holder := 0\<rparr>)
   | RWake k contended \<Rightarrow> am_goto t (recovered k contended) (ulock_wake_all pid s)
   | UStore \<Rightarrow> am_goto t USwap (s\<lparr>am_holder := 0\<rparr>)
   | USwap \<Rightarrow> am_goto t (if am_state s = 2 then UWake else LIdle) (s\<lparr>am_state := 0\<rparr>)
   | UWake \<Rightarrow> am_goto t LIdle (ulock_wake_one u s)
   | _ \<Rightarrow> s)"

text \<open>
  A thread outside of every call locks, the owner unlocks, and with \<open>crashes\<close> a process dies: its threads stop where they are, and
  those in \<open>__ulock_wait\<close> are no longer in the queue of the kernel. A wake with a sleeper in the queue picks a sleeper of the queue.
\<close>

definition out_of_call :: "am_pc \<Rightarrow> bool" where
  "out_of_call pc \<longleftrightarrow> pc \<in> {LIdle, LReturn True, LReturn False}"

definition first_pc :: "lock_call \<Rightarrow> am_pc" where
  "first_pc k = (case k of Once \<Rightarrow> LTry | _ \<Rightarrow> spin_from k False)"

fun is_asleep :: "am_pc \<Rightarrow> bool" where
  "is_asleep (LAsleep k) = True"
| "is_asleep _ = False"

definition in_queue :: "(nat \<Rightarrow> u32) \<Rightarrow> am_sys \<Rightarrow> nat \<Rightarrow> bool" where
  "in_queue pid s v \<longleftrightarrow> am_alive s (pid v) \<and> is_asleep (am_pcs s v)"

inductive am_step :: "bool \<Rightarrow> (nat \<Rightarrow> u32) \<Rightarrow> am_sys \<Rightarrow> am_sys \<Rightarrow> bool" for crashes pid where
  am_moves: "am_alive s (pid t)
     \<Longrightarrow> am_pcs s t = UWake \<longrightarrow> in_queue pid s u \<or> (\<forall>v. \<not> in_queue pid s v)
     \<Longrightarrow> am_step crashes pid s (am_access pid ch u s t)"
| am_locks: "am_alive s (pid t) \<Longrightarrow> out_of_call (am_pcs s t) \<Longrightarrow> k \<noteq> Until True
     \<Longrightarrow> am_step crashes pid s (am_goto t (first_pc k) s)"
| am_unlocks: "am_alive s (pid t) \<Longrightarrow> am_pcs s t = LHeld \<Longrightarrow> am_step crashes pid s (am_goto t UStore s)"
| am_dies: "crashes \<Longrightarrow> am_step crashes pid s (s\<lparr>am_alive := (am_alive s)(p := False)\<rparr>)"

definition am_init :: am_sys where
  "am_init = \<lparr>am_state = 0, am_holder = 0, am_alive = (\<lambda>_. True), am_pcs = (\<lambda>_. LIdle)\<rparr>"

lemma am_goto_simps [simp]:
  "am_pcs (am_goto t pc s) = (am_pcs s)(t := pc)" "am_state (am_goto t pc s) = am_state s"
  "am_holder (am_goto t pc s) = am_holder s" "am_alive (am_goto t pc s) = am_alive s"
  by (simp_all add: am_goto_def)

section \<open>Exclusion while no process dies\<close>

text \<open>The owner is between the exchange that took the lock and the swap that gives it back.\<close>

fun owns_pc :: "am_pc \<Rightarrow> bool" where
  "owns_pc LStore = True"
| "owns_pc LHeld = True"
| "owns_pc UStore = True"
| "owns_pc USwap = True"
| "owns_pc _ = False"

fun recovers_pc :: "am_pc \<Rightarrow> bool" where
  "recovers_pc (RSwap k c) = True"
| "recovers_pc (RStore k c old) = True"
| "recovers_pc (RWake k c) = True"
| "recovers_pc LTryAgain = True"
| "recovers_pc _ = False"

definition am_excl :: "am_sys \<Rightarrow> bool" where
  "am_excl s \<longleftrightarrow> (\<forall>p. am_alive s p) \<and> (\<forall>t. \<not> recovers_pc (am_pcs s t))
     \<and> (\<forall>t u. owns_pc (am_pcs s t) \<longrightarrow> owns_pc (am_pcs s u) \<longrightarrow> t = u)
     \<and> (\<forall>t. owns_pc (am_pcs s t) \<longrightarrow> am_state s \<noteq> 0)"

lemma am_exclI:
  assumes "am_excl s" "am_alive s' = am_alive s" "am_pcs s' = (am_pcs s)(t := pc)" "\<not> recovers_pc pc"
    "owns_pc pc \<Longrightarrow> (\<forall>u. u \<noteq> t \<longrightarrow> \<not> owns_pc (am_pcs s u)) \<and> am_state s' \<noteq> 0"
    "am_state s' = 0 \<Longrightarrow> \<forall>u. u \<noteq> t \<longrightarrow> owns_pc (am_pcs s u) \<longrightarrow> am_state s = 0"
  shows "am_excl s'"
  unfolding am_excl_def assms(2,3)
proof (intro conjI allI impI)
  show "am_alive s p" for p using assms(1) by (simp add: am_excl_def)
  show "\<not> recovers_pc (((am_pcs s)(t := pc)) u)" for u using assms(1,4) by (simp add: am_excl_def)
  show "a = b" if "owns_pc (((am_pcs s)(t := pc)) a)" "owns_pc (((am_pcs s)(t := pc)) b)" for a b
    using that assms(1,5) by (auto simp: am_excl_def split: if_splits)
  show "am_state s' \<noteq> 0" if "owns_pc (((am_pcs s)(t := pc)) a)" for a
    using that assms(1,5,6) by (auto simp: am_excl_def split: if_splits)
qed

lemma awake_pcs [simp]:
  "owns_pc (am_awake pc) = owns_pc pc" "recovers_pc (am_awake pc) = recovers_pc pc"
  by (cases pc; simp add: am_awake_def spin_from_def)+

lemma am_excl_wake: "am_excl s \<Longrightarrow> am_excl (ulock_wake_one u s)"
  by (auto simp: am_excl_def ulock_wake_one_def)

lemma am_free: "am_excl s \<Longrightarrow> am_state s = 0 \<Longrightarrow> \<not> owns_pc (am_pcs s u)"
  by (auto simp: am_excl_def)

lemma am_alone: "am_excl s \<Longrightarrow> owns_pc (am_pcs s t) \<Longrightarrow> owns_pc (am_pcs s u) \<longleftrightarrow> u = t"
  by (auto simp: am_excl_def)

lemma plain_pcs [simp]:
  "\<not> owns_pc (spin_from k c)" "\<not> recovers_pc (spin_from k c)" "\<not> owns_pc (on_timeout k c)" "\<not> recovers_pc (on_timeout k c)"
  "\<not> owns_pc (first_pc k)" "\<not> recovers_pc (first_pc k)"
  by (auto simp: spin_from_def on_timeout_def first_pc_def split: lock_call.split bool.split)

lemma am_excl_goto: "am_excl s \<Longrightarrow> \<not> owns_pc pc \<Longrightarrow> \<not> recovers_pc pc \<Longrightarrow> am_excl (am_goto t pc s)"
  by (erule am_exclI [where t = t and pc = pc]) (auto dest: am_free)

lemma am_excl_cas:
  assumes "am_excl s" "old = 0 \<longrightarrow> owns_pc yes" "old \<noteq> 0 \<longrightarrow> \<not> owns_pc yes" "new \<noteq> 0"
    "\<not> recovers_pc yes" "\<not> owns_pc no" "\<not> recovers_pc no" "\<not> owns_pc (am_pcs s t)"
  shows "am_excl (am_cas t old new yes no s)"
proof (cases "am_state s = old")
  case True
  have "am_excl (am_goto t yes (s\<lparr>am_state := new\<rparr>))"
    by (rule am_exclI [OF assms(1), where t = t and pc = yes]) (use assms True in \<open>auto dest: am_free\<close>)
  then show ?thesis using True by (simp add: am_cas_def)
qed (simp add: am_cas_def am_excl_goto assms)

lemma am_excl_own:
  assumes "am_excl s" "owns_pc (am_pcs s t)" "owns_pc pc" "\<not> recovers_pc pc"
  shows "am_excl (am_goto t pc (s\<lparr>am_holder := h\<rparr>))" "am_excl (am_goto t pc s)"
  by (rule am_exclI [OF assms(1), where t = t and pc = pc];
      use assms am_alone [OF assms(1,2)] am_free [OF assms(1)] in auto)+

lemma am_excl_swap:
  assumes "am_excl s" "owns_pc (am_pcs s t)" "\<not> owns_pc pc" "\<not> recovers_pc pc"
  shows "am_excl (am_goto t pc (s\<lparr>am_state := 0\<rparr>))"
  by (rule am_exclI [OF assms(1), where t = t and pc = pc]) (use assms am_alone [OF assms(1,2)] in auto)

lemma am_access_excl:
  assumes "am_excl s"
  shows "am_excl (am_access pid ch u s t)"
proof -
  have n: "\<not> recovers_pc (am_pcs s t)" "am_alive s p" for p using assms by (auto simp: am_excl_def)
  show ?thesis
    using n am_excl_wake [OF assms, of u]
    by (cases "am_pcs s t")
      (simp_all add: am_access_def am_excl_goto am_excl_cas am_excl_own am_excl_swap assms split: am_choice.split)
qed

lemma am_step_excl: "am_excl s \<Longrightarrow> am_step False pid s s' \<Longrightarrow> am_excl s'"
  by (erule am_step.cases) (simp_all add: am_access_excl am_excl_goto am_excl_own)

lemma am_init_excl: "am_excl am_init"
  by (simp add: am_excl_def am_init_def)

interpretation apple_excl: invariant_system am_init "am_step False pid" am_excl
  by unfold_locales (auto intro: am_init_excl am_step_excl)

text \<open>
  C8. Mutual exclusion of the macOS mutex: whatever the interleaving of \<open>lock\<close>, \<open>lock_timeout\<close>, \<open>try_lock\<close> and \<open>unlock\<close> of any number of
  threads, with expired deadlines and interrupted waits, as long as no process dies no two threads are in the critical section, and
  nobody resets a lock that is held.
\<close>

theorem apple_mutex_exclusion:
  assumes "rtranclp (am_step False pid) am_init s"
  shows "(am_pcs s t = LHeld \<and> am_pcs s u = LHeld \<longrightarrow> t = u) \<and> (am_pcs s t = LHeld \<longrightarrow> am_state s \<noteq> 0)
    \<and> (\<forall>k c. am_pcs s t \<noteq> RSwap k c)"
proof -
  have e: "am_excl s" by (rule apple_excl.reachable_inv [OF assms])
  have "\<not> recovers_pc (am_pcs s t)" using e by (simp add: am_excl_def)
  then show ?thesis using am_alone [OF e, of t u] am_free [OF e, of t] by auto
qed

text \<open>Runs: a step with its choices, or nothing when its guard fails.\<close>

datatype am_event = EvMove am_choice nat nat | EvLock lock_call nat | EvUnlock nat | EvDie u32

fun am_do :: "(nat \<Rightarrow> u32) \<Rightarrow> am_event \<Rightarrow> am_sys \<Rightarrow> am_sys option" where
  "am_do pid (EvMove ch u t) s =
     (if am_alive s (pid t) \<and> (in_queue pid s u \<or> am_pcs s t \<noteq> UWake) then Some (am_access pid ch u s t) else None)"
| "am_do pid (EvLock k t) s =
     (if am_alive s (pid t) \<and> out_of_call (am_pcs s t) \<and> k \<noteq> Until True then Some (am_goto t (first_pc k) s) else None)"
| "am_do pid (EvUnlock t) s =
     (if am_alive s (pid t) \<and> am_pcs s t = LHeld then Some (am_goto t UStore s) else None)"
| "am_do pid (EvDie p) s = Some (s\<lparr>am_alive := (am_alive s)(p := False)\<rparr>)"

fun am_run :: "(nat \<Rightarrow> u32) \<Rightarrow> am_event list \<Rightarrow> am_sys \<Rightarrow> am_sys option" where
  "am_run pid [] s = Some s"
| "am_run pid (x # xs) s = (case am_do pid x s of None \<Rightarrow> None | Some s' \<Rightarrow> am_run pid xs s')"

lemma am_do_step: "am_do pid x s = Some s' \<Longrightarrow> (\<exists>p. x = EvDie p) \<longrightarrow> crashes \<Longrightarrow> am_step crashes pid s s'"
  by (cases x) (auto intro: am_step.intros split: if_splits)

lemma am_run_steps:
  "am_run pid xs s = Some s' \<Longrightarrow> (\<exists>p. EvDie p \<in> set xs) \<longrightarrow> crashes \<Longrightarrow> rtranclp (am_step crashes pid) s s'"
proof (induction xs arbitrary: s)
  case (Cons x xs)
  obtain s1 where s1: "am_do pid x s = Some s1" "am_run pid xs s1 = Some s'"
    using Cons.prems(1) by (auto split: option.splits)
  have "am_step crashes pid s s1" using am_do_step [OF s1(1)] Cons.prems(2) by auto
  then show ?case using Cons.IH [OF s1(2)] Cons.prems(2) by (meson converse_rtranclp_into_rtranclp list.set_intros(2))
qed simp

text \<open>Thread 0 has the lock, thread 1 sleeps; after the unlock thread 1 has it.\<close>

definition own_pid :: "nat \<Rightarrow> u32" where
  "own_pid t = of_nat t + 100"

definition moves :: "nat \<Rightarrow> nat \<Rightarrow> am_event list" where
  "moves n t = replicate n (EvMove Nothing 1 t)"

definition handover_trace :: "am_event list" where
  "handover_trace = EvLock Forever 0 # moves 2 0 @ EvLock Forever 1 # moves 45 1 @ EvUnlock 0 # moves 3 0 @ moves 2 1"

lemma handover_runs:
  "case am_run own_pid handover_trace am_init of None \<Rightarrow> False
   | Some s \<Rightarrow> am_pcs s 0 = LIdle \<and> am_pcs s 1 = LHeld \<and> am_state s = 2 \<and> am_holder s = 101"
  by code_simp

theorem apple_mutex_exclusion_witness:
  "\<exists>s. rtranclp (am_step False own_pid) am_init s \<and> am_pcs s 1 = LHeld \<and> am_state s \<noteq> 0 \<and> am_pcs s 0 \<noteq> LHeld"
proof -
  obtain s where s: "am_run own_pid handover_trace am_init = Some s" "am_pcs s 1 = LHeld"
    using handover_runs by (auto split: option.splits)
  have "rtranclp (am_step False own_pid) am_init s"
    by (rule am_run_steps [OF s(1)]) (auto simp: handover_trace_def moves_def)
  then show ?thesis using apple_mutex_exclusion [of own_pid s 1 0] s(2) by auto
qed

section \<open>Nobody sleeps on a free mutex\<close>

text \<open>A thread that will set the state to 2, or wake a sleeper.\<close>

fun marks_pc :: "am_pc \<Rightarrow> bool" where
  "marks_pc (LSpin k c n) = c"
| "marks_pc (LLoad k c) = c"
| "marks_pc (LMark k c) = c"
| "marks_pc UWake = True"
| "marks_pc (RStore k c old) = (old = 2)"
| "marks_pc (RWake k c) = True"
| "marks_pc _ = False"

definition am_wk :: "(nat \<Rightarrow> u32) \<Rightarrow> am_sys \<Rightarrow> bool" where
  "am_wk pid s \<longleftrightarrow> am_state s \<in> {0, 1, 2}
     \<and> ((\<exists>v. in_queue pid s v) \<longrightarrow> am_state s = 2 \<or> (\<exists>t. marks_pc (am_pcs s t)))"

lemma am_wkI:
  assumes "am_wk pid s" "am_pcs s' = (am_pcs s)(t := pc)" "am_alive s' = am_alive s" "am_state s' \<in> {0, 1, 2}"
    "marks_pc pc \<or> am_state s' = 2 \<or> \<not> marks_pc (am_pcs s t) \<and> \<not> is_asleep pc \<and> (am_state s \<noteq> 2 \<or> am_state s' = am_state s)"
  shows "am_wk pid s'"
proof -
  have "\<exists>u. marks_pc (((am_pcs s)(t := pc)) u)" if "marks_pc (am_pcs s u)" "\<not> marks_pc (am_pcs s t)" for u
    using that by (intro exI [of _ u]) auto
  moreover have "\<exists>v. in_queue pid s v" if "in_queue pid s' v" "\<not> is_asleep pc" for v
    using that assms(2,3) by (auto simp: in_queue_def split: if_splits)
  moreover have "\<exists>u. marks_pc (((am_pcs s)(t := pc)) u)" if "marks_pc pc"
    using that by (intro exI [of _ t]) simp
  ultimately show ?thesis using assms unfolding am_wk_def by (metis (no_types, lifting))
qed

lemma wk_pcs [simp]:
  "marks_pc (spin_from k c) = c" "\<not> is_asleep (spin_from k c)" "\<not> is_asleep (on_timeout k c)"
  "\<not> is_asleep (recovered k c)" "\<not> is_asleep (first_pc k)" "\<not> marks_pc (first_pc k)" "\<not> is_asleep (am_awake pc)"
  by (auto simp: spin_from_def on_timeout_def first_pc_def recovered_def am_awake_def
      split: lock_call.split bool.split am_pc.split)

lemma am_wk_state: "am_wk pid s \<Longrightarrow> am_state s \<noteq> 0 \<Longrightarrow> am_state s \<noteq> 1 \<Longrightarrow> am_state s = 2"
  by (auto simp: am_wk_def)

lemma am_wk_goto:
  assumes "am_wk pid s" "marks_pc pc \<or> am_state s = 2 \<or> \<not> marks_pc (am_pcs s t) \<and> \<not> is_asleep pc"
  shows "am_wk pid (am_goto t pc s)" "am_wk pid (am_goto t pc (s\<lparr>am_holder := h\<rparr>))"
  by (rule am_wkI [OF assms(1), where t = t and pc = pc]; use assms in \<open>auto simp: am_wk_def\<close>)+

lemma am_wk_cas:
  assumes "am_wk pid s" "new \<in> {1, 2}" "old \<noteq> 2" "new = 2 \<or> \<not> marks_pc (am_pcs s t) \<and> \<not> is_asleep yes"
    "marks_pc no \<or> \<not> marks_pc (am_pcs s t) \<and> \<not> is_asleep no"
  shows "am_wk pid (am_cas t old new yes no s)"
proof (cases "am_state s = old")
  case True
  have "am_wk pid (am_goto t yes (s\<lparr>am_state := new\<rparr>))"
    by (rule am_wkI [OF assms(1), where t = t and pc = yes]) (use assms True in auto)
  then show ?thesis using True by (simp add: am_cas_def)
next
  case False
  then show ?thesis using am_wk_goto(1) [OF assms(1), of no t] assms(5) by (auto simp: am_cas_def)
qed

lemma am_wk_clear:
  assumes "am_wk pid s" "\<not> marks_pc (am_pcs s t)" "\<not> is_asleep pc" "am_state s = 2 \<longrightarrow> marks_pc pc"
  shows "am_wk pid (am_goto t pc (s\<lparr>am_state := 0\<rparr>))"
  by (rule am_wkI [OF assms(1), where t = t and pc = pc]) (use assms in auto)

lemma am_wk_wake_all: "am_wk pid s \<Longrightarrow> \<not> is_asleep pc \<Longrightarrow> am_wk pid (am_goto t pc (ulock_wake_all pid s))"
  by (auto simp: am_wk_def ulock_wake_all_def in_queue_def split: if_splits)

lemma awake_marks: "is_asleep pc \<Longrightarrow> marks_pc (am_awake pc)"
  by (cases pc) (simp_all add: am_awake_def)

lemma am_wk_wake_one:
  assumes "am_wk pid s" "am_pcs s t = UWake" "in_queue pid s u \<or> (\<forall>v. \<not> in_queue pid s v)"
  shows "am_wk pid (am_goto t LIdle (ulock_wake_one u s))" (is "am_wk pid ?s")
proof (cases "in_queue pid s u")
  case True
  then have "u \<noteq> t" "is_asleep (am_pcs s u)" using assms(2) by (auto simp: in_queue_def)
  then have "marks_pc (am_pcs ?s u)" using awake_marks by (simp add: ulock_wake_one_def)
  then have "\<exists>v. marks_pc (am_pcs ?s v)" by blast
  moreover have "am_state ?s \<in> {0, 1, 2}" using assms(1) by (simp add: am_wk_def ulock_wake_one_def)
  ultimately show ?thesis unfolding am_wk_def by blast
next
  case False
  then have "\<not> in_queue pid ?s v" for v
    using assms(3) by (auto simp: ulock_wake_one_def in_queue_def)
  moreover have "am_state ?s \<in> {0, 1, 2}" using assms(1) by (simp add: am_wk_def ulock_wake_one_def)
  ultimately show ?thesis unfolding am_wk_def by blast
qed

lemma am_access_wk:
  assumes "am_wk pid s" "am_pcs s t = UWake \<longrightarrow> in_queue pid s u \<or> (\<forall>v. \<not> in_queue pid s v)"
  shows "am_wk pid (am_access pid ch u s t)"
proof (cases "am_pcs s t")
  case UWake
  then show ?thesis using am_wk_wake_one [OF assms(1) UWake] assms(2) by (simp add: am_access_def)
next
  case (LSpin k c n)
  then show ?thesis
    using am_wk_cas [OF assms(1), of "if c then 2 else 1" 0 t LStore "LSpin k c (n - 1)"] am_wk_goto [OF assms(1)]
    by (cases c) (auto simp: am_access_def)
next
  case (LLoad k c)
  then show ?thesis
    using am_wk_goto(1) [OF assms(1), of "spin_from k c" t] am_wk_goto(1) [OF assms(1), of "LMark k c" t]
      am_wk_goto(1) [OF assms(1), of "LClock k c" t] am_wk_state [OF assms(1)]
    by (cases c) (auto simp: am_access_def)
next
  case (LMark k c)
  then show ?thesis using am_wk_cas [OF assms(1), of 2 1 t] by (auto simp: am_access_def)
next
  case (LAsleep k)
  then show ?thesis
    using am_wk_goto [OF assms(1)] assms(1) by (auto simp: am_access_def split: am_choice.split)
next
  case (RWake k c)
  then show ?thesis using am_wk_wake_all [OF assms(1)] by (simp add: am_access_def)
next
  case (RSwap k c)
  then show ?thesis using am_wk_clear [OF assms(1), of t "RStore k c (am_state s)"] by (simp add: am_access_def)
next
  case USwap
  then show ?thesis
    using am_wk_clear [OF assms(1), of t UWake] am_wk_clear [OF assms(1), of t LIdle] by (simp add: am_access_def)
qed (use assms(1) in \<open>auto simp: am_access_def intro!: am_wk_goto am_wk_cas split: am_choice.split\<close>)

lemma am_step_wk: "am_wk pid s \<Longrightarrow> am_step crashes pid s s' \<Longrightarrow> am_wk pid s'"
proof (erule am_step.cases)
  fix s1 p
  assume "am_wk pid s" "s = s1" "s' = s1\<lparr>am_alive := (am_alive s1)(p := False)\<rparr>"
  then show "am_wk pid s'" by (auto simp: am_wk_def in_queue_def split: if_splits)
next
  fix s1 t k
  assume "am_wk pid s" "s = s1" "s' = am_goto t (first_pc k) s1" "out_of_call (am_pcs s1 t)"
  then show "am_wk pid s'" by (auto simp: out_of_call_def intro!: am_wk_goto)
next
  fix s1 t
  assume "am_wk pid s" "s = s1" "s' = am_goto t UStore s1" "am_pcs s1 t = LHeld"
  then show "am_wk pid s'" by (auto intro!: am_wk_goto)
qed (simp add: am_access_wk)

lemma am_init_wk: "am_wk pid am_init"
  by (simp add: am_wk_def am_init_def in_queue_def)

interpretation apple_wake: invariant_system am_init "am_step crashes pid" "am_wk pid"
  by unfold_locales (auto intro: am_init_wk am_step_wk)


text \<open>What a run leaves alone: the threads without a step of their own that are outside of every call, and the processes that nobody kills.\<close>

fun event_thread :: "am_event \<Rightarrow> nat option" where
  "event_thread (EvMove ch u t) = Some t"
| "event_thread (EvLock k t) = Some t"
| "event_thread (EvUnlock t) = Some t"
| "event_thread (EvDie p) = None"

lemma access_others:
  assumes "x \<noteq> t" "am_pcs s x = LIdle"
  shows "am_pcs (am_access pid ch u s t) x = LIdle"
  using assms
  by (cases "am_pcs s t")
    (auto simp: am_access_def am_cas_def am_awake_def ulock_wake_one_def ulock_wake_all_def split: am_choice.split)

lemma access_alive [simp]: "am_alive (am_access pid ch u s t) = am_alive s"
  by (cases "am_pcs s t")
    (auto simp: am_access_def am_cas_def ulock_wake_one_def ulock_wake_all_def split: am_choice.split)

lemma am_do_frame:
  assumes "am_do pid e s = Some s'"
  shows "am_pcs s x = LIdle \<Longrightarrow> event_thread e \<noteq> Some x \<Longrightarrow> am_pcs s' x = LIdle"
    "am_alive s' p \<longleftrightarrow> am_alive s p \<and> e \<noteq> EvDie p"
  using assms by (cases e; auto simp: access_others split: if_splits)+

lemma am_run_frame:
  "am_run pid xs s = Some s' \<Longrightarrow> am_pcs s x = LIdle \<Longrightarrow> \<forall>e \<in> set xs. event_thread e \<noteq> Some x \<Longrightarrow> am_pcs s' x = LIdle"
  "am_run pid xs s = Some s' \<Longrightarrow> am_alive s' p \<longleftrightarrow> am_alive s p \<and> EvDie p \<notin> set xs"
  by (induction xs arbitrary: s) (auto simp: am_do_frame split: option.splits)

text \<open>Thread 2 is killed in its \<open>lock\<close>; thread 0 has given the mutex back and has yet to wake thread 1.\<close>

definition sleeper_trace :: "am_event list" where
  "sleeper_trace = EvLock Forever 0 # moves 2 0 @ EvLock Forever 2 # EvDie (own_pid 2) # EvLock Forever 1 # moves 45 1 @ EvUnlock 0 # moves 2 0"

lemma sleeper_runs:
  "case am_run own_pid sleeper_trace am_init of None \<Rightarrow> False
   | Some s \<Rightarrow> am_pcs s 0 = UWake \<and> am_pcs s 1 = LAsleep Forever \<and> am_pcs s 2 = spin_from Forever False \<and> am_state s = 0 \<and> am_holder s = 0"
  by code_simp

lemma sleeper_frame:
  assumes "am_run own_pid sleeper_trace am_init = Some s"
  shows "am_alive s p \<longleftrightarrow> p \<noteq> own_pid 2" "2 < t \<Longrightarrow> am_pcs s t = LIdle" "rtranclp (am_step True own_pid) am_init s"
  using am_run_frame [OF assms] am_run_steps [OF assms, of True] by (auto simp: sleeper_trace_def moves_def am_init_def)


text \<open>
  The exception happens: thread 0 is killed between the swap that frees the mutex and its wake. The mutex is free, nobody holds it and
  nobody is on the way to thread 1, which sleeps in a \<open>lock\<close> without a deadline.
\<close>

theorem killed_waker_strands_sleeper:
  "\<exists>s. rtranclp (am_step True own_pid) am_init s \<and> am_alive s (own_pid 1) \<and> am_pcs s 1 = LAsleep Forever
     \<and> am_state s = 0 \<and> am_holder s = 0 \<and> (\<forall>t. am_alive s (own_pid t) \<longrightarrow> t \<noteq> 1 \<longrightarrow> am_pcs s t = LIdle)"
proof -
  obtain s where s: "am_run own_pid sleeper_trace am_init = Some s" "am_pcs s 1 = LAsleep Forever" "am_state s = 0" "am_holder s = 0"
    using sleeper_runs by (auto split: option.splits)
  note f = sleeper_frame [OF s(1)]
  let ?s = "s\<lparr>am_alive := (am_alive s)(own_pid 0 := False)\<rparr>"
  have "rtranclp (am_step True own_pid) am_init ?s" by (rule rtranclp.rtrancl_into_rtrancl [OF f(3) am_dies]) simp
  moreover have "am_pcs ?s t = LIdle" if "am_alive ?s (own_pid t)" "t \<noteq> 1" for t
  proof -
    have "own_pid t \<noteq> own_pid 0" "own_pid t \<noteq> own_pid 2" using that(1) f(1) by (simp_all split: if_splits)
    then have "t \<noteq> 0" "t \<noteq> 2" by metis+
    then show ?thesis using f(2) [of t] that(2) by simp
  qed
  moreover have "am_alive ?s (own_pid 1)" using f(1) by (simp add: own_pid_def)
  ultimately show ?thesis using s by auto
qed

section \<open>Two threads that recover the same mutex\<close>

text \<open>
  C36. Recovery of a dead holder's mutex is not safe: \<open>try_recover_dead_holder\<close> resets the state after it looked at the holder, without a
  test that the holder is still the same. There is a run in which a holder dies, two live threads find it dead, one of
  them resets the mutex and locks it, and the other resets it again and locks it too: both are in the critical section.
\<close>

theorem apple_recovery_breaks_exclusion:
  "\<exists>s. rtranclp (am_step True own_pid) am_init s \<and> am_pcs s 1 = LHeld \<and> am_pcs s 2 = LHeld
     \<and> am_alive s (own_pid 1) \<and> am_alive s (own_pid 2)"
proof -
  let ?xs = "EvLock Once 0 # moves 2 0 @ EvDie (own_pid 0) # EvLock Once 1 # moves 3 1 @ EvLock Once 2 # moves 7 2 @ moves 4 1"
  have "case am_run own_pid ?xs am_init of None \<Rightarrow> False
     | Some s \<Rightarrow> am_pcs s 1 = LHeld \<and> am_pcs s 2 = LHeld \<and> am_alive s (own_pid 1) \<and> am_alive s (own_pid 2)"
    by code_simp
  then obtain s where s: "am_run own_pid ?xs am_init = Some s" "am_pcs s 1 = LHeld" "am_pcs s 2 = LHeld"
    "am_alive s (own_pid 1)" "am_alive s (own_pid 2)"
    by (auto split: option.splits)
  have "rtranclp (am_step True own_pid) am_init s" by (rule am_run_steps [OF s(1)]) simp
  then show ?thesis using s by blast
qed

text \<open>Alone, a \<open>try_lock\<close> that finds a dead holder takes the mutex over.\<close>

definition alone :: "(nat \<Rightarrow> u32) \<Rightarrow> nat \<Rightarrow> am_sys \<Rightarrow> am_sys" where
  "alone pid t s = am_access pid Nothing t s t"

lemma alone_recovers:
  assumes "am_pcs s t = LTry" "am_state s \<noteq> 0" "am_holder s \<noteq> 0" "\<not> am_alive s (am_holder s)"
  shows "alone pid t (alone pid t (alone pid t (alone pid t s))) = am_goto t (RStore Once False (am_state s)) (s\<lparr>am_state := 0\<rparr>)"
  using assms by (simp add: alone_def am_access_def am_cas_def am_goto_def)

lemma alone_takes:
  assumes "am_pcs s t = LTryAgain" "am_state s = 0"
  shows "am_pcs (alone pid t (alone pid t s)) t = LHeld" "am_state (alone pid t (alone pid t s)) = 1"
    "am_holder (alone pid t (alone pid t s)) = pid t"
  using assms by (simp_all add: alone_def am_access_def am_cas_def)

lemma alone_resets:
  assumes "am_pcs s t = RStore Once False old" "am_state s = 0"
  shows "\<exists>n. am_pcs ((alone pid t ^^ n) s) t = LTryAgain \<and> am_state ((alone pid t ^^ n) s) = 0"
proof (cases "old = 2")
  case True
  then show ?thesis
    using assms by (intro exI [of _ "Suc (Suc 0)"]) (simp add: alone_def am_access_def recovered_def ulock_wake_all_def)
next
  case False
  then show ?thesis
    using assms by (intro exI [of _ "Suc 0"]) (simp add: alone_def am_access_def recovered_def)
qed

lemma try_lock_recovers:
  assumes "am_pcs s t = LTry" "am_state s \<noteq> 0" "am_holder s \<noteq> 0" "\<not> am_alive s (am_holder s)"
  shows "\<exists>n. am_pcs ((alone pid t ^^ n) s) t = LHeld \<and> am_state ((alone pid t ^^ n) s) = 1
    \<and> am_holder ((alone pid t ^^ n) s) = pid t"
proof -
  let ?s = "am_goto t (RStore Once False (am_state s)) (s\<lparr>am_state := 0\<rparr>)"
  obtain n where n: "am_pcs ((alone pid t ^^ n) ?s) t = LTryAgain" "am_state ((alone pid t ^^ n) ?s) = 0"
    using alone_resets [of ?s t "am_state s" pid] by auto
  have "(alone pid t ^^ (Suc (Suc n) + Suc (Suc (Suc (Suc 0))))) s = alone pid t (alone pid t ((alone pid t ^^ n) ?s))"
    unfolding funpow_add using alone_recovers [OF assms, of pid] by simp
  then show ?thesis using alone_takes [OF n, of pid] by metis
qed

end
