(* ===== verification/Semaphore.thy ===== *)
theory Semaphore
  imports Prelude
begin

text \<open>
  \<open>semaphore.rs\<close> on macOS: a counting semaphore that is one word of shared memory with \<open>__ulock_wait\<close> and \<open>__ulock_wake\<close>.
  Any number of threads open it, wait and post, one step per access and per system call. The reference counter of the segment is a count of
  the handles acquired.
\<close>

section \<open>The threads\<close>

text \<open>
  Opening: the handle is acquired, its counter is read, the count is stored if it is at most 1. Waiting (with a deadline or without): the
  load, the exchange with the value it expects, the look at the clock once the count was found 0, \<open>__ulock_wait\<close>. Posting: the addition
  and the wake, with the posts left.
\<close>

datatype sa_pc =
    SClosed
  | SRefs u32
  | SInit u32
  | SOpen
  | SLoad bool
  | SCas bool u32
  | SZero bool
  | SWait bool
  | SAsleep bool
  | PAdd nat
  | PWake nat

text \<open>\<open>sa_taken\<close> and \<open>sa_posted\<close> count the waits that returned true and the additions.\<close>

record sa_sys =
  sa_count :: u32
  sa_refs :: nat
  sa_pcs :: "nat \<Rightarrow> sa_pc"
  sa_taken :: nat
  sa_posted :: nat

definition sa_goto :: "nat \<Rightarrow> sa_pc \<Rightarrow> sa_sys \<Rightarrow> sa_sys" where
  "sa_goto t pc s = s\<lparr>sa_pcs := (sa_pcs s)(t := pc)\<rparr>"

text \<open>After the value that was seen: the exchange is tried, or the count is 0.\<close>

definition sa_saw :: "bool \<Rightarrow> u32 \<Rightarrow> sa_pc" where
  "sa_saw timed cur = (if 0 < cur then SCas timed cur else SZero timed)"

definition sa_awake :: "sa_pc \<Rightarrow> sa_pc" where
  "sa_awake pc = (case pc of SAsleep timed \<Rightarrow> SLoad timed | _ \<Rightarrow> pc)"

definition post_next :: "nat \<Rightarrow> sa_pc" where
  "post_next n = (if n = 0 then SOpen else PAdd n)"

text \<open>What the clock and the kernel do in a step: nothing, an expired deadline, an interrupted wait or an exchange that fails without reason.\<close>

datatype sa_choice = Plain | Expired | Spurious

definition sa_access :: "sa_choice \<Rightarrow> nat \<Rightarrow> sa_sys \<Rightarrow> nat \<Rightarrow> sa_sys" where
  "sa_access ch u s t = (case sa_pcs s t of
     SRefs n \<Rightarrow> sa_goto t (if sa_refs s \<le> 1 then SInit n else SOpen) s
   | SInit n \<Rightarrow> sa_goto t SOpen (s\<lparr>sa_count := n\<rparr>)
   | SLoad timed \<Rightarrow> sa_goto t (sa_saw timed (sa_count s)) s
   | SCas timed cur \<Rightarrow>
       if sa_count s = cur \<and> ch \<noteq> Spurious
       then sa_goto t SOpen (s\<lparr>sa_count := cur - 1, sa_taken := sa_taken s + 1\<rparr>)
       else sa_goto t (sa_saw timed (sa_count s)) s
   | SZero timed \<Rightarrow> sa_goto t (if timed \<and> ch = Expired then SOpen else SWait timed) s
   | SWait timed \<Rightarrow> sa_goto t (if sa_count s = 0 then SAsleep timed else SLoad timed) s
   | SAsleep timed \<Rightarrow>
       (case ch of Plain \<Rightarrow> s
        | Expired \<Rightarrow> if timed then sa_goto t SOpen s else s
        | Spurious \<Rightarrow> sa_goto t (SLoad timed) s)
   | PAdd n \<Rightarrow> sa_goto t (PWake (n - 1)) (s\<lparr>sa_count := sa_count s + 1, sa_posted := sa_posted s + 1\<rparr>)
   | PWake n \<Rightarrow> sa_goto t (post_next n) (sa_goto u (sa_awake (sa_pcs s u)) s)
   | _ \<Rightarrow> s)"

fun sa_sleeps :: "sa_pc \<Rightarrow> bool" where
  "sa_sleeps (SAsleep timed) = True"
| "sa_sleeps _ = False"

text \<open>A thread opens the semaphore if \<open>opens\<close>; one that has it open starts a wait or a post.\<close>

inductive sa_step :: "bool \<Rightarrow> sa_sys \<Rightarrow> sa_sys \<Rightarrow> bool" for opens where
  sa_moves: "(\<exists>n. sa_pcs s t = PWake n) \<longrightarrow> sa_sleeps (sa_pcs s u) \<or> (\<forall>v. \<not> sa_sleeps (sa_pcs s v))
     \<Longrightarrow> sa_step opens s (sa_access ch u s t)"
| sa_opens: "opens \<Longrightarrow> sa_pcs s t = SClosed \<Longrightarrow> sa_step opens s (sa_goto t (SRefs n) (s\<lparr>sa_refs := sa_refs s + 1\<rparr>))"
| sa_waits: "sa_pcs s t = SOpen \<Longrightarrow> sa_step opens s (sa_goto t (SLoad timed) s)"
| sa_posts: "sa_pcs s t = SOpen \<Longrightarrow> sa_step opens s (sa_goto t (post_next n) s)"

text \<open>A new segment that nobody has open, and one that \<open>n\<close> threads have open with the count \<open>c\<close>.\<close>

definition sa_fresh :: sa_sys where
  "sa_fresh = \<lparr>sa_count = 0, sa_refs = 0, sa_pcs = (\<lambda>_. SClosed), sa_taken = 0, sa_posted = 0\<rparr>"

definition sa_opened :: "nat \<Rightarrow> u32 \<Rightarrow> sa_sys" where
  "sa_opened n c = \<lparr>sa_count = c, sa_refs = n, sa_pcs = (\<lambda>t. if t < n then SOpen else SClosed), sa_taken = 0, sa_posted = 0\<rparr>"

lemma sa_goto_simps [simp]:
  "sa_pcs (sa_goto t pc s) = (sa_pcs s)(t := pc)" "sa_count (sa_goto t pc s) = sa_count s" "sa_refs (sa_goto t pc s) = sa_refs s"
  "sa_taken (sa_goto t pc s) = sa_taken s" "sa_posted (sa_goto t pc s) = sa_posted s"
  by (simp_all add: sa_goto_def)

section \<open>Every wait takes one post\<close>

text \<open>
  The count is what was there at first and was posted, less what was taken; nobody opens. When somebody sleeps, the count is
  at most the number of threads that look at it again or are about to wake somebody.
\<close>

fun on_way :: "sa_pc \<Rightarrow> bool" where
  "on_way (SLoad timed) = True"
| "on_way (SCas timed cur) = True"
| "on_way (PWake n) = True"
| "on_way _ = False"

fun is_opening :: "sa_pc \<Rightarrow> bool" where
  "is_opening (SRefs n) = True"
| "is_opening (SInit n) = True"
| "is_opening _ = False"

definition sa_inv :: "u32 \<Rightarrow> sa_sys \<Rightarrow> bool" where
  "sa_inv c s \<longleftrightarrow> (\<forall>t. \<not> is_opening (sa_pcs s t)) \<and> finite {t. on_way (sa_pcs s t)}
     \<and> (\<forall>t timed cur. sa_pcs s t = SCas timed cur \<longrightarrow> 0 < cur)
     \<and> (unat c + sa_posted s < 2 ^ 32 \<longrightarrow> unat (sa_count s) + sa_taken s = unat c + sa_posted s
         \<and> ((\<exists>v. sa_sleeps (sa_pcs s v)) \<longrightarrow> unat (sa_count s) \<le> threads_at on_way (sa_pcs s)))"

lemma sa_invI:
  assumes "sa_inv c s" "sa_pcs s' = (sa_pcs s)(t := pc)" "\<not> is_opening pc" "\<And>timed cur. pc = SCas timed cur \<Longrightarrow> 0 < cur"
    "sa_posted s \<le> sa_posted s'"
    "unat c + sa_posted s' < 2 ^ 32 \<Longrightarrow> unat (sa_count s) + sa_taken s = unat c + sa_posted s \<Longrightarrow>
       unat (sa_count s') + sa_taken s' = unat c + sa_posted s'"
    "unat c + sa_posted s' < 2 ^ 32 \<Longrightarrow> unat (sa_count s) + sa_taken s = unat c + sa_posted s \<Longrightarrow>
       unat (sa_count s') = 0 \<or> unat (sa_count s') + (if on_way (sa_pcs s t) then 1 else 0) \<le> unat (sa_count s) + (if on_way pc then 1 else 0)
         \<and> \<not> sa_sleeps pc"
  shows "sa_inv c s'"
proof -
  have fin: "finite {u. on_way (sa_pcs s u)}" using assms(1) by (simp add: sa_inv_def)
  note cnt = threads_at_upd [of on_way "sa_pcs s" t pc, OF fin]
  have old: "\<exists>v. sa_sleeps (sa_pcs s v)" if "sa_sleeps (((sa_pcs s)(t := pc)) v)" "\<not> sa_sleeps pc" for v
    using that by (auto split: if_splits)
  have few: "unat (sa_count s') \<le> threads_at on_way ((sa_pcs s)(t := pc))"
    if l: "unat c + sa_posted s' < 2 ^ 32" and sl: "sa_sleeps (((sa_pcs s)(t := pc)) v)" for v
  proof -
    have l0: "unat c + sa_posted s < 2 ^ 32" using l assms(5) by simp
    then have e: "unat (sa_count s) + sa_taken s = unat c + sa_posted s"
      and w: "(\<exists>v. sa_sleeps (sa_pcs s v)) \<longrightarrow> unat (sa_count s) \<le> threads_at on_way (sa_pcs s)"
      using assms(1) by (simp_all add: sa_inv_def)
    show ?thesis using assms(7) [OF l e] w old [OF sl] cnt by auto
  qed
  have total: "unat (sa_count s') + sa_taken s' = unat c + sa_posted s'" if "unat c + sa_posted s' < 2 ^ 32"
    using that assms(1,5,6) by (simp add: sa_inv_def)
  show ?thesis
    unfolding sa_inv_def assms(2)
  proof (intro conjI allI impI)
    show "\<not> is_opening (((sa_pcs s)(t := pc)) u)" for u using assms(1,3) by (simp add: sa_inv_def)
    show "0 < cur" if "((sa_pcs s)(t := pc)) u = SCas timed cur" for u timed cur
      using that assms(1,4) by (auto simp: sa_inv_def split: if_splits)
    show "finite {u. on_way (((sa_pcs s)(t := pc)) u)}" by (rule finite_at_upd [of on_way "sa_pcs s" t pc, OF fin])
  qed (use few total in blast)+
qed

lemma sa_inv_goto:
  assumes "sa_inv c s" "\<not> is_opening pc" "\<And>timed cur. pc = SCas timed cur \<Longrightarrow> 0 < cur"
    "sa_count s = 0 \<or> (on_way (sa_pcs s t) \<longrightarrow> on_way pc) \<and> \<not> sa_sleeps pc"
  shows "sa_inv c (sa_goto t pc s)"
  by (rule sa_invI [OF assms(1), where t = t and pc = pc]) (use assms(2-4) in \<open>auto simp: unat_0_iff\<close>)

lemma saw_pc [simp]: "\<not> is_opening (sa_saw timed cur)" "\<not> sa_sleeps (sa_saw timed cur)" "\<not> is_opening (post_next n)" "\<not> sa_sleeps (post_next n)"
  by (simp_all add: sa_saw_def post_next_def)

lemma sa_inv_saw: "sa_inv c s \<Longrightarrow> sa_inv c (sa_goto t (sa_saw timed (sa_count s)) s)"
  by (rule sa_inv_goto) (auto simp: sa_saw_def word_gt_0 split: if_splits)

lemma sa_inv_take:
  assumes "sa_inv c s" "sa_pcs s t = SCas timed (sa_count s)"
  shows "sa_inv c (sa_goto t SOpen (s\<lparr>sa_count := sa_count s - 1, sa_taken := sa_taken s + 1\<rparr>))"
proof -
  have "0 < sa_count s" using assms unfolding sa_inv_def by blast
  then have "unat (sa_count s - 1) = unat (sa_count s) - 1" "0 < unat (sa_count s)"
    by (simp_all add: unat_minus_one word_gt_0 unat_gt_0)
  then show ?thesis
    by (intro sa_invI [OF assms(1), where t = t and pc = SOpen]) (auto simp: assms(2))
qed

lemma sa_inv_add:
  assumes "sa_inv c s" "sa_pcs s t = PAdd n"
  shows "sa_inv c (sa_goto t (PWake m) (s\<lparr>sa_count := sa_count s + 1, sa_posted := sa_posted s + 1\<rparr>))"
proof -
  have "unat (sa_count s + 1) = unat (sa_count s) + 1"
    if "unat c + (sa_posted s + 1) < 2 ^ 32" "unat (sa_count s) + sa_taken s = unat c + sa_posted s"
    using that by (simp add: unat_word_ariths)
  then show ?thesis
    by (intro sa_invI [OF assms(1), where t = t and pc = "PWake m"]) (auto simp: assms(2))
qed

lemma sa_inv_wake:
  assumes "sa_inv c s" "sa_pcs s t = PWake n" "sa_sleeps (sa_pcs s u) \<or> (\<forall>v. \<not> sa_sleeps (sa_pcs s v))"
  shows "sa_inv c (sa_goto t (post_next n) (sa_goto u (sa_awake (sa_pcs s u)) s))"
proof (cases "sa_sleeps (sa_pcs s u)")
  case True
  then obtain timed where u: "sa_pcs s u = SAsleep timed" by (cases "sa_pcs s u") auto
  then have ne: "u \<noteq> t" using assms(2) by auto
  define s1 where "s1 = sa_goto u (SLoad timed) s"
  have fin: "finite {v. on_way (sa_pcs s v)}" using assms(1) by (simp add: sa_inv_def)
  have fin1: "finite {v. on_way (sa_pcs s1 v)}" using finite_at_upd [of on_way "sa_pcs s" u "SLoad timed", OF fin] by (simp add: s1_def)
  have "threads_at on_way (sa_pcs s1) = threads_at on_way (sa_pcs s) + 1"
    using threads_at_upd [of on_way "sa_pcs s" u "SLoad timed", OF fin] u by (simp add: s1_def)
  moreover have "threads_at on_way ((sa_pcs s1)(t := post_next n)) + 1 = threads_at on_way (sa_pcs s1)"
    using threads_at_upd [of on_way "sa_pcs s1" t "post_next n", OF fin1] assms(2) ne by (simp add: s1_def post_next_def)
  ultimately have eq: "threads_at on_way ((sa_pcs s1)(t := post_next n)) = threads_at on_way (sa_pcs s)" by simp
  have "sa_inv c (sa_goto t (post_next n) s1)"
    unfolding sa_inv_def sa_goto_simps eq
    using assms(1) finite_at_upd [of on_way "sa_pcs s1" t "post_next n", OF fin1] u ne
    by (auto simp: sa_inv_def s1_def post_next_def split: if_splits)
  then show ?thesis using u by (simp add: s1_def sa_awake_def)
next
  case False
  then have none: "\<not> sa_sleeps (sa_pcs s v)" for v using assms(3) by auto
  have "sa_awake (sa_pcs s u) = sa_pcs s u" using none [of u] by (cases "sa_pcs s u") (auto simp: sa_awake_def)
  then have "sa_goto u (sa_awake (sa_pcs s u)) s = s" by (simp add: sa_goto_def)
  moreover have "sa_inv c (sa_goto t (post_next n) s)"
    using assms(1) none finite_at_upd [of on_way "sa_pcs s" t "post_next n"]
    unfolding sa_inv_def by (auto simp: post_next_def split: if_splits)
  ultimately show ?thesis by simp
qed

lemma sa_access_inv:
  assumes "sa_inv c s" "(\<exists>n. sa_pcs s t = PWake n) \<longrightarrow> sa_sleeps (sa_pcs s u) \<or> (\<forall>v. \<not> sa_sleeps (sa_pcs s v))"
  shows "sa_inv c (sa_access ch u s t)"
proof (cases "sa_pcs s t")
  case (SCas timed cur)
  then show ?thesis
    using sa_inv_take [OF assms(1)] sa_inv_saw [OF assms(1)] by (auto simp: sa_access_def)
next
  case (PAdd n)
  then show ?thesis using sa_inv_add [OF assms(1)] by (simp add: sa_access_def)
next
  case (PWake n)
  then show ?thesis using sa_inv_wake [OF assms(1)] assms(2) by (simp add: sa_access_def)
next
  case (SRefs n)
  then show ?thesis using assms(1) by (auto simp: sa_inv_def dest: spec [of _ t])
next
  case (SInit n)
  then show ?thesis using assms(1) by (auto simp: sa_inv_def dest: spec [of _ t])
qed (use assms(1) in \<open>auto simp: sa_access_def intro!: sa_inv_goto sa_inv_saw split: sa_choice.split\<close>)

lemma sa_step_inv: "sa_inv c s \<Longrightarrow> sa_step False s s' \<Longrightarrow> sa_inv c s'"
  by (erule sa_step.cases) (auto simp: post_next_def sa_access_inv intro!: sa_inv_goto)

lemma sa_opened_inv: "sa_inv c (sa_opened n c)"
  by (auto simp: sa_inv_def sa_opened_def)

interpretation apple_sem: invariant_system "sa_opened n c" "sa_step False" "sa_inv c"
  by unfold_locales (auto intro: sa_opened_inv sa_step_inv)

text \<open>
  C11. The macOS semaphore counts: when it is open with a count, then whatever the interleaving of waits (with deadlines, interruptions and exchanges
  that fail) and posts, and as long as the posts do not exceed 32 bits, the count is what was there and was posted less the waits that
  returned true; and when a thread sleeps although the count is positive, another one is about to take from the count or to wake a sleeper.
\<close>

theorem apple_semaphore_counts:
  assumes "rtranclp (sa_step False) (sa_opened n c) s" "unat c + sa_posted s < 2 ^ 32"
  shows "unat (sa_count s) + sa_taken s = unat c + sa_posted s
    \<and> (sa_pcs s v = SAsleep timed \<and> 0 < sa_count s \<longrightarrow> (\<exists>t. on_way (sa_pcs s t)))"
proof -
  have inv: "sa_inv c s" by (rule apple_sem.reachable_inv [OF assms(1)])
  have "\<exists>t. on_way (sa_pcs s t)" if "sa_pcs s v = SAsleep timed" "0 < sa_count s"
  proof -
    have "sa_sleeps (sa_pcs s v)" using that(1) by simp
    then have "unat (sa_count s) \<le> threads_at on_way (sa_pcs s)" using inv assms(2) unfolding sa_inv_def by blast
    moreover have "0 < unat (sa_count s)" using that(2) by (simp add: word_gt_0 unat_gt_0)
    ultimately show ?thesis using inv threads_at_pos [of on_way "sa_pcs s"] by (simp add: sa_inv_def)
  qed
  then show ?thesis using inv assms(2) by (simp add: sa_inv_def)
qed

text \<open>Thread 1 waits on the count 0 and sleeps, thread 0 has added one and has yet to wake it.\<close>

definition post_before_wake :: sa_sys where
  "post_before_wake = sa_access Plain 1 (sa_goto 0 (post_next 1)
     (sa_access Plain 0 (sa_access Plain 0 (sa_access Plain 0 (sa_goto 1 (SLoad False) (sa_opened 2 0)) 1) 1) 1)) 0"

lemma post_before_wake_value:
  "post_before_wake = \<lparr>sa_count = 1, sa_refs = 2,
     sa_pcs = (\<lambda>t. if t < 2 then SOpen else SClosed)(1 := SAsleep False, 0 := PWake 0), sa_taken = 0, sa_posted = 1\<rparr>"
  by (simp add: post_before_wake_def sa_opened_def sa_goto_def sa_access_def sa_saw_def post_next_def fun_upd_twist)

theorem apple_semaphore_counts_witness:
  "rtranclp (sa_step False) (sa_opened 2 0) post_before_wake \<and> sa_pcs post_before_wake 1 = SAsleep False
    \<and> (\<exists>t. on_way (sa_pcs post_before_wake t)) \<and> unat (sa_count post_before_wake) = 1"
proof -
  let ?a = "sa_goto 1 (SLoad False) (sa_opened 2 0)"
  let ?b = "sa_access Plain 0 ?a 1"
  let ?c = "sa_access Plain 0 ?b 1"
  let ?d = "sa_access Plain 0 ?c 1"
  let ?e = "sa_goto 0 (post_next 1) ?d"
  have a: "sa_step False (sa_opened 2 0) ?a" by (rule sa_waits) (simp add: sa_opened_def)
  have b: "sa_step False ?a ?b" by (rule sa_moves) (simp add: sa_opened_def)
  have c: "sa_step False ?b ?c" by (rule sa_moves) (simp add: sa_opened_def sa_access_def sa_saw_def)
  have d: "sa_step False ?c ?d" by (rule sa_moves) (simp add: sa_opened_def sa_access_def sa_saw_def)
  have e: "sa_step False ?d ?e" by (rule sa_posts) (simp add: sa_opened_def sa_access_def sa_saw_def)
  have f: "sa_step False ?e post_before_wake"
    unfolding post_before_wake_def by (rule sa_moves) (simp add: post_next_def)
  from a b c d e f have r: "rtranclp (sa_step False) (sa_opened 2 0) post_before_wake"
    by (meson converse_rtranclp_into_rtranclp rtranclp.rtrancl_refl)
  have "unat (0 :: u32) + sa_posted post_before_wake < 2 ^ 32" by (simp add: post_before_wake_value)
  from apple_semaphore_counts [OF r this, of 1 False] r show ?thesis by (simp add: post_before_wake_value)
qed

section \<open>Opening at the same time\<close>

text \<open>
  C37. Two processes that open a new macOS semaphore at the same time both leave it uninitialised: \<open>open\<close> first acquires the
  segment, which counts the handle, and then stores the count only if the counter is at most 1. When both have acquired before either reads the counter,
  both read 2, and the semaphore stays at 0, whatever counts they asked for.
\<close>

theorem apple_semaphore_open_race:
  "\<exists>s. rtranclp (sa_step True) sa_fresh s \<and> sa_pcs s 0 = SRefs n \<and> sa_pcs s 1 = SRefs m
     \<and> (let s' = sa_access Plain 0 (sa_access Plain 0 s 0) 1
        in rtranclp (sa_step True) sa_fresh s' \<and> sa_pcs s' 0 = SOpen \<and> sa_pcs s' 1 = SOpen \<and> sa_count s' = 0)"
proof -
  let ?a = "sa_goto 0 (SRefs n) (sa_fresh\<lparr>sa_refs := sa_refs sa_fresh + 1\<rparr>)"
  let ?s = "sa_goto 1 (SRefs m) (?a\<lparr>sa_refs := sa_refs ?a + 1\<rparr>)"
  let ?t = "sa_access Plain 0 ?s 0"
  let ?u = "sa_access Plain 0 ?t 1"
  have a: "sa_step True sa_fresh ?a" by (rule sa_opens) (simp_all add: sa_fresh_def)
  have s: "sa_step True ?a ?s" by (rule sa_opens) (simp_all add: sa_fresh_def)
  have t: "sa_step True ?s ?t" by (rule sa_moves) simp
  have u: "sa_step True ?t ?u" by (rule sa_moves) (simp add: sa_access_def sa_fresh_def)
  from a s have r: "rtranclp (sa_step True) sa_fresh ?s"
    by (meson converse_rtranclp_into_rtranclp rtranclp.rtrancl_refl)
  with t u have "rtranclp (sa_step True) sa_fresh ?u" by (meson rtranclp.rtrancl_into_rtrancl)
  moreover have "sa_pcs ?u 0 = SOpen" "sa_pcs ?u 1 = SOpen" "sa_count ?u = 0"
    by (simp_all add: sa_access_def sa_fresh_def)
  ultimately show ?thesis using r by (intro exI [of _ ?s]) (simp add: Let_def)
qed

end
