(* ===== verification/Posix_Semaphore.thy ===== *)
theory Posix_Semaphore
  imports Posix_Shm
begin

text \<open>
  \<open>semaphore.rs\<close> on the other Unix systems: a named POSIX semaphore and, under the name without the suffix, a one-byte shared segment whose reference
  counter counts the open handles, so that the last one unlinks the semaphore. The kernel's part is a table of names and values;
  the segment is that of \<open>PlatformShm\<close>.
\<close>

section \<open>Handles\<close>

definition SEM_VALUE_MAX :: nat where "SEM_VALUE_MAX = 2 ^ 31 - 1"

record posix_semaphore =
  sm_handle :: nat
  sm_name :: string

text \<open>\<open>se_shm\<close> has the segment handles \<open>refs\<close>, under the same numbers as the semaphore handles.\<close>

record sem_sys =
  se_shm :: shm_sys
  se_names :: "string \<rightharpoonup> nat"
  se_vals :: "nat \<Rightarrow> nat"
  se_next :: nat
  se_open :: "nat \<rightharpoonup> posix_semaphore"

datatype sem_error = ShmFailed shm_error | BadValue | Overflow | Interrupt

text \<open>\<open>sem_open\<close> with \<open>O_CREAT\<close>.\<close>

definition sem_open :: "string \<Rightarrow> nat \<Rightarrow> sem_sys \<Rightarrow> sem_sys \<times> (sem_error + nat)" where
  "sem_open sn count s = (case se_names s sn of
     Some sid \<Rightarrow> (s, Inr sid)
   | None \<Rightarrow>
       if SEM_VALUE_MAX < count then (s, Inl BadValue)
       else (s\<lparr>se_names := (se_names s)(sn \<mapsto> se_next s), se_vals := (se_vals s)(se_next s := count),
              se_next := se_next s + 1\<rparr>, Inr (se_next s)))"

definition refs_acquired :: "nat \<Rightarrow> platform_shm \<Rightarrow> shm_world \<Rightarrow> sem_sys \<Rightarrow> sem_sys" where
  "refs_acquired i h w s = s\<lparr>se_shm := \<lparr>ss_world = w, ss_handles = (ss_handles (se_shm s))(i \<mapsto> h)\<rparr>\<rparr>"

text \<open>Giving up \<open>refs\<close>, with the count before; a handle without \<open>refs\<close> has none.\<close>

definition refs_release :: "nat \<Rightarrow> sem_sys \<Rightarrow> sem_sys \<times> i32 option" where
  "refs_release i s = (case ss_handles (se_shm s) i of None \<Rightarrow> (s, None)
     | Some h \<Rightarrow> (case release_mapping h (ss_world (se_shm s)) of (w, _, prev) \<Rightarrow>
         (s\<lparr>se_shm := \<lparr>ss_world = w, ss_handles = (ss_handles (se_shm s))(i := None)\<rparr>\<rparr>, Some prev)))"

text \<open>When \<open>sem_open\<close> fails, \<open>refs\<close> is dropped.\<close>

definition psem_open :: "platform \<Rightarrow> nat \<Rightarrow> string \<Rightarrow> nat \<Rightarrow> sem_sys \<Rightarrow> sem_sys \<times> sem_error option" where
  "psem_open pf i name count s =
     (if name = [] then (s, Some (ShmFailed NameEmpty))
      else case posix_name pf (name @ ''_s'') of
        Inl e \<Rightarrow> (s, Some (ShmFailed e))
      | Inr sn \<Rightarrow>
          (case shm_acquire pf name 1 ShmCreateOrOpen (ss_world (se_shm s)) of
             (w, Inl e) \<Rightarrow> (s\<lparr>se_shm := (se_shm s)\<lparr>ss_world := w\<rparr>\<rparr>, Some (ShmFailed e))
           | (w, Inr h) \<Rightarrow>
               (case sem_open sn count (refs_acquired i h w s) of
                  (s, Inl e) \<Rightarrow> (fst (refs_release i s), Some e)
                | (s, Inr sid) \<Rightarrow> (s\<lparr>se_open := (se_open s)(i \<mapsto> \<lparr>sm_handle = sid, sm_name = sn\<rparr>)\<rparr>, None))))"

text \<open>\<open>sem_wait\<close> and \<open>sem_timedwait\<close>: \<open>None\<close> is still waiting. A signal interrupts a wait and the error is handed on.\<close>

datatype sem_weather = Calm | Deadline | Signal

definition psem_wait :: "sem_weather \<Rightarrow> bool \<Rightarrow> nat \<Rightarrow> sem_sys \<Rightarrow> sem_sys \<times> (sem_error + bool) option" where
  "psem_wait weather timed i s = (case se_open s i of None \<Rightarrow> (s, None)
     | Some h \<Rightarrow>
         let sid = sm_handle h in
         if 0 < se_vals s sid then (s\<lparr>se_vals := (se_vals s)(sid := se_vals s sid - 1)\<rparr>, Some (Inr True))
         else (s, case weather of Calm \<Rightarrow> None | Deadline \<Rightarrow> if timed then Some (Inr False) else None
                   | Signal \<Rightarrow> Some (Inl Interrupt)))"

fun psem_post :: "nat \<Rightarrow> nat \<Rightarrow> sem_sys \<Rightarrow> sem_sys \<times> sem_error option" where
  "psem_post i 0 s = (s, None)"
| "psem_post i (Suc n) s = (case se_open s i of None \<Rightarrow> (s, None)
     | Some h \<Rightarrow>
         let sid = sm_handle h in
         if se_vals s sid = SEM_VALUE_MAX then (s, Some Overflow)
         else psem_post i n (s\<lparr>se_vals := (se_vals s)(sid := se_vals s sid + 1)\<rparr>))"

text \<open>The two halves of \<open>drop\<close>: the handle and its reference, then the name if it was the last.\<close>

definition psem_close :: "nat \<Rightarrow> sem_sys \<Rightarrow> sem_sys \<times> i32 option" where
  "psem_close i s = (case refs_release i s of (s, prev) \<Rightarrow> (s\<lparr>se_open := (se_open s)(i := None)\<rparr>, prev))"

definition psem_unlink :: "string \<Rightarrow> i32 option \<Rightarrow> sem_sys \<Rightarrow> sem_sys" where
  "psem_unlink sn prev s = (case prev of None \<Rightarrow> s
     | Some p \<Rightarrow> if sint p \<le> 1 then s\<lparr>se_names := (se_names s)(sn := None)\<rparr> else s)"

definition psem_drop :: "nat \<Rightarrow> sem_sys \<Rightarrow> sem_sys" where
  "psem_drop i s = (case se_open s i of None \<Rightarrow> s
     | Some h \<Rightarrow> (case psem_close i s of (s, prev) \<Rightarrow> psem_unlink (sm_name h) prev s))"

definition psem_clear_storage :: "platform \<Rightarrow> string \<Rightarrow> sem_sys \<Rightarrow> sem_sys" where
  "psem_clear_storage pf name s =
     (let s = (case posix_name pf (name @ ''_s'') of Inl _ \<Rightarrow> s | Inr sn \<Rightarrow> s\<lparr>se_names := (se_names s)(sn := None)\<rparr>)
      in s\<lparr>se_shm := (se_shm s)\<lparr>ss_world := unlink_by_name pf name (ss_world (se_shm s))\<rparr>\<rparr>)"

section \<open>All handles of a name are one semaphore\<close>

text \<open>
  Handles are opened, used and dropped one after the other. \<open>sn\<close> gives the semaphore's name from the segment's; on Linux it appends the
  suffix.
\<close>

inductive sem_step :: "platform \<Rightarrow> (string \<Rightarrow> string) \<Rightarrow> sem_sys \<Rightarrow> sem_sys \<Rightarrow> bool" for pf sn where
  sem_opens: "se_open s i = None \<Longrightarrow> card (dom (se_open s)) < 2 ^ 31 - 1 \<Longrightarrow> posix_name pf name = Inr pn \<Longrightarrow>
    posix_name pf (name @ ''_s'') = Inr (sn pn) \<Longrightarrow> psem_open pf i name count s = (s', None) \<Longrightarrow> sem_step pf sn s s'"
| sem_waits: "psem_wait weather timed i s = (s', r) \<Longrightarrow> sem_step pf sn s s'"
| sem_posts: "psem_post i n s = (s', e) \<Longrightarrow> sem_step pf sn s s'"
| sem_drops: "sem_step pf sn s (psem_drop i s)"

definition sem_empty :: sem_sys where
  "sem_empty = \<lparr>se_shm = shm_empty, se_names = Map.empty, se_vals = (\<lambda>_. 0), se_next = 0, se_open = Map.empty\<rparr>"

definition sem_of :: "(string \<Rightarrow> string) \<Rightarrow> sem_sys \<Rightarrow> nat \<Rightarrow> posix_semaphore \<Rightarrow> bool" where
  "sem_of sn s i h \<longleftrightarrow> (\<exists>r. ss_handles (se_shm s) i = Some r \<and> sm_name h = sn (ps_name r)) \<and> se_names s (sm_name h) = Some (sm_handle h)"

definition sem_ok :: "(string \<Rightarrow> string) \<Rightarrow> sem_sys \<Rightarrow> bool" where
  "sem_ok sn s \<longleftrightarrow> (inj sn \<longrightarrow> shm_ok (\<lambda>_. 1) (se_shm s) \<and> dom (se_open s) = dom (ss_handles (se_shm s))
     \<and> (\<forall>i h. se_open s i = Some h \<longrightarrow> sem_of sn s i h)
     \<and> (\<forall>q sid. se_names s q = Some sid \<longrightarrow> (\<exists>i h. se_open s i = Some h \<and> sm_name h = q)))"

lemma sem_okI:
  assumes "inj sn \<Longrightarrow> shm_ok (\<lambda>_. 1) (se_shm s)" "inj sn \<Longrightarrow> dom (se_open s) = dom (ss_handles (se_shm s))"
    "\<And>i h. inj sn \<Longrightarrow> se_open s i = Some h \<Longrightarrow> sem_of sn s i h"
    "\<And>q sid. inj sn \<Longrightarrow> se_names s q = Some sid \<Longrightarrow> \<exists>i h. se_open s i = Some h \<and> sm_name h = q"
  shows "sem_ok sn s"
  unfolding sem_ok_def using assms by blast

lemma sem_okD:
  assumes "sem_ok sn s" "inj sn"
  shows "shm_ok (\<lambda>_. 1) (se_shm s)" "dom (se_open s) = dom (ss_handles (se_shm s))"
    "se_open s i = Some h \<Longrightarrow> sem_of sn s i h"
    "se_names s q = Some sid \<Longrightarrow> \<exists>i h. se_open s i = Some h \<and> sm_name h = q"
  using assms unfolding sem_ok_def by blast+

lemma sem_ok_vals [simp]: "sem_ok sn (s\<lparr>se_vals := v\<rparr>) = sem_ok sn s"
  by (simp add: sem_ok_def sem_of_def)

lemma wait_ok: "sem_ok sn s \<Longrightarrow> psem_wait weather timed i s = (s', r) \<Longrightarrow> sem_ok sn s'"
  by (auto simp: psem_wait_def Let_def split: option.splits if_splits)

lemma post_ok: "sem_ok sn s \<Longrightarrow> psem_post i n s = (s', e) \<Longrightarrow> sem_ok sn s'"
proof (induction n arbitrary: s)
  case (Suc n)
  show ?case
  proof (cases "se_open s i")
    case (Some h)
    let ?v = "(se_vals s)(sm_handle h := se_vals s (sm_handle h) + 1)"
    have "sem_ok sn (s\<lparr>se_vals := ?v\<rparr>)" using Suc.prems(1) by simp
    then show ?thesis using Suc.IH [of "s\<lparr>se_vals := ?v\<rparr>"] Suc.prems Some by (auto simp: Let_def split: if_splits)
  qed (use Suc.prems in simp)
qed simp

lemma mmap_name: "mmap_and_finish ob n u pn w = (w', Inr h) \<Longrightarrow> ps_name h = pn"
  by (auto simp: mmap_and_finish_def Let_def split: if_splits)

lemma acquire_name: "shm_acquire pf name u mode w = (w', Inr h) \<Longrightarrow> posix_name pf name = Inr pn \<Longrightarrow> ps_name h = pn"
  by (auto simp: shm_acquire_def Let_def dest: mmap_name split: if_splits prod.splits sum.splits option.splits)

text \<open>What a successful \<open>open\<close> did.\<close>

lemma psem_open_ok:
  assumes "psem_open pf i name count s = (s', None)" "posix_name pf (name @ ''_s'') = Inr sn" "posix_name pf name = Inr pn"
  obtains w h sid where "shm_acquire pf name 1 ShmCreateOrOpen (ss_world (se_shm s)) = (w, Inr h)" "ps_name h = pn"
    "se_shm s' = \<lparr>ss_world = w, ss_handles = (ss_handles (se_shm s))(i \<mapsto> h)\<rparr>"
    "se_open s' = (se_open s)(i \<mapsto> \<lparr>sm_handle = sid, sm_name = sn\<rparr>)"
    "se_names s' = (se_names s)(sn \<mapsto> sid)" "se_names s sn \<in> {None, Some sid}"
proof -
  have ne: "name \<noteq> []" using assms(1) by (auto simp: psem_open_def)
  obtain w x where a: "shm_acquire pf name 1 ShmCreateOrOpen (ss_world (se_shm s)) = (w, x)" by fastforce
  obtain h where h: "x = Inr h" using assms(1,2) ne a by (cases x) (simp_all add: psem_open_def)
  obtain s1 y where o: "sem_open sn count (refs_acquired i h w s) = (s1, y)" by fastforce
  obtain sid where y: "y = Inr sid" "s' = s1\<lparr>se_open := (se_open s1)(i \<mapsto> \<lparr>sm_handle = sid, sm_name = sn\<rparr>)\<rparr>"
    using assms(1,2) ne a h o by (cases y) (simp_all add: psem_open_def)
  have "se_names s sn \<in> {None, Some sid} \<and> se_shm s1 = se_shm (refs_acquired i h w s) \<and> se_open s1 = se_open s
      \<and> se_names s1 = (se_names s)(sn \<mapsto> sid)"
    using o y(1) by (auto simp: sem_open_def refs_acquired_def split: option.splits if_splits)
  then show ?thesis using that a h y(2) acquire_name [OF _ assms(3)] by (simp add: refs_acquired_def)
qed

lemma open_ok:
  assumes ok: "sem_ok sn s" and i: "se_open s i = None" "card (dom (se_open s)) < 2 ^ 31 - 1"
    and pn: "posix_name pf name = Inr pn" "posix_name pf (name @ ''_s'') = Inr (sn pn)"
    and o: "psem_open pf i name count s = (s', None)"
  shows "sem_ok sn s'"
proof -
  obtain w h sid where e: "shm_acquire pf name 1 ShmCreateOrOpen (ss_world (se_shm s)) = (w, Inr h)" "ps_name h = pn"
    "se_shm s' = \<lparr>ss_world = w, ss_handles = (ss_handles (se_shm s))(i \<mapsto> h)\<rparr>"
    "se_open s' = (se_open s)(i \<mapsto> \<lparr>sm_handle = sid, sm_name = sn pn\<rparr>)"
    "se_names s' = (se_names s)(sn pn \<mapsto> sid)" "se_names s (sn pn) \<in> {None, Some sid}"
    by (rule psem_open_ok [OF o pn(2,1)])
  show ?thesis
  proof (rule sem_okI)
    assume "inj sn"
    note d = sem_okD [OF ok this]
    have none: "ss_handles (se_shm s) i = None" using i(1) d(2) by (metis domIff)
    show "shm_ok (\<lambda>_. 1) (se_shm s')"
      unfolding e(3) by (rule shm_ok_open [OF d(1) none _ pn(1)]) (use e(1) i(2) d(2) in simp_all)
    show "dom (se_open s') = dom (ss_handles (se_shm s'))" using d(2) by (simp add: e)
    show "sem_of sn s' j g" if "se_open s' j = Some g" for j g
    proof (cases "j = i")
      case True
      then show ?thesis using that by (auto simp: sem_of_def e)
    next
      case False
      then have "sem_of sn s j g" using that d(3) by (simp add: e)
      then show ?thesis using False e(6) by (auto simp: sem_of_def e(3,5))
    qed
    show "\<exists>j g. se_open s' j = Some g \<and> sm_name g = q" if n: "se_names s' q = Some k" for q k
    proof (cases "q = sn pn")
      case True
      then show ?thesis by (intro exI [of _ i] exI [of _ "\<lparr>sm_handle = sid, sm_name = sn pn\<rparr>"]) (simp add: e)
    next
      case False
      then obtain j g where "se_open s j = Some g" "sm_name g = q" using n d(4) [of q k] by (auto simp: e)
      moreover have "j \<noteq> i" using i(1) calculation(1) by auto
      ultimately show ?thesis by (intro exI [of _ j] exI [of _ g]) (simp add: e)
    qed
  qed
qed

text \<open>The count that a release returns is the number of users of the name.\<close>

lemma release_prev:
  assumes "shm_ok sz s" "ss_handles s i = Some h" "release_mapping h (ss_world s) = (w, h', prev)"
  shows "sint prev \<le> 1 \<longleftrightarrow> users (ss_handles s) (ps_name h) = {i}"
proof -
  note d = shm_okD [OF assms(1)]
  let ?U = "users (ss_handles s) (ps_name h)"
  have fin: "finite ?U" by (rule finite_subset [OF users_subset d(1)])
  have "card ?U < 2 ^ 31" using card_mono [OF d(1) users_subset] d(2) by (rule le_less_trans)
  moreover have "prev = of_nat (card ?U)"
    using assms(3) d(3) [OF assms(2)] d(4) [of "ps_name h"]
    by (auto simp: release_mapping_def release_sub_def handle_ok_def name_ok_def)
  ultimately have "sint prev = int (card ?U)" using sint_of_card by blast
  moreover have i: "i \<in> ?U" using assms(2) by (auto simp: users_def)
  have "card ?U \<le> 1 \<longleftrightarrow> ?U = {i}"
    using i fin card_le_Suc0_iff_eq [OF fin] by auto
  ultimately show ?thesis by simp
qed

lemma drop_ok:
  assumes ok: "sem_ok sn s"
  shows "sem_ok sn (psem_drop i s)"
proof (cases "se_open s i")
  case (Some h)
  show ?thesis
  proof (rule sem_okI)
    assume inj: "inj sn"
    note d = sem_okD [OF ok inj]
    obtain r where r: "ss_handles (se_shm s) i = Some r" "sm_name h = sn (ps_name r)"
      using d(3) [OF Some] by (auto simp: sem_of_def)
    obtain w r' prev where rel: "release_mapping r (ss_world (se_shm s)) = (w, r', prev)" by (metis prod_cases3)
    let ?s = "psem_drop i s"
    let ?last = "sint prev \<le> 1"
    have e: "se_shm ?s = \<lparr>ss_world = w, ss_handles = (ss_handles (se_shm s))(i := None)\<rparr>" "se_open ?s = (se_open s)(i := None)"
      "se_names ?s = (if ?last then (se_names s)(sm_name h := None) else se_names s)"
      using Some r rel by (simp_all add: psem_drop_def psem_close_def refs_release_def psem_unlink_def)
    have users: "j = i" if l: "?last" and j: "se_open s j = Some g" "sm_name g = sm_name h" for j g
    proof -
      obtain q where q: "ss_handles (se_shm s) j = Some q" "sm_name g = sn (ps_name q)"
        using d(3) [OF j(1)] by (auto simp: sem_of_def)
      then have "ps_name q = ps_name r" using j(2) r(2) inj_eq [OF inj] by simp
      then have "j \<in> users (ss_handles (se_shm s)) (ps_name r)" using q(1) by (simp add: users_def)
      then show ?thesis using release_prev [OF d(1) r(1) rel] l by simp
    qed
    show "shm_ok (\<lambda>_. 1) (se_shm ?s)" unfolding e by (rule shm_ok_drop [OF d(1) r(1) rel])
    show "dom (se_open ?s) = dom (ss_handles (se_shm ?s))" using d(2) by (simp add: e)
    show "sem_of sn ?s j g" if "se_open ?s j = Some g" for j g
    proof -
      have j: "j \<noteq> i" "se_open s j = Some g" using that by (auto simp: e split: if_splits)
      obtain q where q: "ss_handles (se_shm s) j = Some q" "sm_name g = sn (ps_name q)" "se_names s (sm_name g) = Some (sm_handle g)"
        using d(3) [OF j(2)] by (auto simp: sem_of_def)
      have "sm_name g \<noteq> sm_name h" if "?last" using users [OF that j(2)] j(1) by blast
      then show ?thesis using q j(1) by (simp add: sem_of_def e)
    qed
    show "\<exists>j g. se_open ?s j = Some g \<and> sm_name g = q" if n: "se_names ?s q = Some k" for q k
    proof -
      have n': "se_names s q = Some k" using n by (simp add: e split: if_splits)
      then obtain j g where j: "se_open s j = Some g" "sm_name g = q" using d(4) by blast
      show ?thesis
      proof (cases "j = i")
        case False
        then show ?thesis using j by (intro exI [of _ j] exI [of _ g]) (simp add: e)
      next
        case True
        then have q: "q = sm_name h" using j Some by simp
        then have "\<not> ?last" using n by (auto simp: e)
        then have "users (ss_handles (se_shm s)) (ps_name r) \<noteq> {i}" using release_prev [OF d(1) r(1) rel] by simp
        moreover have "i \<in> users (ss_handles (se_shm s)) (ps_name r)" using r(1) by (simp add: users_def)
        ultimately obtain j2 where j2: "j2 \<in> users (ss_handles (se_shm s)) (ps_name r)" "j2 \<noteq> i" by blast
        then obtain q2 where q2: "ss_handles (se_shm s) j2 = Some q2" "ps_name q2 = ps_name r" by (auto simp: users_def)
        then obtain g2 where g2: "se_open s j2 = Some g2" using d(2) by (metis domD domI)
        then have "sm_name g2 = q" using d(3) [OF g2] q2 r(2) q by (auto simp: sem_of_def)
        then show ?thesis using g2 j2(2) by (intro exI [of _ j2] exI [of _ g2]) (simp add: e)
      qed
    qed
  qed
qed (simp add: psem_drop_def ok)

lemma sem_step_ok: "sem_ok sn s \<Longrightarrow> sem_step pf sn s s' \<Longrightarrow> sem_ok sn s'"
  by (erule sem_step.cases) (auto intro: open_ok wait_ok post_ok drop_ok)

lemma sem_empty_ok: "sem_ok sn sem_empty"
  by (rule sem_okI) (auto simp: sem_empty_def shm_empty_ok, simp add: shm_empty_def)

interpretation posix_sem: invariant_system sem_empty "sem_step pf sn" "sem_ok sn"
  by unfold_locales (auto intro: sem_empty_ok sem_step_ok)

text \<open>
  C22. A POSIX semaphore is shared by all its handles: however semaphores are opened, waited for, posted and dropped, one call after the other and
  with different names for different semaphores, all open handles of a name refer to the same semaphore, the one that the name stands for, and the name
  is gone exactly when the last handle is dropped.
\<close>

theorem posix_semaphore_shared:
  assumes "rtranclp (sem_step pf sn) sem_empty s" "inj sn"
  shows "(se_open s i = Some h \<longrightarrow> se_names s (sm_name h) = Some (sm_handle h))
    \<and> (se_names s q \<noteq> None \<longleftrightarrow> (\<exists>i h. se_open s i = Some h \<and> sm_name h = q))"
proof -
  note d = sem_okD [OF posix_sem.reachable_inv [OF assms(1)] assms(2)]
  show ?thesis using d(3,4) unfolding sem_of_def by blast
qed

definition suffixed :: "string \<Rightarrow> string" where
  "suffixed pn = pn @ ''_s''"

lemma suffixed_inj: "inj suffixed"
  by (simp add: suffixed_def inj_def)

lemma posix_name_a_s: "posix_name linux (''a'' @ ''_s'') = Inr (suffixed ''/a'')"
  by code_simp

text \<open>Opening \<open>a\<close> on Linux.\<close>

lemma open_a:
  assumes "sx_names (ss_world (se_shm s)) ''/a'' = None \<or> (\<exists>ob. sx_names (ss_world (se_shm s)) ''/a'' = Some ob
    \<and> calc_size 1 \<le> ob_size (sx_objs (ss_world (se_shm s)) ob))" "count \<le> SEM_VALUE_MAX"
  shows "\<exists>s'. psem_open linux i ''a'' count s = (s', None)"
proof -
  have "\<exists>w h. shm_acquire linux ''a'' 1 ShmCreateOrOpen (ss_world (se_shm s)) = (w, Inr h)"
    using assms(1) acquire_new [OF posix_name_a, of 1] acquire_existing [OF posix_name_a, of 1] by fastforce
  then show ?thesis
    using assms(2) posix_name_a_s by (auto simp: psem_open_def sem_open_def split: option.splits)
qed

theorem posix_semaphore_shared_witness:
  "\<exists>s h. psem_open linux 0 ''a'' 1 sem_empty = (s, None) \<and> se_open s 0 = Some h \<and> se_names s ''/a_s'' = Some (sm_handle h)"
proof -
  obtain s where o: "psem_open linux 0 ''a'' 1 sem_empty = (s, None)"
    using open_a [of sem_empty 1 0] by (auto simp: sem_empty_def shm_empty_def SEM_VALUE_MAX_def)
  obtain sid where h: "se_open s = (se_open sem_empty)(0 \<mapsto> \<lparr>sm_handle = sid, sm_name = suffixed ''/a''\<rparr>)"
    by (rule psem_open_ok [OF o posix_name_a_s posix_name_a]) blast
  have "sem_step linux suffixed sem_empty s"
    by (rule sem_opens [where sn = suffixed, OF _ _ posix_name_a posix_name_a_s o]) (simp_all add: sem_empty_def)
  then have r: "rtranclp (sem_step linux suffixed) sem_empty s" by blast
  from posix_semaphore_shared [OF r suffixed_inj, of 0 "\<lparr>sm_handle = sid, sm_name = suffixed ''/a''\<rparr>"] o h
  show ?thesis by (simp add: suffixed_def)
qed

section \<open>A drop against an open\<close>

text \<open>
  The last drop of a POSIX semaphore races with an open: \<open>drop\<close> first gives up the reference and then unlinks the name. When another
  process opens the name in between, it gets the old semaphore, counts as the first user of a new segment, and then loses the name: its handle stays open
  while the name is free, so that the next \<open>open\<close> creates a second semaphore.
\<close>

theorem posix_semaphore_drop_race:
  assumes "sem_ok sn s" "inj sn" "se_open s i = Some h" "\<forall>k g. se_open s k = Some g \<longrightarrow> sm_name g = sm_name h \<longrightarrow> k = i"
    and "psem_close i s = (s1, prev)" "posix_name pf name = Inr pn" "posix_name pf (name @ ''_s'') = Inr (sm_name h)"
    and "psem_open pf j name count s1 = (s2, None)"
  shows "\<exists>g. se_open (psem_unlink (sm_name h) prev s2) j = Some g \<and> sm_handle g = sm_handle h \<and> sm_name g = sm_name h
    \<and> se_names (psem_unlink (sm_name h) prev s2) (sm_name h) = None"
proof -
  note d = sem_okD [OF assms(1,2)]
  obtain r where r: "ss_handles (se_shm s) i = Some r" "sm_name h = sn (ps_name r)" "se_names s (sm_name h) = Some (sm_handle h)"
    using d(3) [OF assms(3)] by (auto simp: sem_of_def)
  obtain w r' p where rel: "release_mapping r (ss_world (se_shm s)) = (w, r', p)" by (metis prod_cases3)
  have c: "prev = Some p" "se_names s1 = se_names s" using assms(5) r rel by (auto simp: psem_close_def refs_release_def)
  have "users (ss_handles (se_shm s)) (ps_name r) = {i}"
  proof (intro equalityI subsetI)
    fix k assume "k \<in> users (ss_handles (se_shm s)) (ps_name r)"
    then obtain q where q: "ss_handles (se_shm s) k = Some q" "ps_name q = ps_name r" by (auto simp: users_def)
    then obtain g where g: "se_open s k = Some g" using d(2) by (metis domD domI)
    then have "sm_name g = sm_name h" using d(3) [OF g] q r(2) by (auto simp: sem_of_def)
    then show "k \<in> {i}" using assms(4) g by blast
  qed (use r in \<open>auto simp: users_def\<close>)
  then have last: "sint p \<le> 1" using release_prev [OF d(1) r(1) rel] by simp
  obtain sid where o: "se_open s2 = (se_open s1)(j \<mapsto> \<lparr>sm_handle = sid, sm_name = sm_name h\<rparr>)" "se_names s1 (sm_name h) \<in> {None, Some sid}"
    by (rule psem_open_ok [OF assms(8,7,6)]) blast
  then have "sid = sm_handle h" using c(2) r(3) by simp
  then show ?thesis using o(1) last by (simp add: psem_unlink_def c(1))
qed

theorem posix_semaphore_drop_race_witness:
  "\<exists>s h s1 prev s2 g. psem_open linux 0 ''a'' 1 sem_empty = (s, None) \<and> se_open s 0 = Some h \<and> psem_close 0 s = (s1, prev)
     \<and> psem_open linux 1 ''a'' 1 s1 = (s2, None) \<and> se_open (psem_unlink (sm_name h) prev s2) 1 = Some g
     \<and> sm_handle g = sm_handle h \<and> se_names (psem_unlink (sm_name h) prev s2) (sm_name h) = None"
proof -
  obtain s where o: "psem_open linux 0 ''a'' 1 sem_empty = (s, None)"
    using open_a [of sem_empty 1 0] by (auto simp: sem_empty_def shm_empty_def SEM_VALUE_MAX_def)
  obtain w r sid where e: "shm_acquire linux ''a'' 1 ShmCreateOrOpen (ss_world (se_shm sem_empty)) = (w, Inr r)" "ps_name r = ''/a''"
    "se_shm s = \<lparr>ss_world = w, ss_handles = (ss_handles (se_shm sem_empty))(0 \<mapsto> r)\<rparr>"
    "se_open s = (se_open sem_empty)(0 \<mapsto> \<lparr>sm_handle = sid, sm_name = suffixed ''/a''\<rparr>)"
    by (rule psem_open_ok [OF o posix_name_a_s posix_name_a]) blast
  define h where "h = \<lparr>sm_handle = sid, sm_name = suffixed ''/a''\<rparr>"
  have "sem_ok suffixed s"
    by (rule open_ok [where sn = suffixed, OF sem_empty_ok _ _ posix_name_a posix_name_a_s o]) (simp_all add: sem_empty_def)
  note ok = this
  have h: "se_open s 0 = Some h" "\<forall>k g. se_open s k = Some g \<longrightarrow> sm_name g = sm_name h \<longrightarrow> k = 0"
    using e(4) by (auto simp: h_def sem_empty_def split: if_splits)
  obtain s1 prev where c: "psem_close 0 s = (s1, prev)" by fastforce
  note d = sem_okD [OF ok suffixed_inj]
  obtain w2 r2 p where rel: "release_mapping r w = (w2, r2, p)" by (metis prod_cases3)
  have "users (ss_handles (se_shm s)) ''/a'' = {0}" using e(2,3) by (auto simp: users_def sem_empty_def shm_empty_def)
  then have "sint p \<le> 1" using release_prev [OF d(1), of 0 r w2 r2 p] e(2,3) rel by simp
  then have "sx_names w2 ''/a'' = None"
    using rel e(2) d(1) shm_okD(3) [OF d(1), of 0 r] e(3)
    by (auto simp: release_mapping_def release_unlink_def unlink_def handle_ok_def split: prod.splits)
  moreover have "ss_world (se_shm s1) = w2" using c e(3) rel by (auto simp: psem_close_def refs_release_def)
  ultimately obtain s2 where o2: "psem_open linux 1 ''a'' 1 s1 = (s2, None)"
    using open_a [of s1 1 1] by (auto simp: SEM_VALUE_MAX_def)
  have "posix_name linux (''a'' @ ''_s'') = Inr (sm_name h)" using posix_name_a_s by (simp add: h_def)
  from posix_semaphore_drop_race [OF ok suffixed_inj h c posix_name_a this o2] o h(1) c o2
  show ?thesis by blast
qed

end
