(* ===== verification/Condition.thy ===== *)
theory Condition
  imports Prelude
begin

text \<open>
  \<open>condition.rs\<close>: the condition variable of macOS, a sequence number and a count of waiters with \<open>__ulock_wait\<close> and \<open>__ulock_wake\<close>, and that of
  Windows, a semaphore and a counter. The mutex is taken at its contract: it has one holder. Any number of threads wait and wake, one step per access
  to a shared word and per system call.
\<close>

section \<open>macOS\<close>

text \<open>
  A waiter, with the sequence number it expects and whether it has a deadline: it loads the number, counts itself, unlocks the
  mutex, compares, looks at the clock, sleeps, and after a timeout compares once more; then it takes itself off the count and locks the mutex. A waker
  (\<open>notify\<close> if true, else \<open>broadcast\<close>) adds to the number, reads the count and wakes.
\<close>

datatype ca_pc =
    CIdle
  | CSeq bool
  | CCount bool u32
  | CUnlock bool u32
  | CCompare bool u32
  | CClock bool u32
  | CWait bool u32
  | CAsleep bool u32
  | CAgain u32
  | CUncount bool
  | CLock bool
  | CReturn bool
  | CError
  | NBump bool
  | NCount bool
  | NWake bool

record ca_sys =
  ca_seq :: u32
  ca_waiters :: i32
  ca_lock :: "nat option"
  ca_pcs :: "nat \<Rightarrow> ca_pc"

definition ca_goto :: "nat \<Rightarrow> ca_pc \<Rightarrow> ca_sys \<Rightarrow> ca_sys" where
  "ca_goto t pc s = s\<lparr>ca_pcs := (ca_pcs s)(t := pc)\<rparr>"

text \<open>What the kernel and the clock do: nothing, an expired deadline, an interrupted wait, another failure.\<close>

datatype ca_choice = Quiet | Late | Interrupted | Failed

definition ca_awake :: "ca_pc \<Rightarrow> ca_pc" where
  "ca_awake pc = (case pc of CAsleep timed e \<Rightarrow> CCompare timed e | _ \<Rightarrow> pc)"

definition ca_wake_all :: "ca_sys \<Rightarrow> ca_sys" where
  "ca_wake_all s = s\<lparr>ca_pcs := (\<lambda>u. ca_awake (ca_pcs s u))\<rparr>"

definition ca_wake_one :: "nat \<Rightarrow> ca_sys \<Rightarrow> ca_sys" where
  "ca_wake_one u s = ca_goto u (ca_awake (ca_pcs s u)) s"

definition ca_access :: "ca_choice \<Rightarrow> nat \<Rightarrow> ca_sys \<Rightarrow> nat \<Rightarrow> ca_sys" where
  "ca_access ch u s t = (case ca_pcs s t of
     CSeq timed \<Rightarrow> ca_goto t (CCount timed (ca_seq s)) s
   | CCount timed e \<Rightarrow> ca_goto t (CUnlock timed e) (s\<lparr>ca_waiters := ca_waiters s + 1\<rparr>)
   | CUnlock timed e \<Rightarrow>
       if ch = Failed then ca_goto t CError (s\<lparr>ca_waiters := ca_waiters s - 1\<rparr>)
       else ca_goto t (CCompare timed e) (s\<lparr>ca_lock := None\<rparr>)
   | CCompare timed e \<Rightarrow>
       ca_goto t (if ca_seq s \<noteq> e then CUncount True else if timed then CClock timed e else CWait timed e) s
   | CClock timed e \<Rightarrow> ca_goto t (if ch = Late then CUncount False else CWait timed e) s
   | CWait timed e \<Rightarrow>
       if ch = Failed then ca_goto t (if timed then CAgain e else CUncount True) s
       else ca_goto t (if ca_seq s = e then CAsleep timed e else CCompare timed e) s
   | CAsleep timed e \<Rightarrow>
       (case ch of Quiet \<Rightarrow> s
        | Late \<Rightarrow> if timed then ca_goto t (CAgain e) s else s
        | Interrupted \<Rightarrow> ca_goto t (CCompare timed e) s
        | Failed \<Rightarrow> ca_goto t (if timed then CAgain e else CUncount True) s)
   | CAgain e \<Rightarrow> ca_goto t (CUncount (ca_seq s \<noteq> e)) s
   | CUncount b \<Rightarrow> ca_goto t (CLock b) (s\<lparr>ca_waiters := ca_waiters s - 1\<rparr>)
   | CLock b \<Rightarrow> if ca_lock s = None then ca_goto t (CReturn b) (s\<lparr>ca_lock := Some t\<rparr>) else s
   | NBump one \<Rightarrow> ca_goto t (NCount one) (s\<lparr>ca_seq := ca_seq s + 1\<rparr>)
   | NCount one \<Rightarrow> ca_goto t (if sint (ca_waiters s) \<le> 0 then CIdle else NWake one) s
   | NWake one \<Rightarrow> ca_goto t CIdle (if one then ca_wake_one u s else ca_wake_all s)
   | _ \<Rightarrow> s)"

text \<open>
  Threads \<open>0\<close> to \<open>n - 1\<close>. A thread that is in no call locks or unlocks the mutex, or wakes; the holder of the mutex waits. With \<open>notify_ok\<close> a waker may
  be a \<open>notify\<close>.
\<close>

definition ca_out :: "ca_pc \<Rightarrow> bool" where
  "ca_out pc \<longleftrightarrow> pc \<in> {CIdle, CReturn True, CReturn False}"

inductive ca_step :: "bool \<Rightarrow> nat \<Rightarrow> ca_sys \<Rightarrow> ca_sys \<Rightarrow> bool" for notify_ok n where
  ca_moves: "t < n \<Longrightarrow> ca_step notify_ok n s (ca_access ch u s t)"
| ca_locks: "t < n \<Longrightarrow> ca_out (ca_pcs s t) \<Longrightarrow> ca_lock s = None \<Longrightarrow> ca_step notify_ok n s (s\<lparr>ca_lock := Some t\<rparr>)"
| ca_unlocks: "t < n \<Longrightarrow> ca_out (ca_pcs s t) \<Longrightarrow> ca_lock s = Some t \<Longrightarrow> ca_step notify_ok n s (s\<lparr>ca_lock := None\<rparr>)"
| ca_waits: "t < n \<Longrightarrow> ca_out (ca_pcs s t) \<Longrightarrow> ca_lock s = Some t \<Longrightarrow> ca_step notify_ok n s (ca_goto t (CSeq timed) s)"
| ca_wakes: "t < n \<Longrightarrow> ca_out (ca_pcs s t) \<Longrightarrow> one \<longrightarrow> notify_ok \<Longrightarrow> ca_step notify_ok n s (ca_goto t (NBump one) s)"

definition ca_init :: ca_sys where
  "ca_init = \<lparr>ca_seq = 0, ca_waiters = 0, ca_lock = None, ca_pcs = (\<lambda>_. CIdle)\<rparr>"

lemma ca_goto_simps [simp]:
  "ca_pcs (ca_goto t pc s) = (ca_pcs s)(t := pc)" "ca_seq (ca_goto t pc s) = ca_seq s" "ca_waiters (ca_goto t pc s) = ca_waiters s"
  "ca_lock (ca_goto t pc s) = ca_lock s"
  by (simp_all add: ca_goto_def)

text \<open>
  The count is the number of the threads between counting themselves and taking themselves off. A sleeper that expects another number than the
  present one is owed a wake by a broadcast between its addition and its wake.
\<close>

fun counted :: "ca_pc \<Rightarrow> bool" where
  "counted (CUnlock timed e) = True"
| "counted (CCompare timed e) = True"
| "counted (CClock timed e) = True"
| "counted (CWait timed e) = True"
| "counted (CAsleep timed e) = True"
| "counted (CAgain e) = True"
| "counted (CUncount b) = True"
| "counted _ = False"

fun stale :: "u32 \<Rightarrow> ca_pc \<Rightarrow> bool" where
  "stale q (CAsleep timed e) = (e \<noteq> q)"
| "stale q _ = False"

fun will_wake :: "ca_pc \<Rightarrow> bool" where
  "will_wake (NCount one) = (\<not> one)"
| "will_wake (NWake one) = (\<not> one)"
| "will_wake _ = False"

fun notifies :: "ca_pc \<Rightarrow> bool" where
  "notifies (NBump one) = one"
| "notifies (NCount one) = one"
| "notifies (NWake one) = one"
| "notifies _ = False"

definition ca_inv :: "nat \<Rightarrow> ca_sys \<Rightarrow> bool" where
  "ca_inv n s \<longleftrightarrow> (n < 2 ^ 31 \<longrightarrow> (\<forall>t. n \<le> t \<longrightarrow> ca_pcs s t = CIdle) \<and> (\<forall>t. \<not> notifies (ca_pcs s t))
     \<and> ca_waiters s = of_nat (threads_at counted (ca_pcs s))
     \<and> ((\<exists>v. stale (ca_seq s) (ca_pcs s v)) \<longrightarrow> (\<exists>k. will_wake (ca_pcs s k))))"

lemma counted_finite: "\<forall>t. n \<le> t \<longrightarrow> pcs t = CIdle \<Longrightarrow> finite {t. counted (pcs t)} \<and> threads_at counted pcs \<le> n"
proof -
  assume "\<forall>t. n \<le> t \<longrightarrow> pcs t = CIdle"
  then have s: "{t. counted (pcs t)} \<subseteq> {..<n}" by (auto simp: not_less [symmetric])
  have f: "finite {t. counted (pcs t)}" by (rule finite_subset [OF s]) simp
  then show ?thesis using card_mono [OF _ s] by (simp add: threads_at_def)
qed

lemma ca_invI:
  assumes "ca_inv n s" "t < n" "ca_pcs s' = (ca_pcs s)(t := pc)" "\<not> notifies pc"
    "ca_waiters s' = ca_waiters s + of_bool (counted pc) - of_bool (counted (ca_pcs s t))"
    "will_wake pc \<or> \<not> will_wake (ca_pcs s t) \<and> ca_seq s' = ca_seq s \<and> \<not> stale (ca_seq s') pc
       \<or> n < 2 ^ 31 \<and> (\<forall>v. v \<noteq> t \<longrightarrow> \<not> stale (ca_seq s') (ca_pcs s v)) \<and> \<not> stale (ca_seq s') pc"
  shows "ca_inv n s'"
  unfolding ca_inv_def assms(3)
proof (intro impI conjI allI)
  assume n: "n < 2 ^ 31"
  note i = assms(1) [unfolded ca_inv_def, rule_format, OF n]
  show "((ca_pcs s)(t := pc)) u = CIdle" if "n \<le> u" for u using that i assms(2) by auto
  show "\<not> notifies (((ca_pcs s)(t := pc)) u)" for u using i assms(4) by simp
  have fin: "finite {u. counted (ca_pcs s u)}" using counted_finite i by blast
  have "threads_at counted ((ca_pcs s)(t := pc)) + of_bool (counted (ca_pcs s t)) = threads_at counted (ca_pcs s) + of_bool (counted pc)"
    using threads_at_upd [of counted "ca_pcs s" t pc, OF fin] by (simp add: of_bool_def)
  then have "(of_nat (threads_at counted ((ca_pcs s)(t := pc))) :: i32) + of_bool (counted (ca_pcs s t))
      = of_nat (threads_at counted (ca_pcs s)) + of_bool (counted pc)"
    by (metis of_nat_add of_nat_of_bool)
  then have "(of_nat (threads_at counted ((ca_pcs s)(t := pc))) :: i32)
      = of_nat (threads_at counted (ca_pcs s)) + of_bool (counted pc) - of_bool (counted (ca_pcs s t))"
    by (simp add: eq_diff_eq)
  then show "ca_waiters s' = of_nat (threads_at counted ((ca_pcs s)(t := pc)))" using i assms(5) by simp
  show "\<exists>k. will_wake (((ca_pcs s)(t := pc)) k)" if st: "\<exists>v. stale (ca_seq s') (((ca_pcs s)(t := pc)) v)"
    using assms(6)
  proof (elim disjE conjE)
    assume "will_wake pc"
    then show ?thesis by (intro exI [of _ t]) simp
  next
    assume a: "\<not> will_wake (ca_pcs s t)" "ca_seq s' = ca_seq s" "\<not> stale (ca_seq s') pc"
    obtain v where "stale (ca_seq s') (((ca_pcs s)(t := pc)) v)" using st by blast
    then have "stale (ca_seq s) (ca_pcs s v)" using a by (cases "v = t") simp_all
    then obtain k where k: "will_wake (ca_pcs s k)" using i by blast
    then have "k \<noteq> t" using a(1) by auto
    then show ?thesis using k by (intro exI [of _ k]) simp
  next
    assume a: "\<forall>v. v \<noteq> t \<longrightarrow> \<not> stale (ca_seq s') (ca_pcs s v)" "\<not> stale (ca_seq s') pc"
    obtain v where "stale (ca_seq s') (((ca_pcs s)(t := pc)) v)" using st by blast
    then show ?thesis using a by (cases "v = t") simp_all
  qed
qed

lemma ca_inv_goto:
  assumes "ca_inv n s" "t < n" "\<not> notifies pc" "counted pc \<longleftrightarrow> counted (ca_pcs s t)" "\<not> will_wake (ca_pcs s t)" "\<not> stale (ca_seq s) pc"
  shows "ca_inv n (ca_goto t pc s)" "ca_inv n (ca_goto t pc (s\<lparr>ca_lock := l\<rparr>))"
  by (rule ca_invI [OF assms(1,2), where pc = pc]; use assms(3-6) in simp)+

lemma ca_inv_count:
  assumes "ca_inv n s" "t < n" "\<not> notifies pc" "counted pc" "\<not> counted (ca_pcs s t)" "\<not> will_wake (ca_pcs s t)" "\<not> stale (ca_seq s) pc"
  shows "ca_inv n (ca_goto t pc (s\<lparr>ca_waiters := ca_waiters s + 1\<rparr>))"
  by (rule ca_invI [OF assms(1,2), where pc = pc]) (use assms(3-7) in simp_all)

lemma ca_inv_uncount:
  assumes "ca_inv n s" "t < n" "\<not> notifies pc" "\<not> counted pc" "counted (ca_pcs s t)" "\<not> stale (ca_seq s) pc"
  shows "ca_inv n (ca_goto t pc (s\<lparr>ca_waiters := ca_waiters s - 1\<rparr>))"
proof -
  have "\<not> will_wake (ca_pcs s t)" using assms(5) by (cases "ca_pcs s t") simp_all
  then show ?thesis by (intro ca_invI [OF assms(1,2), where pc = pc]) (use assms(3-6) in simp_all)
qed

text \<open>A broadcast that reads the count finds it positive when somebody sleeps.\<close>

lemma count_positive:
  assumes "ca_inv n s" "n < 2 ^ 31" "counted (ca_pcs s v)"
  shows "0 < sint (ca_waiters s)"
proof -
  note i = assms(1) [unfolded ca_inv_def, rule_format, OF assms(2)]
  have f: "finite {t. counted (ca_pcs s t)}" "threads_at counted (ca_pcs s) \<le> n" using counted_finite i by blast+
  then have "0 < threads_at counted (ca_pcs s)" using threads_at_pos [of counted "ca_pcs s"] assms(3) by blast
  moreover have "threads_at counted (ca_pcs s) < 2 ^ 31" using f(2) assms(2) by simp
  ultimately show ?thesis using i by (simp add: signed_of_nat signed_take_bit_int_eq_self)
qed

lemma ca_inv_read:
  assumes "ca_inv n s" "t < n" "ca_pcs s t = NCount False"
  shows "ca_inv n (ca_goto t (if sint (ca_waiters s) \<le> 0 then CIdle else NWake False) s)"
proof (cases "n < 2 ^ 31 \<and> sint (ca_waiters s) \<le> 0")
  case True
  then have none: "\<not> stale (ca_seq s) (ca_pcs s v)" for v
    using count_positive [OF assms(1), of v] by (cases "ca_pcs s v") auto
  show ?thesis by (rule ca_invI [OF assms(1,2), where pc = CIdle]) (use True none assms(3) in simp_all)
next
  case False
  show ?thesis
  proof (cases "n < 2 ^ 31")
    case True
    then show ?thesis using False by (intro ca_invI [OF assms(1,2), where pc = "NWake False"]) (simp_all add: assms(3))
  qed (simp add: ca_inv_def)
qed

lemma awake_ca [simp]:
  "counted (ca_awake pc) = counted pc" "\<not> stale q (ca_awake pc)" "notifies (ca_awake pc) = notifies pc" "ca_awake pc = CIdle \<longleftrightarrow> pc = CIdle"
  by (cases pc; simp add: ca_awake_def)+

lemma ca_inv_vacuous: "\<not> n < 2 ^ 31 \<Longrightarrow> ca_inv n s"
  by (simp add: ca_inv_def)

lemma ca_inv_wake_all:
  assumes "ca_inv n s" "t < n" "ca_pcs s t = NWake False"
  shows "ca_inv n (ca_goto t CIdle (ca_wake_all s))"
proof -
  let ?s = "ca_wake_all s"
  have e: "ca_pcs ?s = (\<lambda>u. ca_awake (ca_pcs s u))" "ca_waiters ?s = ca_waiters s" "ca_seq ?s = ca_seq s" by (simp_all add: ca_wake_all_def)
  have t: "threads_at counted (\<lambda>u. ca_awake (ca_pcs s u)) = threads_at counted (ca_pcs s)" by (simp add: threads_at_def)
  have i: "ca_inv n ?s" using assms(1) unfolding ca_inv_def e t by simp
  have w: "ca_pcs ?s t = NWake False" using assms(3) by (simp add: e ca_awake_def)
  show ?thesis
  proof (cases "n < 2 ^ 31")
    case True
    show ?thesis by (rule ca_invI [OF i assms(2), where pc = CIdle]) (use True in \<open>simp_all add: w\<close>, simp add: e)
  qed (rule ca_inv_vacuous)
qed

lemma ca_inv_bump:
  assumes "ca_inv n s" "t < n" "ca_pcs s t = NBump False"
  shows "ca_inv n (ca_goto t (NCount False) (s\<lparr>ca_seq := ca_seq s + 1\<rparr>))"
  by (rule ca_invI [OF assms(1,2), where pc = "NCount False"]) (simp_all add: assms(3))

lemma ca_inv_one: "ca_inv n s \<Longrightarrow> n < 2 ^ 31 \<Longrightarrow> \<not> notifies (ca_pcs s t)"
  by (simp add: ca_inv_def)

lemma ca_access_inv:
  assumes inv: "ca_inv n s" and t: "t < n"
  shows "ca_inv n (ca_access ch u s t)"
proof (cases "n < 2 ^ 31")
  case True
  note one = ca_inv_one [OF inv True, of t]
  show ?thesis
  proof (cases "ca_pcs s t")
    case (NBump b)
    then show ?thesis using one ca_inv_bump [OF inv t] by (simp add: ca_access_def)
  next
    case (NCount b)
    then show ?thesis using one ca_inv_read [OF inv t] by (simp add: ca_access_def)
  next
    case (NWake b)
    then show ?thesis using one ca_inv_wake_all [OF inv t] by (simp add: ca_access_def)
  next
    case (CCount timed e)
    then show ?thesis using ca_inv_count [OF inv t, of "CUnlock timed e"] by (simp add: ca_access_def)
  next
    case (CUnlock timed e)
    then show ?thesis
      using ca_inv_uncount [OF inv t, of CError] ca_inv_goto(2) [OF inv t, of "CCompare timed e" None] by (simp add: ca_access_def)
  next
    case (CUncount b)
    then show ?thesis using ca_inv_uncount [OF inv t, of "CLock b"] by (simp add: ca_access_def)
  qed (use inv t in \<open>auto simp: ca_access_def intro!: ca_inv_goto split: ca_choice.split\<close>)
qed (simp add: ca_inv_vacuous)

lemma ca_inv_lock [simp]: "ca_inv n (s\<lparr>ca_lock := l\<rparr>) = ca_inv n s"
  by (simp add: ca_inv_def)

lemma ca_step_inv: "ca_inv n s \<Longrightarrow> ca_step False n s s' \<Longrightarrow> ca_inv n s'"
  by (erule ca_step.cases) (auto simp: ca_out_def ca_access_inv intro!: ca_inv_goto)

lemma ca_init_inv: "ca_inv n ca_init"
  by (simp add: ca_inv_def ca_init_def threads_at_def)

interpretation apple_cond: invariant_system ca_init "ca_step False n" "ca_inv n"
  by unfold_locales (auto intro: ca_init_inv ca_step_inv)

text \<open>
  C13. The macOS condition loses no broadcast: whatever the interleaving of waits (with deadlines, interruptions and failing calls) and broadcasts of fewer than
  \<open>2^31\<close> threads, when a thread sleeps in \<open>__ulock_wait\<close> although the sequence number has moved on from the one it read under
  the mutex, then a broadcast is on its way that has yet to wake it, and it will not skip the wake because of the count of waiters.
\<close>

theorem apple_condition_no_lost_wakeup:
  assumes "rtranclp (ca_step False n) ca_init s" "n < 2 ^ 31" "ca_pcs s v = CAsleep timed e" "ca_seq s \<noteq> e"
  shows "\<exists>k. ca_pcs s k \<in> {NCount False, NWake False} \<and> (ca_pcs s k = NCount False \<longrightarrow> ca_pcs (ca_access Quiet u s k) k = NWake False)"
proof -
  have inv: "ca_inv n s" by (rule apple_cond.reachable_inv [OF assms(1)])
  have "stale (ca_seq s) (ca_pcs s v)" using assms(3,4) by simp
  then obtain k where k: "will_wake (ca_pcs s k)" using inv assms(2) unfolding ca_inv_def by blast
  have "0 < sint (ca_waiters s)" using count_positive [OF inv assms(2), of v] assms(3) by simp
  then have "ca_pcs (ca_access Quiet u s k) k = NWake False" if "ca_pcs s k = NCount False"
    using that by (simp add: ca_access_def)
  then show ?thesis using k by (cases "ca_pcs s k") (auto intro!: exI [of _ k])
qed

text \<open>Thread 0 takes the mutex, waits and sleeps; thread 1 starts a broadcast.\<close>

definition ca_sleep :: ca_sys where
  "ca_sleep = ((\<lambda>s. ca_access Quiet 0 s 0) ^^ 5) (ca_goto 0 (CSeq False) (ca_init\<lparr>ca_lock := Some 0\<rparr>))"

definition ca_bumped :: ca_sys where
  "ca_bumped = ca_access Quiet 0 (ca_goto 1 (NBump False) ca_sleep) 1"

lemma ca_sleep_value:
  "ca_sleep = \<lparr>ca_seq = 0, ca_waiters = 1, ca_lock = None, ca_pcs = (\<lambda>_. CIdle)(0 := CAsleep False 0)\<rparr>"
  by (simp add: ca_sleep_def eval_nat_numeral ca_access_def ca_goto_def ca_init_def)

lemma ca_iterate: "t < n \<Longrightarrow> rtranclp (ca_step b n) s (((\<lambda>s. ca_access ch u s t) ^^ m) s)"
  by (induction m) (auto intro: rtranclp.rtrancl_into_rtrancl ca_moves)

lemma ca_bumped_reachable: "rtranclp (ca_step False 2) ca_init ca_bumped"
proof -
  let ?a = "ca_init\<lparr>ca_lock := Some 0\<rparr>"
  let ?b = "ca_goto 0 (CSeq False) ?a"
  have a: "ca_step False 2 ca_init ?a" by (rule ca_locks) (simp_all add: ca_init_def ca_out_def)
  have b: "ca_step False 2 ?a ?b" by (rule ca_waits) (simp_all add: ca_init_def ca_out_def)
  have c: "rtranclp (ca_step False 2) ?b ca_sleep" unfolding ca_sleep_def by (rule ca_iterate) simp
  have d: "ca_step False 2 ca_sleep (ca_goto 1 (NBump False) ca_sleep)" by (rule ca_wakes) (simp_all add: ca_sleep_value ca_out_def)
  have e: "ca_step False 2 (ca_goto 1 (NBump False) ca_sleep) ca_bumped" unfolding ca_bumped_def by (rule ca_moves) simp
  show ?thesis
    by (rule rtranclp.rtrancl_into_rtrancl [OF rtranclp.rtrancl_into_rtrancl [OF
          converse_rtranclp_into_rtranclp [OF a converse_rtranclp_into_rtranclp [OF b c]] d] e])
qed

theorem apple_condition_no_lost_wakeup_witness:
  "ca_pcs ca_bumped 0 = CAsleep False 0 \<and> ca_seq ca_bumped = 1
    \<and> (\<exists>k. ca_pcs ca_bumped k = NCount False \<and> ca_pcs (ca_access Quiet 0 ca_bumped k) k = NWake False)"
proof -
  have v: "ca_pcs ca_bumped = (\<lambda>_. CIdle)(0 := CAsleep False 0, 1 := NCount False)" "ca_seq ca_bumped = 1"
    by (simp_all add: ca_bumped_def ca_sleep_value ca_access_def ca_goto_def fun_upd_twist)
  have "\<exists>k. ca_pcs ca_bumped k \<in> {NCount False, NWake False}
      \<and> (ca_pcs ca_bumped k = NCount False \<longrightarrow> ca_pcs (ca_access Quiet 0 ca_bumped k) k = NWake False)"
    by (rule apple_condition_no_lost_wakeup [OF ca_bumped_reachable, of 0 False 0]) (simp_all add: v)
  then show ?thesis using v by (auto split: if_splits)
qed

section \<open>Windows\<close>

text \<open>
  A counting semaphore and a counter of waiters under a mutex of their own; a section under that mutex is one step. A waiter registers, unlocks the mutex,
  waits for the semaphore, locks the mutex, and if it timed out takes itself off the counter. Every call on a mutex or on the semaphore may fail; the
  \<open>?\<close> then returns with the mutexes and the counter as they are. The semaphore holds at most \<open>i32::MAX\<close> tokens: a post
  beyond that fails, and leaves \<open>self.lock\<close> locked (\<open>cw_inner\<close>; a Windows mutex does not block its own thread).
\<close>

datatype cw_pc =
    VIdle
  | VRegister bool
  | VUnlock bool
  | VSem bool
  | VLock bool
  | VUnregister
  | VReturn bool
  | VNotify
  | VBroadcast
  | VError

text \<open>\<open>cw_calls\<close> counts the registrations.\<close>

record cw_sys =
  cw_counter :: i32
  cw_tokens :: nat
  cw_inner :: "nat option"
  cw_lock :: "nat option"
  cw_calls :: nat
  cw_pcs :: "nat \<Rightarrow> cw_pc"

definition cw_goto :: "nat \<Rightarrow> cw_pc \<Rightarrow> cw_sys \<Rightarrow> cw_sys" where
  "cw_goto t pc s = s\<lparr>cw_pcs := (cw_pcs s)(t := pc)\<rparr>"

definition sem_post :: "i32 \<Rightarrow> cw_sys \<Rightarrow> cw_sys option" where
  "sem_post c s = (if sint c \<le> 0 \<or> 2 ^ 31 - 1 < int (cw_tokens s) + sint c then None
     else Some (s\<lparr>cw_tokens := cw_tokens s + nat (sint c)\<rparr>))"

text \<open>What the kernel does: the call succeeds or blocks, a deadline expires, the call fails.\<close>

datatype cw_choice = Steady | Expiring | Breaking

definition cw_section :: "cw_choice \<Rightarrow> nat \<Rightarrow> (cw_sys \<Rightarrow> cw_sys) \<Rightarrow> cw_sys \<Rightarrow> cw_sys" where
  "cw_section ch t body s =
     (if ch = Breaking then cw_goto t VError s else if cw_inner s \<in> {None, Some t} then body s else s)"

text \<open>The body of \<open>notify\<close> and \<open>broadcast\<close>: post \<open>n\<close> tokens if somebody is registered, and leave \<open>c\<close> in the counter.\<close>

definition cw_wake :: "nat \<Rightarrow> i32 \<Rightarrow> i32 \<Rightarrow> cw_sys \<Rightarrow> cw_sys" where
  "cw_wake t n c s =
     (if 0 < sint (cw_counter s)
      then (case sem_post n s of None \<Rightarrow> cw_goto t VError (s\<lparr>cw_inner := Some t\<rparr>) | Some s' \<Rightarrow> cw_goto t VIdle (s'\<lparr>cw_counter := c\<rparr>))
      else cw_goto t VIdle s)"

definition cw_access :: "cw_choice \<Rightarrow> cw_sys \<Rightarrow> nat \<Rightarrow> cw_sys" where
  "cw_access ch s t = (case cw_pcs s t of
     VRegister timed \<Rightarrow> cw_section ch t (\<lambda>s. cw_goto t (VUnlock timed)
       (s\<lparr>cw_counter := (if sint (cw_counter s) < 0 then 1 else cw_counter s + 1), cw_calls := cw_calls s + 1\<rparr>)) s
   | VUnlock timed \<Rightarrow> if ch = Breaking then cw_goto t VError s else cw_goto t (VSem timed) (s\<lparr>cw_lock := None\<rparr>)
   | VSem timed \<Rightarrow>
       if ch = Breaking then cw_goto t VError s
       else if 0 < cw_tokens s then cw_goto t (VLock True) (s\<lparr>cw_tokens := cw_tokens s - 1\<rparr>)
       else if timed \<and> ch = Expiring then cw_goto t (VLock False) s else s
   | VLock b \<Rightarrow>
       if ch = Breaking then cw_goto t VError s
       else if cw_lock s = None then cw_goto t (if b then VReturn True else VUnregister) (s\<lparr>cw_lock := Some t\<rparr>) else s
   | VUnregister \<Rightarrow> cw_section ch t (\<lambda>s. cw_goto t (VReturn False) (s\<lparr>cw_counter := cw_counter s - 1\<rparr>)) s
   | VNotify \<Rightarrow> cw_section ch t (cw_wake t 1 (cw_counter s - 1)) s
   | VBroadcast \<Rightarrow> cw_section ch t (cw_wake t (cw_counter s) 0) s
   | _ \<Rightarrow> s)"

definition cw_out :: "cw_pc \<Rightarrow> bool" where
  "cw_out pc \<longleftrightarrow> pc \<in> {VIdle, VReturn True, VReturn False, VError}"

inductive cw_step :: "cw_sys \<Rightarrow> cw_sys \<Rightarrow> bool" where
  cw_moves: "cw_step s (cw_access ch s t)"
| cw_locks: "cw_out (cw_pcs s t) \<Longrightarrow> cw_lock s = None \<Longrightarrow> cw_step s (s\<lparr>cw_lock := Some t\<rparr>)"
| cw_unlocks: "cw_out (cw_pcs s t) \<Longrightarrow> cw_lock s = Some t \<Longrightarrow> cw_step s (s\<lparr>cw_lock := None\<rparr>)"
| cw_waits: "cw_out (cw_pcs s t) \<Longrightarrow> cw_lock s = Some t \<Longrightarrow> cw_step s (cw_goto t (VRegister timed) s)"
| cw_notifies: "cw_out (cw_pcs s t) \<Longrightarrow> cw_step s (cw_goto t VNotify s)"
| cw_broadcasts: "cw_out (cw_pcs s t) \<Longrightarrow> cw_step s (cw_goto t VBroadcast s)"

definition cw_init :: cw_sys where
  "cw_init = \<lparr>cw_counter = 0, cw_tokens = 0, cw_inner = None, cw_lock = None, cw_calls = 0, cw_pcs = (\<lambda>_. VIdle)\<rparr>"

lemma cw_goto_simps [simp]:
  "cw_pcs (cw_goto t pc s) = (cw_pcs s)(t := pc)" "cw_counter (cw_goto t pc s) = cw_counter s" "cw_tokens (cw_goto t pc s) = cw_tokens s"
  "cw_lock (cw_goto t pc s) = cw_lock s" "cw_inner (cw_goto t pc s) = cw_inner s" "cw_calls (cw_goto t pc s) = cw_calls s"
  by (simp_all add: cw_goto_def)

text \<open>The threads that are registered: those that wait for a token, and those that timed out and have yet to take themselves off.\<close>

fun registered :: "cw_pc \<Rightarrow> bool" where
  "registered (VUnlock timed) = True"
| "registered (VSem timed) = True"
| "registered (VLock b) = (\<not> b)"
| "registered VUnregister = True"
| "registered _ = False"

text \<open>
  While fewer than \<open>2^31\<close> registrations were made the counter stays in range and no post fails. The bounds: \<open>r\<close> threads are registered, \<open>c\<close> is the
  counter, \<open>k\<close> the number of tokens and \<open>n\<close> that of the registrations.
\<close>

definition cw_bounds :: "int \<Rightarrow> int \<Rightarrow> int \<Rightarrow> int \<Rightarrow> bool" where
  "cw_bounds r c k n \<longleftrightarrow> 0 \<le> r \<and> 0 \<le> k \<and> r \<le> c + k \<and> k \<le> n \<and> k + c \<le> n \<and> r - n \<le> c"

definition cw_inv :: "cw_sys \<Rightarrow> bool" where
  "cw_inv s \<longleftrightarrow> (cw_calls s < 2 ^ 31 \<longrightarrow> cw_inner s = None \<and> finite {t. registered (cw_pcs s t)}
     \<and> cw_bounds (int (threads_at registered (cw_pcs s))) (sint (cw_counter s)) (int (cw_tokens s)) (int (cw_calls s)))"

lemma sint_step:
  fixes c :: i32
  shows "sint c + 1 < 2 ^ 31 \<Longrightarrow> sint (c + 1) = sint c + 1" "- (2 ^ 31) \<le> sint c - 1 \<Longrightarrow> sint (c - 1) = sint c - 1"
  using sint_greater_eq [of c] sint_less [of c]
  by (simp_all add: sint_word_ariths signed_take_bit_int_eq_self)

lemma cw_invI:
  assumes "cw_inv s" "cw_pcs s' = (cw_pcs s)(t := pc)" "cw_calls s \<le> cw_calls s'"
    "\<And>r. cw_calls s' < 2 ^ 31 \<Longrightarrow> cw_inner s = None \<Longrightarrow> cw_bounds (r + of_bool (registered (cw_pcs s t))) (sint (cw_counter s)) (int (cw_tokens s)) (int (cw_calls s))
       \<Longrightarrow> 0 \<le> r \<Longrightarrow> cw_inner s' = None \<and> cw_bounds (r + of_bool (registered pc)) (sint (cw_counter s')) (int (cw_tokens s')) (int (cw_calls s'))"
  shows "cw_inv s'"
  unfolding cw_inv_def
proof
  assume n: "cw_calls s' < 2 ^ 31"
  then have i: "cw_inner s = None" "finite {u. registered (cw_pcs s u)}"
    "cw_bounds (int (threads_at registered (cw_pcs s))) (sint (cw_counter s)) (int (cw_tokens s)) (int (cw_calls s))"
    using assms(1,3) by (auto simp: cw_inv_def)
  let ?r = "int (threads_at registered (cw_pcs s)) - of_bool (registered (cw_pcs s t))"
  have "0 \<le> ?r" using threads_at_pos [of registered "cw_pcs s"] i(2) by (auto simp: of_bool_def)
  moreover have "?r + of_bool (registered pc) = int (threads_at registered ((cw_pcs s)(t := pc)))"
    using threads_at_upd [of registered "cw_pcs s" t pc, OF i(2)] by (simp split: if_splits)
  ultimately show "cw_inner s' = None \<and> finite {u. registered (cw_pcs s' u)}
      \<and> cw_bounds (int (threads_at registered (cw_pcs s'))) (sint (cw_counter s')) (int (cw_tokens s')) (int (cw_calls s'))"
    using assms(4) [OF n i(1), of ?r] i(3) finite_at_upd [of registered "cw_pcs s" t pc, OF i(2)] unfolding assms(2) by simp
qed

lemma cw_inv_leave: "cw_inv s \<Longrightarrow> \<not> registered pc \<Longrightarrow> cw_inv (cw_goto t pc s)"
  by (rule cw_invI [of s _ t pc]) (auto simp: cw_bounds_def of_bool_def split: if_splits)

lemma cw_inv_section:
  assumes "cw_inv s" "cw_calls s \<le> cw_calls (body s)" "cw_inner s = None \<Longrightarrow> cw_inv (body s)"
  shows "cw_inv (cw_section ch t body s)"
proof (cases "cw_inner s")
  case (Some u)
  then have "cw_inv (body s)" using assms(1,2) by (simp add: cw_inv_def)
  then show ?thesis using assms(1) by (simp add: cw_section_def cw_inv_leave)
qed (use assms in \<open>simp add: cw_section_def cw_inv_leave\<close>)

lemma cw_inv_register:
  assumes "cw_inv s" "cw_pcs s t = VRegister timed"
  shows "cw_inv (cw_goto t (VUnlock timed)
    (s\<lparr>cw_counter := (if sint (cw_counter s) < 0 then 1 else cw_counter s + 1), cw_calls := cw_calls s + 1\<rparr>))"
  by (rule cw_invI [OF assms(1), where t = t and pc = "VUnlock timed"]) (auto simp: assms(2) cw_bounds_def sint_step(1))

lemma cw_inv_unregister:
  assumes "cw_inv s" "cw_pcs s t = VUnregister"
  shows "cw_inv (cw_goto t (VReturn False) (s\<lparr>cw_counter := cw_counter s - 1\<rparr>))"
  by (rule cw_invI [OF assms(1), where t = t and pc = "VReturn False"]) (auto simp: assms(2) cw_bounds_def sint_step(2))

lemma cw_wake_calls [simp]: "cw_calls (cw_wake t n c s) = cw_calls s"
  by (simp add: cw_wake_def sem_post_def)

lemma cw_inv_wake:
  assumes "cw_inv s" "\<not> registered (cw_pcs s t)" "cw_inner s = None"
    "0 < sint (cw_counter s) \<Longrightarrow> 0 < sint n \<and> sint n \<le> sint (cw_counter s) \<and> sint c = sint (cw_counter s) - sint n"
  shows "cw_inv (cw_wake t n c s)"
proof (cases "0 < sint (cw_counter s) \<and> cw_calls s < 2 ^ 31")
  case True
  then have "int (cw_tokens s) + sint (cw_counter s) < 2 ^ 31" using assms(1) by (simp add: cw_inv_def cw_bounds_def)
  then have e: "cw_wake t n c s = cw_goto t VIdle (s\<lparr>cw_tokens := cw_tokens s + nat (sint n), cw_counter := c\<rparr>)"
    using assms(4) True by (simp add: cw_wake_def sem_post_def)
  show ?thesis
    unfolding e by (rule cw_invI [OF assms(1), where t = t and pc = VIdle]) (use assms(2,4) True in \<open>auto simp: cw_bounds_def\<close>)
next
  case False
  show ?thesis
  proof (cases "cw_calls s < 2 ^ 31")
    case True
    then show ?thesis using False cw_inv_leave [OF assms(1), of VIdle t] by (simp add: cw_wake_def)
  qed (simp add: cw_inv_def)
qed

lemma cw_access_inv: "cw_inv s \<Longrightarrow> cw_inv (cw_access ch s t)"
proof (cases "cw_pcs s t")
  case (VRegister timed)
  assume "cw_inv s"
  then show ?thesis using VRegister cw_inv_register [of s t timed] by (auto simp: cw_access_def intro!: cw_inv_section)
next
  case VUnregister
  assume "cw_inv s"
  then show ?thesis using VUnregister cw_inv_unregister [of s t] by (auto simp: cw_access_def intro!: cw_inv_section)
next
  case VNotify
  assume "cw_inv s"
  then show ?thesis
    using VNotify sint_step(2) [of "cw_counter s"] by (auto simp: cw_access_def intro!: cw_inv_section cw_inv_wake)
next
  case VBroadcast
  assume "cw_inv s"
  then show ?thesis using VBroadcast by (auto simp: cw_access_def intro!: cw_inv_section cw_inv_wake)
qed (auto simp: cw_access_def cw_inv_leave cw_bounds_def intro!: cw_invI [of s _ t])

lemma cw_inv_lock [simp]: "cw_inv (s\<lparr>cw_lock := l\<rparr>) = cw_inv s"
  by (simp add: cw_inv_def)

lemma cw_step_inv: "cw_inv s \<Longrightarrow> cw_step s s' \<Longrightarrow> cw_inv s'"
  by (erule cw_step.cases) (auto simp: cw_access_inv cw_inv_leave)

lemma cw_init_inv: "cw_inv cw_init"
  by (simp add: cw_inv_def cw_init_def threads_at_def cw_bounds_def)

interpretation windows_cond: invariant_system cw_init cw_step cw_inv
  by unfold_locales (auto intro: cw_init_inv cw_step_inv)


text \<open>Runs of the machine.\<close>

datatype cw_event = WMove nat | WLock nat | WUnlock nat | WWait nat | WBroadcast nat

fun cw_do :: "cw_event \<Rightarrow> cw_sys \<Rightarrow> cw_sys option" where
  "cw_do (WMove t) s = Some (cw_access Steady s t)"
| "cw_do (WLock t) s = (if cw_out (cw_pcs s t) \<and> cw_lock s = None then Some (s\<lparr>cw_lock := Some t\<rparr>) else None)"
| "cw_do (WUnlock t) s = (if cw_out (cw_pcs s t) \<and> cw_lock s = Some t then Some (s\<lparr>cw_lock := None\<rparr>) else None)"
| "cw_do (WWait t) s = (if cw_out (cw_pcs s t) \<and> cw_lock s = Some t then Some (cw_goto t (VRegister False) s) else None)"
| "cw_do (WBroadcast t) s = (if cw_out (cw_pcs s t) then Some (cw_goto t VBroadcast s) else None)"

fun cw_run :: "cw_event list \<Rightarrow> cw_sys \<Rightarrow> cw_sys option" where
  "cw_run [] s = Some s"
| "cw_run (x # xs) s = (case cw_do x s of None \<Rightarrow> None | Some s' \<Rightarrow> cw_run xs s')"

lemma cw_run_steps: "cw_run xs s = Some s' \<Longrightarrow> rtranclp cw_step s s'"
proof (induction xs arbitrary: s)
  case (Cons x xs)
  obtain s1 where s1: "cw_do x s = Some s1" "cw_run xs s1 = Some s'" using Cons.prems by (auto split: option.splits)
  have "cw_step s s1" using s1(1) by (cases x) (auto intro: cw_step.intros split: if_splits)
  then show ?case using Cons.IH [OF s1(2)] by (rule converse_rtranclp_into_rtranclp)
qed simp

text \<open>Thread 1 waits; thread 0 is about to broadcast.\<close>

definition one_waits :: "cw_event list" where
  "one_waits = [WLock 1, WWait 1, WMove 1, WMove 1, WBroadcast 0]"


text \<open>A post that fails locks everybody else out of the counter.\<close>

lemma failed_post_wedges:
  assumes "cw_pcs s t = VBroadcast" "cw_inner s = None" "0 < sint (cw_counter s)" "2 ^ 31 - 1 < int (cw_tokens s) + sint (cw_counter s)"
    "u \<noteq> t" "cw_pcs s u \<in> {VNotify, VBroadcast, VUnregister, VRegister timed}"
  shows "cw_access Steady (cw_access Steady s t) u = cw_access Steady s t"
  using assms by (auto simp: cw_access_def cw_section_def cw_wake_def sem_post_def)

text \<open>
  C38. A token may go to the wrong waiter on Windows: there is a run in which thread 1 waits, thread 0 broadcasts, and thread 2, which starts to wait only
  afterwards, takes the token and returns; thread 1, which the broadcast was for, stays asleep without a token.
\<close>

theorem windows_broadcast_stolen:
  "\<exists>s s'. rtranclp cw_step cw_init s \<and> cw_pcs s 1 = VSem False \<and> cw_pcs s 2 = VIdle \<and> cw_pcs s 0 = VBroadcast
     \<and> rtranclp cw_step (cw_access Steady s 0) s' \<and> cw_pcs s' 2 = VReturn True \<and> cw_pcs s' 1 = VSem False \<and> cw_tokens s' = 0
     \<and> (\<forall>t. cw_pcs s' t \<notin> {VBroadcast, VNotify})"
proof -
  let ?xs = "[WLock 2, WWait 2, WMove 2, WMove 2, WMove 2, WMove 2]"
  obtain s where s: "cw_run one_waits cw_init = Some s" by (simp add: one_waits_def cw_init_def cw_out_def cw_access_def cw_section_def cw_wake_def sem_post_def)
  have e: "s = \<lparr>cw_counter = 1, cw_tokens = 0, cw_inner = None, cw_lock = None, cw_calls = 1, cw_pcs = (\<lambda>_. VIdle)(1 := VSem False, 0 := VBroadcast)\<rparr>"
    using s by (simp add: one_waits_def cw_init_def cw_out_def cw_access_def cw_section_def cw_wake_def sem_post_def cw_goto_def)
  obtain s' where s': "cw_run ?xs (cw_access Steady s 0) = Some s'"
    "cw_pcs s' = (\<lambda>_. VIdle)(1 := VSem False, 0 := VIdle, 2 := VReturn True)" "cw_tokens s' = 0"
    by (simp add: e cw_out_def cw_access_def cw_section_def cw_wake_def sem_post_def cw_goto_def)
  show ?thesis
    using cw_run_steps [OF s] cw_run_steps [OF s'(1)] s'(2,3) by (intro exI [of _ s] exI [of _ s']) (simp add: e)
qed

end
