(* ===== verification/Abi_Tool.thy ===== *)
theory Abi_Tool
  imports Names "HOL-Library.Monad_Syntax" "HOL-Library.List_Lexorder" "HOL-Library.Product_Lexorder" "HOL-Library.Char_ord"
begin

text \<open>
  \<open>tools/abi\<close>: the checks of the language-neutral ABI description \<open>abi.json\<close>, with the reference computation of the POSIX names. A document is a JSON
  value as \<open>serde_json\<close> has it, with integers for its numbers and the members of an object in the order of their keys; \<open>None\<close> is a panic. Strings
  are lists of UTF-8 bytes.
\<close>

section \<open>JSON values\<close>

datatype json = JNull | JBool bool | JNum int | JStr string | JArr "json list" | JObj "(string \<times> json) list"

definition get :: "json \<Rightarrow> string \<Rightarrow> json option" where
  "get v k = (case v of JObj kvs \<Rightarrow> map_of kvs k | _ \<Rightarrow> None)"

text \<open>\<open>v["k"]\<close> is null when there is no such member.\<close>

definition idx :: "json \<Rightarrow> string \<Rightarrow> json" where
  "idx v k = (case get v k of Some x \<Rightarrow> x | None \<Rightarrow> JNull)"

fun as_str :: "json \<Rightarrow> string option" where
  "as_str (JStr s) = Some s"
| "as_str _ = None"

fun as_array :: "json \<Rightarrow> json list option" where
  "as_array (JArr xs) = Some xs"
| "as_array _ = None"

fun as_object :: "json \<Rightarrow> (string \<times> json) list option" where
  "as_object (JObj kvs) = Some kvs"
| "as_object _ = None"

fun as_i64 :: "json \<Rightarrow> int option" where
  "as_i64 (JNum n) = (if - (2 ^ 63) \<le> n \<and> n < 2 ^ 63 then Some n else None)"
| "as_i64 _ = None"

definition array_or_empty :: "json \<Rightarrow> json list" where
  "array_or_empty v = (case as_array v of Some xs \<Rightarrow> xs | None \<Rightarrow> [])"

text \<open>\<open>chars()\<close>: a character is a byte and the continuation bytes behind it.\<close>

definition is_cont :: "char \<Rightarrow> bool" where
  "is_cont c \<longleftrightarrow> 128 \<le> (of_char c :: nat) \<and> (of_char c :: nat) < 192"

function utf8_chars :: "string \<Rightarrow> string list" where
  "utf8_chars [] = []"
| "utf8_chars (c # cs) = (c # takeWhile is_cont cs) # utf8_chars (dropWhile is_cont cs)"
  by pat_completeness auto
termination by (relation "measure length") (auto simp: less_Suc_eq_le length_dropWhile_le)

text \<open>
  \<open>trim\<close> takes the characters with the property \<open>White_Space\<close> of Unicode off both ends, \<open>U+0009\<close> to \<open>U+000D\<close>, \<open>U+0020\<close>, \<open>U+0085\<close>, \<open>U+00A0\<close>, \<open>U+1680\<close>,
  \<open>U+2000\<close> to \<open>U+200A\<close>, \<open>U+2028\<close>, \<open>U+2029\<close>, \<open>U+202F\<close>, \<open>U+205F\<close> and \<open>U+3000\<close>, here by their bytes. Then \<open>strip_prefix\<close> and the parsing of an
  unsigned number; a leading plus is allowed.
\<close>

definition is_space :: "string \<Rightarrow> bool" where
  "is_space c = (case map of_char c :: nat list of
     [n] \<Rightarrow> 9 \<le> n \<and> n \<le> 13 \<or> n = 32
   | [a, n] \<Rightarrow> a = 194 \<and> (n = 133 \<or> n = 160)
   | [a, b, n] \<Rightarrow> a = 225 \<and> b = 154 \<and> n = 128
       \<or> a = 226 \<and> b = 128 \<and> (128 \<le> n \<and> n \<le> 138 \<or> n = 168 \<or> n = 169 \<or> n = 175)
       \<or> a = 226 \<and> b = 129 \<and> n = 159 \<or> a = 227 \<and> b = 128 \<and> n = 128
   | _ \<Rightarrow> False)"

definition trim :: "string \<Rightarrow> string" where
  "trim s = concat (rev (dropWhile is_space (rev (dropWhile is_space (utf8_chars s)))))"

definition strip_prefix :: "string \<Rightarrow> string \<Rightarrow> string option" where
  "strip_prefix p s = (if take (length p) s = p then Some (drop (length p) s) else None)"

definition digit :: "nat \<Rightarrow> char \<Rightarrow> nat option" where
  "digit radix c =
     (let n = (of_char c :: nat);
          d = (if 48 \<le> n \<and> n \<le> 57 then n - 48 else if 97 \<le> n \<and> n \<le> 122 then n - 87
               else if 65 \<le> n \<and> n \<le> 90 then n - 55 else radix)
      in if d < radix then Some d else None)"

fun digits_value :: "nat \<Rightarrow> nat \<Rightarrow> string \<Rightarrow> nat option" where
  "digits_value radix acc [] = Some acc"
| "digits_value radix acc (c # cs) = (case digit radix c of None \<Rightarrow> None
     | Some d \<Rightarrow> let v = acc * radix + d in if v < 2 ^ 64 then digits_value radix v cs else None)"

definition parse_uint :: "nat \<Rightarrow> string \<Rightarrow> nat option" where
  "parse_uint radix s =
     (case s of [] \<Rightarrow> None
      | c # cs \<Rightarrow> if c = CHR ''+'' then (if cs = [] then None else digits_value radix 0 cs) else digits_value radix 0 s)"

fun as_u64 :: "json \<Rightarrow> nat option" where
  "as_u64 (JNum n) = (if 0 \<le> n \<and> n < 2 ^ 64 then Some (nat n) else None)"
| "as_u64 (JStr s) =
     (let s = trim s in
      case (case strip_prefix ''0x'' s of Some h \<Rightarrow> Some h | None \<Rightarrow> strip_prefix ''0X'' s) of
        Some h \<Rightarrow> parse_uint 16 h
      | None \<Rightarrow> parse_uint 10 s)"
| "as_u64 _ = None"

definition resolve_int :: "json \<Rightarrow> string \<Rightarrow> nat option" where
  "resolve_int v target = (case as_u64 v of Some u \<Rightarrow> Some u
     | None \<Rightarrow> (case get v target of None \<Rightarrow> None | Some x \<Rightarrow> as_u64 x))"

definition resolve_str :: "json \<Rightarrow> string \<Rightarrow> string option" where
  "resolve_str v target = (case as_str v of Some s \<Rightarrow> Some s
     | None \<Rightarrow> (case get v target of None \<Rightarrow> None | Some x \<Rightarrow> as_str x))"

section \<open>The reference name\<close>

fun tool_fnv1a_64 :: "u64 \<Rightarrow> string \<Rightarrow> u64" where
  "tool_fnv1a_64 h [] = h"
| "tool_fnv1a_64 h (b # bs) = tool_fnv1a_64 ((h XOR of_char b) * 0x100000001b3) bs"

text \<open>\<open>{:016x}\<close>\<close>

function hex_digits :: "nat \<Rightarrow> string" where
  "hex_digits n = (if n < 16 then [DIGITS ! n] else hex_digits (n div 16) @ [DIGITS ! (n mod 16)])"
  by pat_completeness auto
termination by (relation "measure (\<lambda>n. n)") auto

declare hex_digits.simps [simp del]

definition fmt_016x :: "u64 \<Rightarrow> string" where
  "fmt_016x h = (let d = hex_digits (unat h) in replicate (16 - length d) (CHR ''0'') @ d)"

definition tool_make_shm_name :: "string \<Rightarrow> nat \<Rightarrow> string" where
  "tool_make_shm_name name shm_name_max =
     (let result = with_slash name in
      if shm_name_max = 0 \<or> length result \<le> shm_name_max then result
      else let hash = tool_fnv1a_64 0xcbf29ce484222325 result;
               prefix_len = (if 17 + 1 < shm_name_max then shm_name_max - 17 - 1 else 0);
               body = concat (take prefix_len (drop 1 (utf8_chars result)))
           in ''/'' @ body @ ''_'' @ fmt_016x hash)"

text \<open>\<open>str::replace\<close>, for a pattern that is not empty.\<close>

function replace :: "string \<Rightarrow> string \<Rightarrow> string \<Rightarrow> string" where
  "replace p r [] = []"
| "replace p r (c # cs) =
     (if p \<noteq> [] \<and> take (length p) (c # cs) = p then r @ replace p r (drop (length p - 1) cs) else c # replace p r cs)"
  by pat_completeness auto
termination by (relation "measure (\<lambda>(p, r, s). length s)") auto

section \<open>Names and structs are checked\<close>

definition constant_of :: "json \<Rightarrow> string \<Rightarrow> json option option" where
  "constant_of abi n = (case as_array (idx abi ''constants'') of None \<Rightarrow> None
     | Some cs \<Rightarrow> Some (List.find (\<lambda>c. idx c ''name'' = JStr n) cs))"

definition constant_int :: "json \<Rightarrow> string \<Rightarrow> string \<Rightarrow> nat option" where
  "constant_int abi n target = do { c \<leftarrow> constant_of abi n; v \<leftarrow> c; resolve_int (idx v ''value'') target }"

definition constant_str :: "json \<Rightarrow> string \<Rightarrow> string option" where
  "constant_str abi n = do { c \<leftarrow> constant_of abi n; v \<leftarrow> c; as_str (idx v ''value'') }"

definition target_info :: "json \<Rightarrow> string \<Rightarrow> json" where
  "target_info abi target = idx (idx abi ''targets'') target"

definition subst :: "nat \<Rightarrow> nat \<Rightarrow> string \<Rightarrow> string \<Rightarrow> string" where
  "subst dlen align_size notify_hash t =
     replace ''{notify_hash}'' notify_hash (replace ''{chunk_size}'' ''1024''
       (replace ''{align_size}'' (dec align_size) (replace ''{data_length}'' (dec dlen)
         (replace ''{name}'' ''xchan'' (replace ''{prefix}'' [] t)))))"

text \<open>What one entry of \<open>names\<close> adds to the mismatches.\<close>

definition check_name ::
  "(string \<Rightarrow> string) \<Rightarrow> nat \<Rightarrow> string \<Rightarrow> (string \<times> json) list \<Rightarrow> json \<Rightarrow> nat option" where
  "check_name sub shm_name_max target dumped n = do {
     name \<leftarrow> as_str (idx n ''name'');
     (case (case get n ''golden'' of None \<Rightarrow> None | Some g \<Rightarrow> resolve_str g target) of
        None \<Rightarrow> Some 0
      | Some golden \<Rightarrow> do {
          template \<leftarrow> as_str (idx n ''template'');
          let a = (if sub template = golden then 0 else 1 :: nat);
          let b = (case map_of dumped (''name:'' @ name) of
                     Some (JStr cpp) \<Rightarrow> (if cpp = golden then 0 else 1 :: nat) | _ \<Rightarrow> 0);
          let c = (case (case get n ''posix_golden'' of None \<Rightarrow> None | Some g \<Rightarrow> resolve_str g target) of
                     None \<Rightarrow> 0 | Some pg \<Rightarrow> (if tool_make_shm_name golden shm_name_max = pg then 0 else 1 :: nat));
          Some (a + b + c)
        })
   }"

fun sum_opt :: "nat option list \<Rightarrow> nat option" where
  "sum_opt [] = Some 0"
| "sum_opt (x # xs) = do { a \<leftarrow> x; b \<leftarrow> sum_opt xs; Some (a + b) }"

definition notify_id :: string where "notify_id = ''__THOTH_SHM__NOTIFY__xchan''"

definition check_naming :: "json \<Rightarrow> string \<Rightarrow> (string \<times> json) list \<Rightarrow> bool option" where
  "check_naming abi target dumped = do {
     dlen \<leftarrow> constant_int abi ''data_length'' target;
     align_size \<leftarrow> resolve_int (idx (target_info abi target) ''align_size'') target;
     let shm_name_max = (case resolve_int (idx (target_info abi target) ''shm_name_max'') target of Some m \<Rightarrow> m | None \<Rightarrow> 0);
     notify_hash \<leftarrow> constant_str abi ''notify_hash_xchan'';
     bad \<leftarrow> sum_opt (map (check_name (subst dlen align_size notify_hash) shm_name_max target dumped)
              (array_or_empty (idx abi ''names'')));
     let computed = fmt_016x (tool_fnv1a_64 0xcbf29ce484222325 notify_id);
     Some (bad + (if computed = notify_hash then 0 else 1) = 0)
   }"

definition struct_target_list :: "json \<Rightarrow> string list option" where
  "struct_target_list s = map_option (\<lambda>a. List.map_filter as_str a) (as_array (idx s ''targets''))"

definition struct_on :: "json \<Rightarrow> string \<Rightarrow> bool" where
  "struct_on s target \<longleftrightarrow> (case struct_target_list s of None \<Rightarrow> True | Some l \<Rightarrow> target \<in> set l)"

definition struct_targets :: "json \<Rightarrow> string list \<Rightarrow> string list" where
  "struct_targets s ts = filter (struct_on s) ts"

definition each_field :: "json \<Rightarrow> json list" where
  "each_field s = array_or_empty (idx s ''fields'')"

text \<open>What has to resolve on every target of a struct.\<close>

definition struct_needs :: "json \<Rightarrow> json list" where
  "struct_needs s = [idx s ''size'', idx s ''align''] @ map (\<lambda>f. idx f ''offset'') (each_field s)"

definition struct_target_bad :: "string list \<Rightarrow> json \<Rightarrow> string \<Rightarrow> nat" where
  "struct_target_bad declared s t =
     (if t \<notin> set declared then 1 else length (filter (\<lambda>v. resolve_int v t = None) (struct_needs s)))"

definition check_struct_targets :: "json \<Rightarrow> bool option" where
  "check_struct_targets abi = do {
     kvs \<leftarrow> as_object (idx abi ''targets'');
     let declared = map fst kvs;
     let bad = sum_list (map (\<lambda>s. sum_list (map (struct_target_bad declared s)
                  (case struct_target_list s of Some l \<Rightarrow> l | None \<Rightarrow> declared)))
                (array_or_empty (idx abi ''structs'')));
     Some (bad = 0)
   }"

text \<open>The flat values that are compared with the ones the C++ program prints.\<close>

definition flat_values :: "json \<Rightarrow> string \<Rightarrow> (string \<times> nat) list" where
  "flat_values abi target =
     List.map_filter (\<lambda>c. do { n \<leftarrow> as_str (idx c ''name''); u \<leftarrow> resolve_int (idx c ''value'') target; Some (n, u) })
       (array_or_empty (idx abi ''constants''))
   @ List.map_filter (\<lambda>s. do { n \<leftarrow> as_str (idx s ''name''); u \<leftarrow> resolve_int (idx s ''size'') target; Some (n @ ''.size'', u) })
       (filter (\<lambda>s. struct_on s target) (array_or_empty (idx abi ''structs'')))"

definition offset_values :: "json \<Rightarrow> string \<Rightarrow> (string \<times> nat) list" where
  "offset_values abi target =
     concat (List.map_filter (\<lambda>s. do { n \<leftarrow> as_str (idx s ''name'');
         Some (List.map_filter (\<lambda>f. do { field \<leftarrow> as_str (idx f ''name''); u \<leftarrow> resolve_int (idx f ''offset'') target;
             Some (n @ ''.'' @ field, u) }) (each_field s)) })
       (filter (\<lambda>s. struct_on s target) (array_or_empty (idx abi ''structs''))))"

text \<open>A later value of a key replaces an earlier one.\<close>

definition value_of :: "json \<Rightarrow> string \<Rightarrow> string \<Rightarrow> nat option" where
  "value_of abi target k =
     (case map_of (rev (flat_values abi target)) k of Some u \<Rightarrow> Some u | None \<Rightarrow> map_of (rev (offset_values abi target)) k)"

definition mismatches :: "json \<Rightarrow> string \<Rightarrow> (string \<times> json) list \<Rightarrow> nat" where
  "mismatches abi target dumped =
     length (filter (\<lambda>(k, v). case as_u64 v of None \<Rightarrow> False
       | Some cpp \<Rightarrow> (case value_of abi target k of None \<Rightarrow> False | Some u \<Rightarrow> u \<noteq> cpp)) dumped)"

section \<open>The reference name is the name of the crate\<close>

lemma tool_fnv_foldl: "tool_fnv1a_64 h s = foldl (\<lambda>hash b. (hash XOR of_char b) * 0x100000001b3) h s"
  by (induction s arbitrary: h) simp_all

lemma tool_fnv_eq: "tool_fnv1a_64 0xcbf29ce484222325 s = fnv1a_64 s"
  by (simp add: tool_fnv_foldl fnv1a_64_def)

lemma hex_digits_small: "n < 16 \<Longrightarrow> hex_digits n = [DIGITS ! n]"
  by (simp add: hex_digits.simps)

lemma hex_digits_padded:
  "0 < k \<Longrightarrow> n < 16 ^ k \<Longrightarrow>
   replicate (k - length (hex_digits n)) (CHR ''0'') @ hex_digits n = map (\<lambda>i. DIGITS ! (n div 16 ^ (k - 1 - i) mod 16)) [0..<k]"
proof (induction k arbitrary: n)
  case (Suc k)
  show ?case
  proof (cases k)
    case 0
    then show ?thesis using Suc.prems by (simp add: hex_digits_small)
  next
    case (Suc k')
    have less: "n div 16 < 16 ^ k" using Suc.prems(2) by (simp add: less_mult_imp_div_less)
    have "replicate (Suc k - length (hex_digits n)) (CHR ''0'') @ hex_digits n
        = (replicate (k - length (hex_digits (n div 16))) (CHR ''0'') @ hex_digits (n div 16)) @ [DIGITS ! (n mod 16)]"
    proof (cases "n < 16")
      case True
      have "DIGITS ! 0 = CHR ''0''" by (simp add: DIGITS_def)
      then show ?thesis using True Suc by (simp add: hex_digits_small replicate_append_same)
    next
      case False
      then have "hex_digits n = hex_digits (n div 16) @ [DIGITS ! (n mod 16)]" by (subst hex_digits.simps) simp
      then show ?thesis by simp
    qed
    also have "\<dots> = map (\<lambda>i. DIGITS ! (n div 16 div 16 ^ (k - 1 - i) mod 16)) [0..<k] @ [DIGITS ! (n mod 16)]"
      using Suc.IH [of "n div 16"] less Suc by simp
    also have "map (\<lambda>i. DIGITS ! (n div 16 div 16 ^ (k - 1 - i) mod 16)) [0..<k]
        = map (\<lambda>i. DIGITS ! (n div 16 ^ (Suc k - 1 - i) mod 16)) [0..<k]"
    proof (rule map_cong [OF refl])
      fix i assume "i \<in> set [0..<k]"
      then have "Suc k - 1 - i = Suc (k - 1 - i)" by auto
      then show "DIGITS ! (n div 16 div 16 ^ (k - 1 - i) mod 16) = DIGITS ! (n div 16 ^ (Suc k - 1 - i) mod 16)"
        by (simp only: power_Suc div_mult2_eq)
    qed
    finally show ?thesis by simp
  qed
qed simp

lemma fmt_016x_eq [code]: "fmt_016x h = to_hex h"
proof -
  have less: "unat h < 2 ^ 64" using unsigned_less [of h, where ?'a = nat] by simp
  then have "unat h < 16 ^ 16" by simp
  moreover have "unat (drop_bit (4 * (15 - i)) h AND 0xf) = unat h div 16 ^ (16 - 1 - i) mod 16" if "i \<in> set [0..<16]" for i
  proof -
    have "unat (drop_bit (4 * (15 - i)) h AND 0xf) = unat (take_bit 4 (drop_bit (4 * (15 - i)) h))"
      by (simp add: nibble_mask take_bit_eq_mask)
    also have "\<dots> = take_bit 4 (drop_bit (4 * (15 - i)) (take_bit LENGTH(64) (unat h)))"
      by (simp only: unsigned_take_bit_eq unsigned_drop_bit_eq)
    also have "\<dots> = unat h div 2 ^ (4 * (15 - i)) mod 2 ^ 4"
      using less by (simp add: take_bit_nat_eq_self take_bit_eq_mod drop_bit_eq_div)
    also have "\<dots> = unat h div 16 ^ (16 - 1 - i) mod 16" by (simp add: power_mult)
    finally show ?thesis .
  qed
  ultimately show ?thesis
    using hex_digits_padded [of 16 "unat h"] by (simp add: fmt_016x_def to_hex_eq Let_def)
qed

definition ascii :: "string \<Rightarrow> bool" where
  "ascii s \<longleftrightarrow> list_all (\<lambda>c. (of_char c :: nat) < 128) s"

lemma utf8_chars_ascii: "ascii s \<Longrightarrow> utf8_chars s = map (\<lambda>c. [c]) s"
proof (induction s)
  case (Cons c cs)
  have "takeWhile is_cont cs = [] \<and> dropWhile is_cont cs = cs"
    using Cons.prems by (cases cs) (auto simp: ascii_def is_cont_def)
  then show ?case using Cons by (simp add: ascii_def)
qed simp

lemma concat_singles: "concat (map (\<lambda>c. [c]) s) = s"
  by (induction s) simp_all

lemma with_slash_ascii: "ascii name \<Longrightarrow> ascii (with_slash name)"
  by (auto simp: ascii_def with_slash_def split: list.splits)

lemma boundary_ascii:
  assumes "ascii s" "i \<le> length s"
  shows "is_char_boundary s i"
proof (cases "i < length s")
  case True
  then have "(of_char (s ! i) :: nat) < 128" using assms(1) by (simp add: ascii_def list_all_length)
  then show ?thesis using True by (simp add: is_char_boundary_def)
qed (use assms(2) in \<open>simp add: is_char_boundary_def\<close>)

lemma str_slice_ascii: "ascii s \<Longrightarrow> i \<le> j \<Longrightarrow> j \<le> length s \<Longrightarrow> str_slice i j s = Inr (take (j - i) (drop i s))"
  by (simp add: str_slice_def boundary_ascii)

lemma tool_name_eq:
  assumes "ascii name"
  shows "make_shm_name m name = Inr (tool_make_shm_name name m)"
proof -
  obtain b where b: "with_slash name = CHR ''/'' # b" using hd_with_slash by blast
  have asc: "ascii (CHR ''/'' # b)" "ascii b" using with_slash_ascii [OF assms] b by (simp_all add: ascii_def)
  have "concat (take k (drop 1 (utf8_chars (CHR ''/'' # b)))) = take k b" for k
    unfolding utf8_chars_ascii [OF asc(1)] by (simp add: take_map concat_singles)
  moreover have "str_slice 1 (length (CHR ''/'' # b)) (CHR ''/'' # b) = Inr b"
    using str_slice_ascii [OF asc(1), of 1 "length (CHR ''/'' # b)"] by simp
  moreover have "str_slice 0 (min k (length b)) b = Inr (take k b)" for k
    using str_slice_ascii [OF asc(2), of 0 "min k (length b)"] by (simp add: min_def)
  ultimately show ?thesis
    unfolding make_shm_name_def tool_make_shm_name_def b Let_def HASH_SUFFIX_LEN_def fmt_016x_eq tool_fnv_eq by simp
qed

lemma sum_opt_zero: "sum_opt xs = Some 0 \<Longrightarrow> x \<in> set xs \<Longrightarrow> x = Some 0"
  by (induction xs) (auto simp: bind_eq_Some_conv)


definition sample_ring_name :: json where
  "sample_ring_name = JObj [(''name'', JStr ''ring''),
     (''template'', JStr ''{prefix}__THOTH_SHM__QU_CONN__{name}__{data_length}__{align_size}''),
     (''golden'', JObj [(''apple_arm64'', JStr ''__THOTH_SHM__QU_CONN__xchan__64__8''), (''x86_64'', JStr ''__THOTH_SHM__QU_CONN__xchan__64__16'')]),
     (''posix_golden'', JObj [(''apple_arm64'', JStr ''/__THOTH_SHM___7d090bf7fa85c547''), (''x86_64'', JStr ''/__THOTH_SHM__QU_CONN__xchan__64__16'')])]"

definition sample_targets :: json where
  "sample_targets = JObj [(''apple_arm64'', JObj [(''align_size'', JNum 8), (''shm_name_max'', JNum 31)]),
     (''x86_64'', JObj [(''align_size'', JNum 16), (''shm_name_max'', JNum 0)])]"

definition sample_data_length :: json where
  "sample_data_length = JObj [(''name'', JStr ''data_length''), (''type'', JStr ''usize''), (''value'', JNum 64)]"

definition sample_notify_hash :: json where
  "sample_notify_hash = JObj [(''name'', JStr ''notify_hash_xchan''), (''type'', JStr ''string''),
     (''value'', JStr (to_hex (fnv1a_64 notify_id)))]"

definition sample_abi :: json where
  "sample_abi = JObj [(''version'', JStr ''1.3.0''), (''targets'', sample_targets),
     (''constants'', JArr [sample_data_length, sample_notify_hash,
        JObj [(''name'', JStr ''chunk_header_size''), (''type'', JStr ''usize''), (''value'', JObj [(''apple_arm64'', JNum 8), (''x86_64'', JNum 16)])]]),
     (''enums'', JArr [JObj [(''name'', JStr ''kind''), (''type'', JStr ''u8''), (''values'', JArr [JObj [(''name'', JStr ''one''), (''value'', JNum 1)]])]]),
     (''structs'', JArr [JObj [(''name'', JStr ''msg''), (''size'', JObj [(''apple_arm64'', JNum 80), (''x86_64'', JNum 96)]),
        (''align'', JNum 8), (''fields'', JArr [JObj [(''name'', JStr ''cc''), (''offset'', JNum 0), (''type'', JStr ''u32'')]])]]),
     (''names'', JArr [sample_ring_name])]"


end
