(* ===== verification/Abi_Generate.thy ===== *)
theory Abi_Generate
  imports Abi_Tool
begin

text \<open>
  The generators of \<open>tools/abi\<close>: the modules of the Rust, Zig, Swift and C++ ports and the protocol listing as texts built from \<open>abi.json\<close>, the schema
  the document is validated against, and the command line. \<open>None\<close> is a panic. Given is when the generators panic and what the generated conditionals
  select.
\<close>

section \<open>What the generators share\<close>

definition nl :: string where "nl = [CHR 0x0A]"
definition dq :: string where "dq = [CHR 0x22]"

text \<open>The dash of the generated comments, in UTF-8.\<close>

definition dash :: string where "dash = [CHR 0xE2, CHR 0x80, CHR 0x94]"

definition quoted :: "string \<Rightarrow> string" where
  "quoted s = dq @ s @ dq"

text \<open>\<open>{:?}\<close> of a string, whose bytes above ASCII belong to printable characters.\<close>

definition debug_char :: "char \<Rightarrow> string" where
  "debug_char c =
     (let n = (of_char c :: nat) in
      if n = 0 then [CHR 0x5C, CHR ''0''] else if n = 9 then [CHR 0x5C, CHR ''t''] else if n = 10 then [CHR 0x5C, CHR ''n'']
      else if n = 13 then [CHR 0x5C, CHR ''r''] else if n = 34 then [CHR 0x5C, CHR 0x22] else if n = 92 then [CHR 0x5C, CHR 0x5C]
      else if n < 32 \<or> n = 127 then [CHR 0x5C] @ ''u{'' @ hex_digits n @ ''}'' else [c])"

definition debug_str :: "string \<Rightarrow> string" where
  "debug_str s = quoted (concat (map debug_char s))"

definition int_str :: "int \<Rightarrow> string" where
  "int_str n = (if n < 0 then ''-'' @ dec (nat (- n)) else dec (nat n))"

fun join :: "string \<Rightarrow> string list \<Rightarrow> string" where
  "join sep [] = []"
| "join sep [x] = x"
| "join sep (x # xs) = x @ sep @ join sep xs"

text \<open>The loops that append to the output.\<close>

fun for_each :: "('a \<Rightarrow> string \<Rightarrow> string option) \<Rightarrow> 'a list \<Rightarrow> string \<Rightarrow> string option" where
  "for_each f [] o1 = Some o1"
| "for_each f (x # xs) o1 = (case f x o1 of None \<Rightarrow> None | Some o2 \<Rightarrow> for_each f xs o2)"

definition apple :: string where "apple = ''apple_arm64''"

definition targets :: "json \<Rightarrow> string list option" where
  "targets abi = map_option (\<lambda>kvs. sort_key (\<lambda>t. (t \<noteq> apple, t)) (map fst kvs)) (as_object (idx abi ''targets''))"

definition zig_num :: "json \<Rightarrow> string \<Rightarrow> string option" where
  "zig_num v target = (case v of JStr s \<Rightarrow> Some s | JNum n \<Rightarrow> Some (int_str n)
     | JObj _ \<Rightarrow> map_option dec (resolve_int v target) | _ \<Rightarrow> None)"

definition int_of :: "json \<Rightarrow> string \<Rightarrow> string option" where
  "int_of v t = map_option dec (resolve_int v t)"

definition golden_of :: "json \<Rightarrow> string \<Rightarrow> string option" where
  "golden_of v t = map_option debug_str (resolve_str v t)"

definition protocol_note :: "string \<Rightarrow> string \<Rightarrow> string" where
  "protocol_note cmt probe =
     cmt @ '' protocol: exercised by the `'' @ probe @ ''` conformance probe (byte-for-byte across ports)''"

definition struct_scope_note :: "string \<Rightarrow> json \<Rightarrow> string option option" where
  "struct_scope_note cmt s = (case struct_target_list s of None \<Rightarrow> Some None
     | Some l \<Rightarrow> map_option (\<lambda>name. Some (cmt @ '' '' @ name @ '': a layout of target '' @ join '', '' l
         @ '' only (abi.json `targets`); emitted for every build'')) (as_str (idx s ''name'')))"

definition gen_header :: "string \<Rightarrow> string \<Rightarrow> string \<Rightarrow> string" where
  "gen_header lang target cmt =
     cmt @ '' SPDX-License-Identifier: Apache-2.0 WITH LLVM-exception OR MIT'' @ nl
   @ cmt @ '' SPDX-FileCopyrightText: 2025-2026 natyamatsya and thoth-ipc contributors'' @ nl @ cmt @ nl
   @ cmt @ '' @generated by `tools/abi` from abi/abi.json '' @ dash @ '' DO NOT EDIT.'' @ nl
   @ cmt @ '' Regenerate: cargo run --manifest-path tools/abi/Cargo.toml -- generate --lang '' @ lang @ nl
   @ cmt @ '' Target: '' @ target @ ''.'' @ nl"

definition doc_line :: "string \<Rightarrow> json \<Rightarrow> string" where
  "doc_line start v = (case as_str (idx v ''description'') of Some d \<Rightarrow> start @ ''/// '' @ d @ nl | None \<Rightarrow> [])"

text \<open>
  Whether a value is rendered the same on all targets; it is only rendered as far as that takes. \<open>ts[0]\<close> of no targets is a panic. The
  first target that is not the align-8 one stands for all others.
\<close>

fun all_same :: "(string \<Rightarrow> string option) \<Rightarrow> string \<Rightarrow> string list \<Rightarrow> bool option" where
  "all_same render t0 [] = Some True"
| "all_same render t0 (t # ts) =
     (case render t of None \<Rightarrow> None | Some a \<Rightarrow>
        (case render t0 of None \<Rightarrow> None | Some b \<Rightarrow> if a = b then all_same render t0 ts else Some False))"

definition uniform :: "string list \<Rightarrow> (string \<Rightarrow> string option) \<Rightarrow> (bool \<times> string) option" where
  "uniform ts render = (case ts of [] \<Rightarrow> None
     | t0 # _ \<Rightarrow> (case all_same render t0 ts of None \<Rightarrow> None | Some same \<Rightarrow> Some (same, t0)))"

text \<open>The two values of a conditional over the align classes.\<close>

definition two_classes :: "string list \<Rightarrow> (string \<Rightarrow> string option) \<Rightarrow> (string \<times> string) option" where
  "two_classes ts render = do {
     other \<leftarrow> List.find (\<lambda>t. t \<noteq> apple) ts;
     a \<leftarrow> render apple;
     b \<leftarrow> render other;
     Some (a, b)
   }"

definition scalar_types :: "string list" where
  "scalar_types = [''u8'', ''u16'', ''u32'', ''u64'', ''i32'', ''usize'']"

section \<open>Rust\<close>

definition rust_type :: "string \<Rightarrow> string option" where
  "rust_type t = (if t \<in> set scalar_types then Some t else None)"

definition align8_cfg :: string where
  "align8_cfg = ''any(all(target_arch = '' @ quoted ''aarch64'' @ '', target_vendor = '' @ quoted ''apple''
     @ ''), target_env = '' @ quoted ''msvc'' @ '')''"

definition rust_cfg :: "string \<Rightarrow> string" where
  "rust_cfg target = (if target = apple then ''#[cfg('' @ align8_cfg @ '')]'' else ''#[cfg(not('' @ align8_cfg @ ''))]'')"

definition emit_rust :: "string \<Rightarrow> string list \<Rightarrow> (string \<Rightarrow> string option) \<Rightarrow> string \<Rightarrow> string option" where
  "emit_rust lhs ts render o1 = do {
     (same, t0) \<leftarrow> uniform ts render;
     if same then do { v \<leftarrow> render t0; Some (o1 @ lhs @ '' = '' @ v @ '';'' @ nl) }
     else for_each (\<lambda>t o2. do { v \<leftarrow> render t; Some (o2 @ rust_cfg t @ nl @ lhs @ '' = '' @ v @ '';'' @ nl) }) ts o1
   }"

definition rust_constant :: "string list \<Rightarrow> json \<Rightarrow> string \<Rightarrow> string option" where
  "rust_constant ts c o1 = do {
     name \<leftarrow> as_str (idx c ''name'');
     ty \<leftarrow> as_str (idx c ''type'');
     let o2 = o1 @ doc_line [] c;
     if ty = ''string'' then do {
       v \<leftarrow> as_str (idx c ''value'');
       Some (o2 @ ''pub const '' @ name @ '': &str = '' @ quoted v @ '';'' @ nl)
     } else do {
       rt \<leftarrow> rust_type ty;
       emit_rust (''pub const '' @ name @ '': '' @ rt) ts (zig_num (idx c ''value'')) o2
     }
   }"

definition enum_value :: "string \<Rightarrow> string \<Rightarrow> json \<Rightarrow> string \<Rightarrow> string option" where
  "enum_value start stop v o1 = do {
     name \<leftarrow> as_str (idx v ''name'');
     n \<leftarrow> as_i64 (idx v ''value'');
     Some (o1 @ start @ name @ '' = '' @ int_str n @ stop @ nl)
   }"

definition rust_enum :: "json \<Rightarrow> string \<Rightarrow> string option" where
  "rust_enum e o1 = do {
     name \<leftarrow> as_str (idx e ''name'');
     ty \<leftarrow> as_str (idx e ''type'');
     rt \<leftarrow> rust_type ty;
     vs \<leftarrow> as_array (idx e ''values'');
     o2 \<leftarrow> for_each (enum_value ''    '' '','') vs
       (o1 @ doc_line [] e @ ''#[repr('' @ rt @ '')]'' @ nl @ ''pub enum '' @ name @ '' {'' @ nl);
     Some (o2 @ ''}'' @ nl)
   }"

definition rust_field :: "string \<Rightarrow> string list \<Rightarrow> json \<Rightarrow> string \<Rightarrow> string option" where
  "rust_field name sts f o1 = do {
     fname \<leftarrow> as_str (idx f ''name'');
     let o2 = o1 @ (case as_str (idx f ''protocol'') of Some p \<Rightarrow> protocol_note ''///'' p @ nl | None \<Rightarrow> []);
     emit_rust (''pub const '' @ name @ ''_'' @ fname @ ''_off: usize'') sts (int_of (idx f ''offset'')) o2
   }"

definition rust_struct :: "string list \<Rightarrow> json \<Rightarrow> string \<Rightarrow> string option" where
  "rust_struct ts s o1 = do {
     name \<leftarrow> as_str (idx s ''name'');
     let sts = struct_targets s ts;
     note \<leftarrow> struct_scope_note ''//'' s;
     let o2 = o1 @ (case note of Some n \<Rightarrow> n @ nl | None \<Rightarrow> []);
     o3 \<leftarrow> emit_rust (''pub const '' @ name @ ''_size: usize'') sts (int_of (idx s ''size'')) o2;
     o4 \<leftarrow> emit_rust (''pub const '' @ name @ ''_align: usize'') sts (int_of (idx s ''align'')) o3;
     for_each (rust_field name sts) (each_field s) o4
   }"

definition rust_name :: "string list \<Rightarrow> json \<Rightarrow> string \<Rightarrow> string option" where
  "rust_name ts n o1 = do {
     nm \<leftarrow> as_str (idx n ''name'');
     o2 \<leftarrow> (case get n ''golden'' of None \<Rightarrow> Some o1
       | Some g \<Rightarrow> emit_rust (''pub const name_golden_'' @ nm @ '': &str'') ts (golden_of g) o1);
     (case get n ''posix_golden'' of None \<Rightarrow> Some o2
       | Some g \<Rightarrow> emit_rust (''pub const name_golden_'' @ nm @ ''_posix: &str'') ts (golden_of g) o2)
   }"

definition gen_rust :: "json \<Rightarrow> string option" where
  "gen_rust abi = do {
     ts \<leftarrow> targets abi;
     version \<leftarrow> as_str (idx abi ''version'');
     let o1 = gen_header ''rust'' (join '' / '' ts) ''//''
       @ ''#![allow(non_upper_case_globals, non_camel_case_types, dead_code)]'' @ nl @ nl
       @ ''pub const abi_version: &str = '' @ quoted version @ '';'' @ nl @ nl;
     cs \<leftarrow> as_array (idx abi ''constants'');
     o2 \<leftarrow> for_each (rust_constant ts) cs (o1 @ ''// --- constants ---'' @ nl);
     o3 \<leftarrow> for_each rust_enum (array_or_empty (idx abi ''enums'')) (o2 @ nl @ ''// --- enums ---'' @ nl);
     ss \<leftarrow> as_array (idx abi ''structs'');
     o4 \<leftarrow> for_each (rust_struct ts) ss (o3 @ nl @ ''// --- struct layout (byte sizes + field offsets) ---'' @ nl);
     for_each (rust_name ts) (array_or_empty (idx abi ''names''))
       (o4 @ nl @ ''// --- shm-name goldens (canonical binding '' @ dash @ '' see abi/README.md) ---'' @ nl)
   }"

section \<open>Zig\<close>

definition zig_int_type :: "string \<Rightarrow> string option" where
  "zig_int_type t = (if t \<in> set scalar_types then Some t else None)"

definition ZIG_ALIGN8 :: string where "ZIG_ALIGN8 = ''align8_target''"

definition emit_zig :: "string \<Rightarrow> string list \<Rightarrow> (string \<Rightarrow> string option) \<Rightarrow> string \<Rightarrow> string option" where
  "emit_zig lhs ts render o1 = do {
     (same, t0) \<leftarrow> uniform ts render;
     if same then do { v \<leftarrow> render t0; Some (o1 @ lhs @ '' = '' @ v @ '';'' @ nl) }
     else do {
       (a, b) \<leftarrow> two_classes ts render;
       Some (o1 @ lhs @ '' = if ('' @ ZIG_ALIGN8 @ '') '' @ a @ '' else '' @ b @ '';'' @ nl)
     }
   }"

definition zig_constant :: "string list \<Rightarrow> json \<Rightarrow> string \<Rightarrow> string option" where
  "zig_constant ts c o1 = do {
     name \<leftarrow> as_str (idx c ''name'');
     ty \<leftarrow> as_str (idx c ''type'');
     let o2 = o1 @ doc_line [] c;
     if ty = ''string'' then do {
       v \<leftarrow> as_str (idx c ''value'');
       Some (o2 @ ''pub const '' @ name @ '': []const u8 = '' @ quoted v @ '';'' @ nl)
     } else do {
       zt \<leftarrow> zig_int_type ty;
       emit_zig (''pub const '' @ name @ '': '' @ zt) ts (zig_num (idx c ''value'')) o2
     }
   }"

definition zig_enum :: "json \<Rightarrow> string \<Rightarrow> string option" where
  "zig_enum e o1 = do {
     name \<leftarrow> as_str (idx e ''name'');
     ty \<leftarrow> as_str (idx e ''type'');
     zt \<leftarrow> zig_int_type ty;
     vs \<leftarrow> as_array (idx e ''values'');
     o2 \<leftarrow> for_each (enum_value ''    '' '','') vs (o1 @ doc_line [] e @ ''pub const '' @ name @ '' = enum('' @ zt @ '') {'' @ nl);
     Some (o2 @ ''};'' @ nl)
   }"

definition zig_field :: "string \<Rightarrow> string list \<Rightarrow> json \<Rightarrow> string \<Rightarrow> string option" where
  "zig_field name sts f o1 = do {
     fname \<leftarrow> as_str (idx f ''name'');
     let o2 = o1 @ (case as_str (idx f ''protocol'') of Some p \<Rightarrow> protocol_note ''///'' p @ nl | None \<Rightarrow> []);
     emit_zig (''pub const '' @ name @ ''_'' @ fname @ ''_off: usize'') sts (int_of (idx f ''offset'')) o2
   }"

definition zig_struct :: "string list \<Rightarrow> json \<Rightarrow> string \<Rightarrow> string option" where
  "zig_struct ts s o1 = do {
     name \<leftarrow> as_str (idx s ''name'');
     let sts = struct_targets s ts;
     let o2 = o1 @ doc_line [] s;
     note \<leftarrow> struct_scope_note ''//'' s;
     let o3 = o2 @ (case note of Some n \<Rightarrow> n @ nl | None \<Rightarrow> []);
     o4 \<leftarrow> emit_zig (''pub const '' @ name @ ''_size: usize'') sts (int_of (idx s ''size'')) o3;
     o5 \<leftarrow> emit_zig (''pub const '' @ name @ ''_align: usize'') sts (int_of (idx s ''align'')) o4;
     for_each (zig_field name sts) (each_field s) o5
   }"

definition zig_name :: "string list \<Rightarrow> json \<Rightarrow> string \<Rightarrow> string option" where
  "zig_name ts n o1 = do {
     nm \<leftarrow> as_str (idx n ''name'');
     o2 \<leftarrow> (case get n ''golden'' of None \<Rightarrow> Some o1
       | Some g \<Rightarrow> emit_zig (''pub const name_golden_'' @ nm @ '': []const u8'') ts (golden_of g) o1);
     (case get n ''posix_golden'' of None \<Rightarrow> Some o2
       | Some g \<Rightarrow> emit_zig (''pub const name_golden_'' @ nm @ ''_posix: []const u8'') ts (golden_of g) o2)
   }"

definition gen_zig :: "json \<Rightarrow> string option" where
  "gen_zig abi = do {
     ts \<leftarrow> targets abi;
     version \<leftarrow> as_str (idx abi ''version'');
     let o1 = gen_header ''zig'' (join '' / '' ts) ''//'' @ nl
       @ ''const builtin = @import('' @ quoted ''builtin'' @ '');'' @ nl
       @ ''/// The align-8 ABI class (apple_arm64: alignof(max_align_t) == 8); every other'' @ nl
       @ ''/// target (x86_64, Linux aarch64) is align-16.'' @ nl
       @ ''const '' @ ZIG_ALIGN8 @ '' = builtin.cpu.arch == .aarch64 and builtin.os.tag.isDarwin();'' @ nl @ nl
       @ ''/// ABI contract version (semver; decoupled from the release version). Peers'' @ nl
       @ ''/// interoperate iff they share the same MAJOR. See abi/README.md#abi-versioning.'' @ nl
       @ ''pub const abi_version: []const u8 = '' @ quoted version @ '';'' @ nl @ nl;
     cs \<leftarrow> as_array (idx abi ''constants'');
     o2 \<leftarrow> for_each (zig_constant ts) cs (o1 @ ''// --- constants ---'' @ nl);
     o3 \<leftarrow> for_each zig_enum (array_or_empty (idx abi ''enums'')) (o2 @ nl @ ''// --- enums ---'' @ nl);
     ss \<leftarrow> as_array (idx abi ''structs'');
     o4 \<leftarrow> for_each (zig_struct ts) ss (o3 @ nl @ ''// --- struct layout (byte sizes + field offsets) ---'' @ nl);
     for_each (zig_name ts) (array_or_empty (idx abi ''names''))
       (o4 @ nl @ ''// --- shm-name goldens (canonical binding '' @ dash @ '' see abi/README.md) ---'' @ nl)
   }"

section \<open>Swift\<close>

definition swift_type :: "string \<Rightarrow> string option" where
  "swift_type t = map_of [(''u8'', ''UInt8''), (''u16'', ''UInt16''), (''u32'', ''UInt32''), (''u64'', ''UInt64''),
     (''i32'', ''Int32''), (''usize'', ''Int'')] t"

definition emit_swift :: "string \<Rightarrow> string list \<Rightarrow> (string \<Rightarrow> string option) \<Rightarrow> string \<Rightarrow> string option" where
  "emit_swift lhs ts render o1 = do {
     (same, t0) \<leftarrow> uniform ts render;
     if same then do { v \<leftarrow> render t0; Some (o1 @ ''    '' @ lhs @ '' = '' @ v @ nl) }
     else do {
       (a, b) \<leftarrow> two_classes ts render;
       Some (o1 @ ''    #if os(macOS) && arch(arm64)'' @ nl @ ''    '' @ lhs @ '' = '' @ a @ nl
         @ ''    #else'' @ nl @ ''    '' @ lhs @ '' = '' @ b @ nl @ ''    #endif'' @ nl)
     }
   }"

definition swift_constant :: "string list \<Rightarrow> json \<Rightarrow> string \<Rightarrow> string option" where
  "swift_constant ts c o1 = do {
     name \<leftarrow> as_str (idx c ''name'');
     ty \<leftarrow> as_str (idx c ''type'');
     let o2 = o1 @ doc_line ''    '' c;
     if ty = ''string'' then do {
       v \<leftarrow> as_str (idx c ''value'');
       Some (o2 @ ''    public static let '' @ name @ '': String = '' @ quoted v @ nl)
     } else do {
       st \<leftarrow> swift_type ty;
       emit_swift (''public static let '' @ name @ '': '' @ st) ts (zig_num (idx c ''value'')) o2
     }
   }"

definition swift_enum :: "json \<Rightarrow> string \<Rightarrow> string option" where
  "swift_enum e o1 = do {
     name \<leftarrow> as_str (idx e ''name'');
     ty \<leftarrow> as_str (idx e ''type'');
     st \<leftarrow> swift_type ty;
     vs \<leftarrow> as_array (idx e ''values'');
     o2 \<leftarrow> for_each (enum_value ''        case '' '''') vs
       (o1 @ doc_line ''    '' e @ ''    public enum '' @ name @ '': '' @ st @ '' {'' @ nl);
     Some (o2 @ ''    }'' @ nl)
   }"

definition swift_field :: "string \<Rightarrow> string list \<Rightarrow> json \<Rightarrow> string \<Rightarrow> string option" where
  "swift_field name sts f o1 = do {
     fname \<leftarrow> as_str (idx f ''name'');
     let o2 = o1 @ (case as_str (idx f ''protocol'') of Some p \<Rightarrow> ''    '' @ protocol_note ''///'' p @ nl | None \<Rightarrow> []);
     emit_swift (''public static let '' @ name @ ''_'' @ fname @ ''_off: Int'') sts (int_of (idx f ''offset'')) o2
   }"

definition swift_struct :: "string list \<Rightarrow> json \<Rightarrow> string \<Rightarrow> string option" where
  "swift_struct ts s o1 = do {
     name \<leftarrow> as_str (idx s ''name'');
     let sts = struct_targets s ts;
     note \<leftarrow> struct_scope_note ''    //'' s;
     let o2 = o1 @ (case note of Some n \<Rightarrow> n @ nl | None \<Rightarrow> []);
     o3 \<leftarrow> emit_swift (''public static let '' @ name @ ''_size: Int'') sts (int_of (idx s ''size'')) o2;
     o4 \<leftarrow> emit_swift (''public static let '' @ name @ ''_align: Int'') sts (int_of (idx s ''align'')) o3;
     for_each (swift_field name sts) (each_field s) o4
   }"

definition swift_name :: "string list \<Rightarrow> json \<Rightarrow> string \<Rightarrow> string option" where
  "swift_name ts n o1 = do {
     nm \<leftarrow> as_str (idx n ''name'');
     o2 \<leftarrow> (case get n ''golden'' of None \<Rightarrow> Some o1
       | Some g \<Rightarrow> emit_swift (''public static let name_golden_'' @ nm @ '': String'') ts (golden_of g) o1);
     (case get n ''posix_golden'' of None \<Rightarrow> Some o2
       | Some g \<Rightarrow> emit_swift (''public static let name_golden_'' @ nm @ ''_posix: String'') ts (golden_of g) o2)
   }"

definition gen_swift :: "json \<Rightarrow> string option" where
  "gen_swift abi = do {
     ts \<leftarrow> targets abi;
     version \<leftarrow> as_str (idx abi ''version'');
     let o1 = gen_header ''swift'' (join '' / '' ts) ''//'' @ nl @ ''public enum ABI {'' @ nl
       @ ''    public static let abi_version: String = '' @ quoted version @ nl @ nl;
     cs \<leftarrow> as_array (idx abi ''constants'');
     o2 \<leftarrow> for_each (swift_constant ts) cs (o1 @ ''    // MARK: constants'' @ nl);
     o3 \<leftarrow> for_each swift_enum (array_or_empty (idx abi ''enums'')) (o2 @ nl @ ''    // MARK: enums'' @ nl);
     ss \<leftarrow> as_array (idx abi ''structs'');
     o4 \<leftarrow> for_each (swift_struct ts) ss (o3 @ nl @ ''    // MARK: struct layout (byte sizes + field offsets)'' @ nl);
     o5 \<leftarrow> for_each (swift_name ts) (array_or_empty (idx abi ''names''))
       (o4 @ nl @ ''    // MARK: shm-name goldens (canonical binding '' @ dash @ '' see abi/README.md)'' @ nl);
     Some (o5 @ ''}'' @ nl)
   }"

section \<open>C++\<close>

definition cpp_type :: "string \<Rightarrow> string option" where
  "cpp_type t = map_of [(''u8'', ''std::uint8_t''), (''u16'', ''std::uint16_t''), (''u32'', ''std::uint32_t''),
     (''u64'', ''std::uint64_t''), (''i32'', ''std::int32_t''), (''usize'', ''std::size_t'')] t"

definition emit_cpp :: "string \<Rightarrow> string \<Rightarrow> string list \<Rightarrow> (string \<Rightarrow> string option) \<Rightarrow> string \<Rightarrow> string option" where
  "emit_cpp suf lhs ts render o1 = do {
     (same, t0) \<leftarrow> uniform ts render;
     if same then do { v \<leftarrow> render t0; Some (o1 @ lhs @ '' = '' @ v @ suf @ '';'' @ nl) }
     else do {
       (a, b) \<leftarrow> two_classes ts render;
       Some (o1 @ ''#if (defined(__APPLE__) && defined(__aarch64__)) || defined(_MSC_VER)'' @ nl
         @ lhs @ '' = '' @ a @ suf @ '';'' @ nl @ ''#else'' @ nl @ lhs @ '' = '' @ b @ suf @ '';'' @ nl @ ''#endif'' @ nl)
     }
   }"

definition cpp_constant :: "string list \<Rightarrow> json \<Rightarrow> string \<Rightarrow> string option" where
  "cpp_constant ts c o1 = do {
     name \<leftarrow> as_str (idx c ''name'');
     ty \<leftarrow> as_str (idx c ''type'');
     let o2 = o1 @ doc_line [] c;
     if ty = ''string'' then do {
       v \<leftarrow> as_str (idx c ''value'');
       Some (o2 @ ''inline constexpr const char* '' @ name @ '' = '' @ quoted v @ '';'' @ nl)
     } else do {
       ct \<leftarrow> cpp_type ty;
       emit_cpp (if ty = ''u64'' then ''ull'' else '''') (''inline constexpr '' @ ct @ '' '' @ name) ts (zig_num (idx c ''value'')) o2
     }
   }"

definition enum_part :: "json \<Rightarrow> string option" where
  "enum_part v = do {
     name \<leftarrow> as_str (idx v ''name'');
     n \<leftarrow> as_i64 (idx v ''value'');
     Some (name @ '' = '' @ int_str n)
   }"

definition cpp_enum :: "json \<Rightarrow> string \<Rightarrow> string option" where
  "cpp_enum e o1 = do {
     name \<leftarrow> as_str (idx e ''name'');
     ty \<leftarrow> as_str (idx e ''type'');
     ct \<leftarrow> cpp_type ty;
     vs \<leftarrow> as_array (idx e ''values'');
     parts \<leftarrow> those (map enum_part vs);
     Some (o1 @ doc_line [] e @ ''enum class '' @ name @ '' : '' @ ct @ '' { '' @ join '', '' parts @ '' };'' @ nl)
   }"

definition cpp_field :: "string \<Rightarrow> string list \<Rightarrow> json \<Rightarrow> string \<Rightarrow> string option" where
  "cpp_field name sts f o1 = do {
     fname \<leftarrow> as_str (idx f ''name'');
     let o2 = o1 @ (case as_str (idx f ''protocol'') of Some p \<Rightarrow> protocol_note ''//'' p @ nl | None \<Rightarrow> []);
     emit_cpp '''' (''inline constexpr std::size_t '' @ name @ ''_'' @ fname @ ''_off'') sts (int_of (idx f ''offset'')) o2
   }"

definition cpp_struct :: "string list \<Rightarrow> json \<Rightarrow> string \<Rightarrow> string option" where
  "cpp_struct ts s o1 = do {
     name \<leftarrow> as_str (idx s ''name'');
     let sts = struct_targets s ts;
     note \<leftarrow> struct_scope_note ''//'' s;
     let o2 = o1 @ (case note of Some n \<Rightarrow> n @ nl | None \<Rightarrow> []);
     o3 \<leftarrow> emit_cpp '''' (''inline constexpr std::size_t '' @ name @ ''_size'') sts (int_of (idx s ''size'')) o2;
     o4 \<leftarrow> emit_cpp '''' (''inline constexpr std::size_t '' @ name @ ''_align'') sts (int_of (idx s ''align'')) o3;
     for_each (cpp_field name sts) (each_field s) o4
   }"

definition cpp_name :: "string list \<Rightarrow> json \<Rightarrow> string \<Rightarrow> string option" where
  "cpp_name ts n o1 = do {
     nm \<leftarrow> as_str (idx n ''name'');
     o2 \<leftarrow> (case get n ''golden'' of None \<Rightarrow> Some o1
       | Some g \<Rightarrow> emit_cpp '''' (''inline constexpr const char* name_golden_'' @ nm) ts (golden_of g) o1);
     (case get n ''posix_golden'' of None \<Rightarrow> Some o2
       | Some g \<Rightarrow> emit_cpp '''' (''inline constexpr const char* name_golden_'' @ nm @ ''_posix'') ts (golden_of g) o2)
   }"

definition gen_cpp :: "json \<Rightarrow> string option" where
  "gen_cpp abi = do {
     ts \<leftarrow> targets abi;
     version \<leftarrow> as_str (idx abi ''version'');
     let o1 = gen_header ''cpp'' (join '' / '' ts) ''//'' @ nl @ ''#pragma once'' @ nl @ ''#include <cstddef>'' @ nl
       @ ''#include <cstdint>'' @ nl @ nl @ ''namespace thoth::abi {'' @ nl @ nl
       @ ''inline constexpr const char* abi_version = '' @ quoted version @ '';'' @ nl @ nl;
     cs \<leftarrow> as_array (idx abi ''constants'');
     o2 \<leftarrow> for_each (cpp_constant ts) cs (o1 @ ''// --- constants ---'' @ nl);
     o3 \<leftarrow> for_each cpp_enum (array_or_empty (idx abi ''enums'')) (o2 @ nl @ ''// --- enums ---'' @ nl);
     ss \<leftarrow> as_array (idx abi ''structs'');
     o4 \<leftarrow> for_each (cpp_struct ts) ss (o3 @ nl @ ''// --- struct layout (byte sizes + field offsets) ---'' @ nl);
     o5 \<leftarrow> for_each (cpp_name ts) (array_or_empty (idx abi ''names''))
       (o4 @ nl @ ''// --- shm-name goldens (canonical binding '' @ dash @ '' see abi/README.md) ---'' @ nl);
     Some (o5 @ nl @ ''} // namespace thoth::abi'' @ nl)
   }"

section \<open>The protocol listing\<close>

definition protocol_field :: "string \<Rightarrow> json \<Rightarrow> string \<Rightarrow> string option" where
  "protocol_field name f o1 = (case as_str (idx f ''protocol'') of None \<Rightarrow> Some o1
     | Some p \<Rightarrow> map_option (\<lambda>fname. o1 @ name @ ''.'' @ fname @ '' '' @ p @ nl) (as_str (idx f ''name'')))"

definition protocol_struct :: "json \<Rightarrow> string \<Rightarrow> string option" where
  "protocol_struct s o1 = do {
     name \<leftarrow> as_str (idx s ''name'');
     for_each (protocol_field name) (array_or_empty (idx s ''fields'')) o1
   }"

definition gen_protocols :: "json \<Rightarrow> string option" where
  "gen_protocols abi = do {
     ss \<leftarrow> as_array (idx abi ''structs'');
     for_each protocol_struct ss
       (''# @generated by `tools/abi` from abi/abi.json '' @ dash @ '' DO NOT EDIT.'' @ nl
        @ ''# Regenerate: cargo run --manifest-path tools/abi/Cargo.toml -- generate --lang protocols'' @ nl
        @ ''# <struct>.<field> <conformance-probe>'' @ nl)
   }"

section \<open>The schema\<close>

text \<open>
  \<open>abi.schema.json\<close>, which \<open>check\<close> validates the document against before anything else: objects with no other members than the listed ones, the required ones
  among them.
\<close>

definition closed_object :: "string list \<Rightarrow> string list \<Rightarrow> json \<Rightarrow> bool" where
  "closed_object allowed required v \<longleftrightarrow>
     (case v of JObj kvs \<Rightarrow> list_all (\<lambda>kv. fst kv \<in> set allowed) kvs \<and> list_all (\<lambda>k. k \<in> set (map fst kvs)) required | _ \<Rightarrow> False)"

definition optional :: "json \<Rightarrow> string \<Rightarrow> (json \<Rightarrow> bool) \<Rightarrow> bool" where
  "optional v k p \<longleftrightarrow> (case get v k of None \<Rightarrow> True | Some x \<Rightarrow> p x)"

fun is_str :: "json \<Rightarrow> bool" where
  "is_str (JStr _) = True"
| "is_str _ = False"

fun is_int :: "json \<Rightarrow> bool" where
  "is_int (JNum _) = True"
| "is_int _ = False"

fun is_bool :: "json \<Rightarrow> bool" where
  "is_bool (JBool _) = True"
| "is_bool _ = False"

definition array_of :: "(json \<Rightarrow> bool) \<Rightarrow> json \<Rightarrow> bool" where
  "array_of p v \<longleftrightarrow> (case v of JArr xs \<Rightarrow> list_all p xs | _ \<Rightarrow> False)"

definition object_of :: "(json \<Rightarrow> bool) \<Rightarrow> json \<Rightarrow> bool" where
  "object_of p v \<longleftrightarrow> (case v of JObj kvs \<Rightarrow> list_all (\<lambda>kv. p (snd kv)) kvs | _ \<Rightarrow> False)"

definition lower :: "char \<Rightarrow> bool" where
  "lower c \<longleftrightarrow> 97 \<le> (of_char c :: nat) \<and> (of_char c :: nat) \<le> 122"

definition decimal :: "char \<Rightarrow> bool" where
  "decimal c \<longleftrightarrow> 48 \<le> (of_char c :: nat) \<and> (of_char c :: nat) \<le> 57"

definition valid_identifier :: "json \<Rightarrow> bool" where
  "valid_identifier v \<longleftrightarrow>
     (case v of JStr (c # cs) \<Rightarrow> lower c \<and> list_all (\<lambda>x. lower x \<or> decimal x \<or> x = CHR ''_'') cs | _ \<Rightarrow> False)"

text \<open>\<open>^[0-9]+\.[0-9]+\.[0-9]+$\<close>: a run of digits with \<open>n\<close> more behind dots.\<close>

fun valid_version_text :: "nat \<Rightarrow> bool \<Rightarrow> string \<Rightarrow> bool" where
  "valid_version_text n some [] \<longleftrightarrow> n = 0 \<and> some"
| "valid_version_text n some (c # cs) \<longleftrightarrow>
     (if decimal c then valid_version_text n True cs
      else c = CHR ''.'' \<and> some \<and> 0 < n \<and> valid_version_text (n - 1) False cs)"

definition valid_version :: "json \<Rightarrow> bool" where
  "valid_version v \<longleftrightarrow> (case v of JStr s \<Rightarrow> valid_version_text 2 False s | _ \<Rightarrow> False)"

definition valid_scalar_type :: "json \<Rightarrow> bool" where
  "valid_scalar_type v \<longleftrightarrow> (case v of JStr s \<Rightarrow> s \<in> set (scalar_types @ [''string'']) | _ \<Rightarrow> False)"

definition valid_int_or_per_target :: "json \<Rightarrow> bool" where
  "valid_int_or_per_target v \<longleftrightarrow> is_int v \<or> object_of is_int v \<and> v \<noteq> JObj []"

definition valid_value :: "json \<Rightarrow> bool" where
  "valid_value v \<longleftrightarrow> is_int v \<or> is_str v \<or> object_of (\<lambda>x. is_int x \<or> is_str x) v \<and> v \<noteq> JObj []"

definition valid_target :: "json \<Rightarrow> bool" where
  "valid_target v \<longleftrightarrow> closed_object [''align_size'', ''shm_name_max'', ''description''] [''align_size''] v
     \<and> is_int (idx v ''align_size'') \<and> optional v ''shm_name_max'' is_int \<and> optional v ''description'' is_str"

definition valid_constant :: "json \<Rightarrow> bool" where
  "valid_constant v \<longleftrightarrow> closed_object [''name'', ''type'', ''value'', ''description''] [''name'', ''type'', ''value''] v
     \<and> valid_identifier (idx v ''name'') \<and> valid_scalar_type (idx v ''type'') \<and> valid_value (idx v ''value'')
     \<and> optional v ''description'' is_str"

definition valid_enum_value :: "json \<Rightarrow> bool" where
  "valid_enum_value v \<longleftrightarrow> closed_object [''name'', ''value'', ''description''] [''name'', ''value''] v
     \<and> valid_identifier (idx v ''name'') \<and> is_int (idx v ''value'') \<and> optional v ''description'' is_str"

definition valid_enum :: "json \<Rightarrow> bool" where
  "valid_enum v \<longleftrightarrow> closed_object [''name'', ''type'', ''description'', ''values''] [''name'', ''type'', ''values''] v
     \<and> valid_identifier (idx v ''name'') \<and> valid_scalar_type (idx v ''type'') \<and> optional v ''description'' is_str
     \<and> array_of valid_enum_value (idx v ''values'') \<and> idx v ''values'' \<noteq> JArr []"

definition valid_field :: "json \<Rightarrow> bool" where
  "valid_field v \<longleftrightarrow>
     closed_object [''name'', ''offset'', ''type'', ''count'', ''atomic'', ''protocol'', ''description''] [''name'', ''offset'', ''type''] v
     \<and> valid_identifier (idx v ''name'') \<and> valid_int_or_per_target (idx v ''offset'')
     \<and> idx v ''type'' \<in> set (map JStr [''u8'', ''u16'', ''u32'', ''u64'', ''i32'', ''bytes'', ''lock'', ''ptr''])
     \<and> optional v ''count'' is_int \<and> optional v ''atomic'' is_bool \<and> optional v ''protocol'' is_str \<and> optional v ''description'' is_str"

definition valid_struct :: "json \<Rightarrow> bool" where
  "valid_struct v \<longleftrightarrow>
     closed_object [''name'', ''size'', ''align'', ''targets'', ''description'', ''fields''] [''name'', ''size'', ''fields''] v
     \<and> valid_identifier (idx v ''name'') \<and> valid_int_or_per_target (idx v ''size'') \<and> optional v ''align'' valid_int_or_per_target
     \<and> optional v ''targets'' (\<lambda>x. array_of is_str x \<and> x \<noteq> JArr [] \<and> distinct (array_or_empty x))
     \<and> optional v ''description'' is_str \<and> array_of valid_field (idx v ''fields'')"

definition valid_golden :: "json \<Rightarrow> bool" where
  "valid_golden v \<longleftrightarrow> is_str v \<or> object_of is_str v"

definition valid_name_template :: "json \<Rightarrow> bool" where
  "valid_name_template v \<longleftrightarrow> closed_object [''name'', ''template'', ''description'', ''golden'', ''posix_golden''] [''name'', ''template''] v
     \<and> valid_identifier (idx v ''name'') \<and> is_str (idx v ''template'') \<and> optional v ''description'' is_str
     \<and> optional v ''golden'' valid_golden \<and> optional v ''posix_golden'' valid_golden"

definition valid_abi :: "json \<Rightarrow> bool" where
  "valid_abi v \<longleftrightarrow>
     closed_object [''$schema'', ''version'', ''description'', ''targets'', ''constants'', ''enums'', ''structs'', ''$protocol_note'', ''names'']
       [''version'', ''targets'', ''constants'', ''structs''] v
     \<and> optional v ''$schema'' is_str \<and> valid_version (idx v ''version'') \<and> optional v ''description'' is_str
     \<and> object_of valid_target (idx v ''targets'') \<and> array_of valid_constant (idx v ''constants'')
     \<and> optional v ''enums'' (array_of valid_enum) \<and> array_of valid_struct (idx v ''structs'')
     \<and> optional v ''$protocol_note'' is_str \<and> optional v ''names'' (array_of valid_name_template)"

section \<open>The commands\<close>

datatype outcome = Wrote string | Done | Exit nat | Panicked

text \<open>
  \<open>check\<close>, with what the dumper built for a target prints as a parameter; \<open>None\<close> is a failed compilation. \<open>host\<close> is the target the tool was built for;
  another target needs an \<open>-arch\<close> of the compiler.
\<close>

fun check_target :: "string \<Rightarrow> string list \<Rightarrow> string option" where
  "check_target target [] = Some target"
| "check_target target (a # as) =
     (if a = ''--target'' then (case as of [] \<Rightarrow> None | t # as' \<Rightarrow> check_target t as') else check_target target as)"

definition run_check :: "string \<Rightarrow> json \<Rightarrow> (string \<Rightarrow> json option) \<Rightarrow> string list \<Rightarrow> outcome" where
  "run_check host abi dumper as =
     (case check_target host as of None \<Rightarrow> Panicked | Some target \<Rightarrow>
      if \<not> valid_abi abi then Exit 1
      else case check_struct_targets abi of None \<Rightarrow> Panicked | Some structs_ok \<Rightarrow>
      if \<not> structs_ok then Exit 1
      else if target \<noteq> host \<and> target \<notin> {''x86_64'', ''apple_arm64''} then Exit 2
      else case dumper target of None \<Rightarrow> Exit 1 | Some printed \<Rightarrow>
      (case as_object printed of None \<Rightarrow> Panicked | Some dumped \<Rightarrow>
       (case check_naming abi target dumped of None \<Rightarrow> Panicked | Some naming_ok \<Rightarrow>
        if 0 < mismatches abi target dumped \<or> \<not> naming_ok then Exit 1 else Done)))"

text \<open>
  \<open>generate\<close>: a module is written, or compared with the file under \<open>--check\<close>; a file that cannot be read counts as empty. \<open>--target\<close> and
  \<open>--out\<close> take a value and do not change the text.
\<close>

fun generate_flags :: "string \<Rightarrow> bool \<Rightarrow> string list \<Rightarrow> outcome + (string \<times> bool)" where
  "generate_flags lang chk [] = Inr (lang, chk)"
| "generate_flags lang chk (a # as) =
     (if a = ''--check'' then generate_flags lang True as
      else if a \<in> {''--lang'', ''--target'', ''--out''} then
        (case as of [] \<Rightarrow> Inl Panicked | v # as' \<Rightarrow> generate_flags (if a = ''--lang'' then v else lang) chk as')
      else Inl (Exit 2))"

definition generator :: "string \<Rightarrow> (json \<Rightarrow> string option) option" where
  "generator lang =
     map_of [(''zig'', gen_zig), (''rust'', gen_rust), (''swift'', gen_swift), (''cpp'', gen_cpp), (''protocols'', gen_protocols)] lang"

definition run_generate :: "json \<Rightarrow> string option \<Rightarrow> string list \<Rightarrow> outcome" where
  "run_generate abi file as =
     (case generate_flags ''zig'' False as of Inl r \<Rightarrow> r | Inr (lang, chk) \<Rightarrow>
      (case generator lang of None \<Rightarrow> Exit 2 | Some gen \<Rightarrow>
       (case gen abi of None \<Rightarrow> Panicked | Some rendered \<Rightarrow>
        if \<not> chk then Wrote rendered
        else if (case file of Some s \<Rightarrow> s | None \<Rightarrow> '''') \<noteq> rendered then Exit 1 else Done)))"

text \<open>\<open>&args[2..]\<close> panics when there are fewer than two arguments, the program's name included.\<close>

definition args_from :: "nat \<Rightarrow> string list \<Rightarrow> string list option" where
  "args_from n xs = (if n \<le> length xs then Some (drop n xs) else None)"

definition tool_main :: "string \<Rightarrow> json \<Rightarrow> (string \<Rightarrow> json option) \<Rightarrow> string option \<Rightarrow> string list \<Rightarrow> outcome" where
  "tool_main host abi dumper file as =
     (let subcommand = (if 1 < length as then Some (as ! 1) else None) in
      if subcommand = None \<or> subcommand = Some ''check'' then
        (case args_from 2 as of None \<Rightarrow> Panicked | Some rest \<Rightarrow> run_check host abi dumper rest)
      else if subcommand = Some ''generate'' then
        (case args_from 2 as of None \<Rightarrow> Panicked | Some rest \<Rightarrow> run_generate abi file rest)
      else Exit 2)"

section \<open>When the generators panic\<close>

text \<open>Two targets, of which the align-8 one comes first, or the one target of a restricted struct.\<close>

definition splittable :: "string list \<Rightarrow> bool" where
  "splittable ts \<longleftrightarrow> (\<exists>t. ts = [t]) \<or> (\<exists>x. x \<noteq> apple \<and> ts = [apple, x])"

text \<open>An emitter of a declaration panics exactly when a target's value cannot be rendered.\<close>

locale emitter =
  fixes emit :: "string \<Rightarrow> string list \<Rightarrow> (string \<Rightarrow> string option) \<Rightarrow> string \<Rightarrow> string option"
  assumes emit_None: "splittable ts \<Longrightarrow> emit lhs ts render o1 = None \<longleftrightarrow> (\<exists>t \<in> set ts. render t = None)"
begin

lemma emit_int_None:
  "splittable ts \<Longrightarrow> emit lhs ts (int_of v) o1 = None \<longleftrightarrow> (\<exists>t \<in> set ts. resolve_int v t = None)"
  by (simp add: emit_None int_of_def)

lemma emit_golden_None:
  "splittable ts \<Longrightarrow>
   (case get n k of None \<Rightarrow> Some o1 | Some g \<Rightarrow> emit lhs ts (golden_of g) o1) = None
     \<longleftrightarrow> \<not> optional n k (\<lambda>g. \<forall>t \<in> set ts. resolve_str g t \<noteq> None)"
  by (auto simp: emit_None golden_of_def optional_def split: option.split)

end

lemma splittable_cases:
  assumes "splittable ts"
  obtains (one) t where "ts = [t]" | (two) x where "x \<noteq> apple" "ts = [apple, x]"
  using assms unfolding splittable_def by blast

interpretation rust: emitter emit_rust
proof
  fix ts lhs render o1 assume "splittable ts"
  then show "emit_rust lhs ts render o1 = None \<longleftrightarrow> (\<exists>t \<in> set ts. render t = None)"
  proof (cases rule: splittable_cases)
    case (one t)
    then show ?thesis by (cases "render t") (simp_all add: emit_rust_def uniform_def)
  next
    case (two x)
    then show ?thesis by (cases "render apple"; cases "render x") (simp_all add: emit_rust_def uniform_def)
  qed
qed

interpretation zig: emitter emit_zig
proof
  fix ts lhs render o1 assume "splittable ts"
  then show "emit_zig lhs ts render o1 = None \<longleftrightarrow> (\<exists>t \<in> set ts. render t = None)"
  proof (cases rule: splittable_cases)
    case (one t)
    then show ?thesis by (cases "render t") (simp_all add: emit_zig_def uniform_def)
  next
    case (two x)
    then show ?thesis by (cases "render apple"; cases "render x") (simp_all add: emit_zig_def uniform_def two_classes_def)
  qed
qed

interpretation swift: emitter emit_swift
proof
  fix ts lhs render o1 assume "splittable ts"
  then show "emit_swift lhs ts render o1 = None \<longleftrightarrow> (\<exists>t \<in> set ts. render t = None)"
  proof (cases rule: splittable_cases)
    case (one t)
    then show ?thesis by (cases "render t") (simp_all add: emit_swift_def uniform_def)
  next
    case (two x)
    then show ?thesis by (cases "render apple"; cases "render x") (simp_all add: emit_swift_def uniform_def two_classes_def)
  qed
qed

interpretation cpp: emitter "emit_cpp suf" for suf
proof
  fix ts lhs render o1 assume "splittable ts"
  then show "emit_cpp suf lhs ts render o1 = None \<longleftrightarrow> (\<exists>t \<in> set ts. render t = None)"
  proof (cases rule: splittable_cases)
    case (one t)
    then show ?thesis by (cases "render t") (simp_all add: emit_cpp_def uniform_def)
  next
    case (two x)
    then show ?thesis by (cases "render apple"; cases "render x") (simp_all add: emit_cpp_def uniform_def two_classes_def)
  qed
qed

lemma for_each_None:
  "(\<And>x o1. x \<in> set xs \<Longrightarrow> f x o1 = None \<longleftrightarrow> P x) \<Longrightarrow> for_each f xs o1 = None \<longleftrightarrow> (\<exists>x \<in> set xs. P x)"
proof (induction xs arbitrary: o1)
  case (Cons x xs)
  have "f x o1 = None \<longleftrightarrow> P x" by (rule Cons.prems) simp
  moreover have "for_each f xs o2 = None \<longleftrightarrow> (\<exists>y \<in> set xs. P y)" for o2 by (rule Cons.IH, rule Cons.prems) simp
  ultimately show ?case by (cases "f x o1") auto
qed simp

text \<open>
  What the schema and the struct check leave open, and the generators rely on: constants of type \<open>string\<close> hold a string and the others a number of every target,
  enums are numbers of 64 bits, and goldens are strings of every target.
\<close>

definition constant_ok :: "string list \<Rightarrow> json \<Rightarrow> bool" where
  "constant_ok ts c \<longleftrightarrow> (if idx c ''type'' = JStr ''string'' then is_str (idx c ''value'')
     else list_all (\<lambda>t. zig_num (idx c ''value'') t \<noteq> None) ts)"

definition enum_ok :: "json \<Rightarrow> bool" where
  "enum_ok e \<longleftrightarrow> idx e ''type'' \<noteq> JStr ''string'' \<and> list_all (\<lambda>v. as_i64 (idx v ''value'') \<noteq> None) (array_or_empty (idx e ''values''))"

definition golden_ok :: "string list \<Rightarrow> json \<Rightarrow> bool" where
  "golden_ok ts n \<longleftrightarrow> optional n ''golden'' (\<lambda>g. list_all (\<lambda>t. resolve_str g t \<noteq> None) ts)
     \<and> optional n ''posix_golden'' (\<lambda>g. list_all (\<lambda>t. resolve_str g t \<noteq> None) ts)"

definition struct_ok :: "string list \<Rightarrow> json \<Rightarrow> bool" where
  "struct_ok ts s \<longleftrightarrow> list_all (\<lambda>v. list_all (\<lambda>t. resolve_int v t \<noteq> None) (struct_targets s ts)) (struct_needs s)"

definition renderable :: "string list \<Rightarrow> json \<Rightarrow> bool" where
  "renderable ts abi \<longleftrightarrow> list_all (constant_ok ts) (array_or_empty (idx abi ''constants''))
     \<and> list_all enum_ok (array_or_empty (idx abi ''enums'')) \<and> list_all (golden_ok ts) (array_or_empty (idx abi ''names''))"

lemma is_str_iff: "is_str v \<longleftrightarrow> (\<exists>s. v = JStr s)"
  by (cases v) auto

lemma as_str_None: "as_str v = None \<longleftrightarrow> \<not> is_str v"
  by (cases v) auto

lemma identifier_str: "valid_identifier v \<Longrightarrow> \<exists>s. v = JStr s"
  by (auto simp: valid_identifier_def split: json.splits)

lemma scalar_typeE:
  assumes "valid_scalar_type v"
  obtains (string) "v = JStr ''string''"
    | (num) t where "v = JStr t" "t \<noteq> ''string''" "rust_type t \<noteq> None" "zig_int_type t \<noteq> None" "swift_type t \<noteq> None" "cpp_type t \<noteq> None"
proof -
  from assms obtain t where v: "v = JStr t" "t \<in> set (scalar_types @ [''string''])" by (auto simp: valid_scalar_type_def split: json.splits)
  show thesis
  proof (cases "t = ''string''")
    case True
    then show ?thesis using string v by simp
  next
    case False
    have "t \<in> set scalar_types" using v(2) False by auto
    then show ?thesis
      by (intro num [OF v(1) False]) (auto simp: scalar_types_def rust_type_def zig_int_type_def swift_type_def cpp_type_def)
  qed
qed

lemma constantE:
  assumes "valid_constant c"
  obtains name where "idx c ''name'' = JStr name" "valid_scalar_type (idx c ''type'')"
  using assms identifier_str unfolding valid_constant_def by blast

lemma rust_constant_None:
  assumes "valid_constant c" "splittable ts"
  shows "rust_constant ts c o1 = None \<longleftrightarrow> \<not> constant_ok ts c"
proof -
  obtain name where n: "idx c ''name'' = JStr name" "valid_scalar_type (idx c ''type'')" using constantE [OF assms(1)] .
  from n(2) show ?thesis
    by (cases rule: scalar_typeE)
      (auto simp: rust_constant_def n(1) constant_ok_def bind_eq_None_conv as_str_None rust.emit_None [OF assms(2)] list_all_iff Let_def)
qed

lemma zig_constant_None:
  assumes "valid_constant c" "splittable ts"
  shows "zig_constant ts c o1 = None \<longleftrightarrow> \<not> constant_ok ts c"
proof -
  obtain name where n: "idx c ''name'' = JStr name" "valid_scalar_type (idx c ''type'')" using constantE [OF assms(1)] .
  from n(2) show ?thesis
    by (cases rule: scalar_typeE)
      (auto simp: zig_constant_def n(1) constant_ok_def bind_eq_None_conv as_str_None zig.emit_None [OF assms(2)] list_all_iff Let_def)
qed

lemma swift_constant_None:
  assumes "valid_constant c" "splittable ts"
  shows "swift_constant ts c o1 = None \<longleftrightarrow> \<not> constant_ok ts c"
proof -
  obtain name where n: "idx c ''name'' = JStr name" "valid_scalar_type (idx c ''type'')" using constantE [OF assms(1)] .
  from n(2) show ?thesis
    by (cases rule: scalar_typeE)
      (auto simp: swift_constant_def n(1) constant_ok_def bind_eq_None_conv as_str_None swift.emit_None [OF assms(2)] list_all_iff Let_def)
qed

lemma cpp_constant_None:
  assumes "valid_constant c" "splittable ts"
  shows "cpp_constant ts c o1 = None \<longleftrightarrow> \<not> constant_ok ts c"
proof -
  obtain name where n: "idx c ''name'' = JStr name" "valid_scalar_type (idx c ''type'')" using constantE [OF assms(1)] .
  from n(2) show ?thesis
    by (cases rule: scalar_typeE)
      (auto simp: cpp_constant_def n(1) constant_ok_def bind_eq_None_conv as_str_None cpp.emit_None [OF assms(2)] list_all_iff Let_def)
qed

lemma enum_valueE:
  assumes "valid_enum_value v"
  obtains name where "idx v ''name'' = JStr name"
  using assms identifier_str unfolding valid_enum_value_def by blast

lemma enum_value_None: "valid_enum_value v \<Longrightarrow> enum_value start stop v o1 = None \<longleftrightarrow> as_i64 (idx v ''value'') = None"
  by (erule enum_valueE) (simp add: enum_value_def bind_eq_None_conv)

lemma enum_part_None: "valid_enum_value v \<Longrightarrow> enum_part v = None \<longleftrightarrow> as_i64 (idx v ''value'') = None"
  by (erule enum_valueE) (simp add: enum_part_def bind_eq_None_conv)

lemma enumE:
  assumes "valid_enum e"
  obtains name vs where "idx e ''name'' = JStr name" "valid_scalar_type (idx e ''type'')" "idx e ''values'' = JArr vs" "list_all valid_enum_value vs"
proof -
  obtain name where "idx e ''name'' = JStr name" using assms identifier_str unfolding valid_enum_def by blast
  moreover obtain vs where "idx e ''values'' = JArr vs" "list_all valid_enum_value vs"
    using assms by (auto simp: valid_enum_def array_of_def split: json.splits)
  ultimately show thesis using that assms by (simp add: valid_enum_def)
qed

lemma enum_values_None:
  "list_all valid_enum_value vs \<Longrightarrow>
   for_each (enum_value start stop) vs o1 = None \<longleftrightarrow> \<not> list_all (\<lambda>v. as_i64 (idx v ''value'') \<noteq> None) vs"
  by (subst for_each_None [where P = "\<lambda>v. as_i64 (idx v ''value'') = None"]) (auto simp: list_all_iff enum_value_None)

lemma those_None: "those xs = None \<longleftrightarrow> None \<in> set xs"
  by (induction xs) (auto split: option.splits)

lemma enum_None:
  assumes "valid_enum e"
  shows "rust_enum e o1 = None \<longleftrightarrow> \<not> enum_ok e" "zig_enum e o1 = None \<longleftrightarrow> \<not> enum_ok e"
    "swift_enum e o1 = None \<longleftrightarrow> \<not> enum_ok e" "cpp_enum e o1 = None \<longleftrightarrow> \<not> enum_ok e"
proof -
  obtain name vs where e: "idx e ''name'' = JStr name" "valid_scalar_type (idx e ''type'')" "idx e ''values'' = JArr vs"
    "list_all valid_enum_value vs" using enumE [OF assms] .
  have parts: "those (map enum_part vs) = None \<longleftrightarrow> \<not> list_all (\<lambda>v. as_i64 (idx v ''value'') \<noteq> None) vs"
    unfolding those_None using e(4) enum_part_None by (force simp: list_all_iff image_iff)
  note d = e(1,3) enum_ok_def array_or_empty_def bind_eq_None_conv enum_values_None [OF e(4)]
  from e(2) show "rust_enum e o1 = None \<longleftrightarrow> \<not> enum_ok e"
    by (cases rule: scalar_typeE) (auto simp: rust_enum_def d rust_type_def scalar_types_def)
  from e(2) show "zig_enum e o1 = None \<longleftrightarrow> \<not> enum_ok e"
    by (cases rule: scalar_typeE) (auto simp: zig_enum_def d zig_int_type_def scalar_types_def)
  from e(2) show "swift_enum e o1 = None \<longleftrightarrow> \<not> enum_ok e"
    by (cases rule: scalar_typeE) (auto simp: swift_enum_def d swift_type_def)
  from e(2) show "cpp_enum e o1 = None \<longleftrightarrow> \<not> enum_ok e"
    by (cases rule: scalar_typeE) (auto simp: cpp_enum_def d cpp_type_def parts)
qed

lemma fieldE:
  assumes "valid_field f"
  obtains name where "idx f ''name'' = JStr name"
  using assms identifier_str unfolding valid_field_def by blast

lemma field_None:
  assumes "valid_field f" "splittable ts"
  shows "rust_field n ts f o1 = None \<longleftrightarrow> (\<exists>t \<in> set ts. resolve_int (idx f ''offset'') t = None)"
    "zig_field n ts f o1 = None \<longleftrightarrow> (\<exists>t \<in> set ts. resolve_int (idx f ''offset'') t = None)"
    "swift_field n ts f o1 = None \<longleftrightarrow> (\<exists>t \<in> set ts. resolve_int (idx f ''offset'') t = None)"
    "cpp_field n ts f o1 = None \<longleftrightarrow> (\<exists>t \<in> set ts. resolve_int (idx f ''offset'') t = None)"
    "protocol_field n f o1 \<noteq> None"
proof -
  obtain name where "idx f ''name'' = JStr name" using fieldE [OF assms(1)] .
  then show "rust_field n ts f o1 = None \<longleftrightarrow> (\<exists>t \<in> set ts. resolve_int (idx f ''offset'') t = None)"
    "zig_field n ts f o1 = None \<longleftrightarrow> (\<exists>t \<in> set ts. resolve_int (idx f ''offset'') t = None)"
    "swift_field n ts f o1 = None \<longleftrightarrow> (\<exists>t \<in> set ts. resolve_int (idx f ''offset'') t = None)"
    "cpp_field n ts f o1 = None \<longleftrightarrow> (\<exists>t \<in> set ts. resolve_int (idx f ''offset'') t = None)"
    "protocol_field n f o1 \<noteq> None"
    by (simp_all add: rust_field_def zig_field_def swift_field_def cpp_field_def protocol_field_def Let_def
        rust.emit_int_None [OF assms(2)] zig.emit_int_None [OF assms(2)] swift.emit_int_None [OF assms(2)]
        cpp.emit_int_None [OF assms(2)] split: option.split)
qed

lemma structE:
  assumes "valid_struct s"
  obtains name where "idx s ''name'' = JStr name" "list_all valid_field (each_field s)"
proof -
  obtain name where "idx s ''name'' = JStr name" using assms identifier_str unfolding valid_struct_def by blast
  moreover have "list_all valid_field (each_field s)"
    using assms by (auto simp: valid_struct_def array_of_def each_field_def array_or_empty_def split: json.splits)
  ultimately show thesis using that by blast
qed

lemma fields_None:
  assumes "list_all valid_field fs" "splittable ts"
  shows "for_each (rust_field n ts) fs o1 = None \<longleftrightarrow> (\<exists>f \<in> set fs. \<exists>t \<in> set ts. resolve_int (idx f ''offset'') t = None)"
    "for_each (zig_field n ts) fs o1 = None \<longleftrightarrow> (\<exists>f \<in> set fs. \<exists>t \<in> set ts. resolve_int (idx f ''offset'') t = None)"
    "for_each (swift_field n ts) fs o1 = None \<longleftrightarrow> (\<exists>f \<in> set fs. \<exists>t \<in> set ts. resolve_int (idx f ''offset'') t = None)"
    "for_each (cpp_field n ts) fs o1 = None \<longleftrightarrow> (\<exists>f \<in> set fs. \<exists>t \<in> set ts. resolve_int (idx f ''offset'') t = None)"
  using assms by (auto intro!: for_each_None simp: list_all_iff field_None)

lemma scope_note_Some: "idx s ''name'' = JStr name \<Longrightarrow> struct_scope_note cmt s \<noteq> None"
  by (simp add: struct_scope_note_def split: option.split)

lemma struct_ok_iff:
  "struct_ok ts s \<longleftrightarrow> (let sts = struct_targets s ts in
     (\<forall>t \<in> set sts. resolve_int (idx s ''size'') t \<noteq> None) \<and> (\<forall>t \<in> set sts. resolve_int (idx s ''align'') t \<noteq> None)
     \<and> (\<forall>f \<in> set (each_field s). \<forall>t \<in> set sts. resolve_int (idx f ''offset'') t \<noteq> None))"
  by (simp add: struct_ok_def struct_needs_def list_all_iff Let_def)

lemma struct_None:
  assumes "valid_struct s" "splittable (struct_targets s ts)"
  shows "rust_struct ts s o1 = None \<longleftrightarrow> \<not> struct_ok ts s" "zig_struct ts s o1 = None \<longleftrightarrow> \<not> struct_ok ts s"
    "swift_struct ts s o1 = None \<longleftrightarrow> \<not> struct_ok ts s" "cpp_struct ts s o1 = None \<longleftrightarrow> \<not> struct_ok ts s"
proof -
  obtain name where s: "idx s ''name'' = JStr name" "list_all valid_field (each_field s)" using structE [OF assms(1)] .
  note d = struct_ok_iff Let_def bind_eq_None_conv s(1) scope_note_Some [OF s(1)] fields_None [OF s(2) assms(2)]
    rust.emit_int_None [OF assms(2)] zig.emit_int_None [OF assms(2)] swift.emit_int_None [OF assms(2)] cpp.emit_int_None [OF assms(2)]
  show "rust_struct ts s o1 = None \<longleftrightarrow> \<not> struct_ok ts s" unfolding rust_struct_def by (simp only: d as_str.simps) auto
  show "zig_struct ts s o1 = None \<longleftrightarrow> \<not> struct_ok ts s" unfolding zig_struct_def by (simp only: d as_str.simps) auto
  show "swift_struct ts s o1 = None \<longleftrightarrow> \<not> struct_ok ts s" unfolding swift_struct_def by (simp only: d as_str.simps) auto
  show "cpp_struct ts s o1 = None \<longleftrightarrow> \<not> struct_ok ts s" unfolding cpp_struct_def by (simp only: d as_str.simps) auto
qed

lemma protocol_struct_Some:
  assumes "valid_struct s"
  shows "protocol_struct s o1 \<noteq> None"
proof -
  obtain name where s: "idx s ''name'' = JStr name" "list_all valid_field (each_field s)" using structE [OF assms] .
  have "for_each (protocol_field name) (each_field s) o1 = None \<longleftrightarrow> (\<exists>f \<in> set (each_field s). False)"
    using s(2) field_None(5) [where ts = "[apple]"] by (intro for_each_None) (auto simp: list_all_iff splittable_def)
  then show ?thesis by (simp add: protocol_struct_def s(1) each_field_def)
qed

lemma nameE:
  assumes "valid_name_template n"
  obtains name where "idx n ''name'' = JStr name"
  using assms identifier_str unfolding valid_name_template_def by blast

lemma name_None:
  assumes "valid_name_template n" "splittable ts"
  shows "rust_name ts n o1 = None \<longleftrightarrow> \<not> golden_ok ts n" "zig_name ts n o1 = None \<longleftrightarrow> \<not> golden_ok ts n"
    "swift_name ts n o1 = None \<longleftrightarrow> \<not> golden_ok ts n" "cpp_name ts n o1 = None \<longleftrightarrow> \<not> golden_ok ts n"
proof -
  obtain name where n: "idx n ''name'' = JStr name" using nameE [OF assms(1)] .
  note d = golden_ok_def list_all_iff bind_eq_None_conv n as_str.simps rust.emit_golden_None [OF assms(2)] zig.emit_golden_None [OF assms(2)]
    swift.emit_golden_None [OF assms(2)] cpp.emit_golden_None [OF assms(2)]
  show "rust_name ts n o1 = None \<longleftrightarrow> \<not> golden_ok ts n" unfolding rust_name_def by (simp only: d) auto
  show "zig_name ts n o1 = None \<longleftrightarrow> \<not> golden_ok ts n" unfolding zig_name_def by (simp only: d) auto
  show "swift_name ts n o1 = None \<longleftrightarrow> \<not> golden_ok ts n" unfolding swift_name_def by (simp only: d) auto
  show "cpp_name ts n o1 = None \<longleftrightarrow> \<not> golden_ok ts n" unfolding cpp_name_def by (simp only: d) auto
qed

lemma optional_array: "optional v k (array_of p) \<Longrightarrow> list_all p (array_or_empty (idx v k))"
  by (auto simp: optional_def array_of_def array_or_empty_def idx_def split: option.splits json.splits)

lemma abiE:
  assumes "valid_abi abi"
  obtains version cs ss where "idx abi ''version'' = JStr version" "idx abi ''constants'' = JArr cs" "list_all valid_constant cs"
    "idx abi ''structs'' = JArr ss" "list_all valid_struct ss" "list_all valid_enum (array_or_empty (idx abi ''enums''))"
    "list_all valid_name_template (array_or_empty (idx abi ''names''))"
proof -
  have "\<exists>v. idx abi ''version'' = JStr v" using assms by (auto simp: valid_abi_def valid_version_def split: json.splits)
  moreover have "\<exists>cs. idx abi ''constants'' = JArr cs \<and> list_all valid_constant cs"
    using assms by (auto simp: valid_abi_def array_of_def split: json.splits)
  moreover have "\<exists>ss. idx abi ''structs'' = JArr ss \<and> list_all valid_struct ss"
    using assms by (auto simp: valid_abi_def array_of_def split: json.splits)
  moreover have "list_all valid_enum (array_or_empty (idx abi ''enums''))" "list_all valid_name_template (array_or_empty (idx abi ''names''))"
    using assms by (auto simp: valid_abi_def intro: optional_array)
  ultimately show thesis using that by blast
qed

lemma struct_target_list_nonempty:
  assumes "valid_struct s" "struct_target_list s = Some l"
  shows "l \<noteq> []"
proof -
  obtain a where a: "idx s ''targets'' = JArr a" "l = List.map_filter as_str a"
    using assms(2) by (cases "idx s ''targets''") (auto simp: struct_target_list_def)
  then have "get s ''targets'' = Some (JArr a)" by (auto simp: idx_def split: option.splits)
  then have "list_all is_str a" "a \<noteq> []" using assms(1) by (auto simp: valid_struct_def optional_def array_of_def)
  then show ?thesis using a(2) by (cases a) (auto simp: map_filter_simps is_str_iff)
qed

lemma struct_checked:
  assumes "check_struct_targets abi = Some True" "idx abi ''structs'' = JArr ss" "s \<in> set ss" "valid_struct s"
    and "targets abi = Some [apple, x]" "x \<noteq> apple"
  shows "splittable (struct_targets s [apple, x]) \<and> struct_ok [apple, x] s"
proof -
  obtain kvs where kvs: "as_object (idx abi ''targets'') = Some kvs" and "sort_key (\<lambda>t. (t \<noteq> apple, t)) (map fst kvs) = [apple, x]"
    using assms(5) by (auto simp: targets_def)
  then have declared: "set (map fst kvs) = {apple, x}" by (metis set_sort list.simps(15) empty_set)
  define on where "on = (case struct_target_list s of Some l \<Rightarrow> l | None \<Rightarrow> map fst kvs)"
  have bad: "struct_target_bad (map fst kvs) s t = 0" if "t \<in> set on" for t
    using assms(1-3) that kvs by (auto simp: check_struct_targets_def array_or_empty_def on_def Let_def)
  have on: "t \<in> {apple, x}" "\<And>v. v \<in> set (struct_needs s) \<Longrightarrow> resolve_int v t \<noteq> None" if "t \<in> set on" for t
    using bad [OF that] declared by (auto simp: struct_target_bad_def filter_empty_conv split: if_splits)
  have member: "struct_on s t \<longleftrightarrow> t \<in> set on" if "t \<in> {apple, x}" for t
    using that declared by (auto simp: struct_on_def on_def split: option.splits)
  have "on \<noteq> []" using struct_target_list_nonempty [OF assms(4)] declared by (auto simp: on_def split: option.splits)
  then have "\<exists>t \<in> {apple, x}. struct_on s t" using on(1) member by (metis last_in_set)
  then have "splittable (struct_targets s [apple, x])" using assms(6) by (auto simp: struct_targets_def splittable_def)
  moreover have "struct_ok [apple, x] s"
    using on(2) member by (auto simp: struct_ok_def struct_targets_def list_all_iff)
  ultimately show ?thesis by blast
qed

lemma for_each_Some: "(\<And>x o2. x \<in> set xs \<Longrightarrow> f x o2 \<noteq> None) \<Longrightarrow> for_each f xs o1 \<noteq> None"
  by (subst for_each_None [where P = "\<lambda>_. False"]) auto

lemma constants_None:
  assumes "list_all valid_constant cs" "splittable ts"
  shows "for_each (rust_constant ts) cs o1 = None \<longleftrightarrow> (\<exists>c \<in> set cs. \<not> constant_ok ts c)"
    "for_each (zig_constant ts) cs o1 = None \<longleftrightarrow> (\<exists>c \<in> set cs. \<not> constant_ok ts c)"
    "for_each (swift_constant ts) cs o1 = None \<longleftrightarrow> (\<exists>c \<in> set cs. \<not> constant_ok ts c)"
    "for_each (cpp_constant ts) cs o1 = None \<longleftrightarrow> (\<exists>c \<in> set cs. \<not> constant_ok ts c)"
  using assms(1) by (auto intro!: for_each_None rust_constant_None zig_constant_None swift_constant_None cpp_constant_None assms(2)
      simp only: list_all_iff)

lemma enums_None:
  assumes "list_all valid_enum es"
  shows "for_each rust_enum es o1 = None \<longleftrightarrow> (\<exists>e \<in> set es. \<not> enum_ok e)" "for_each zig_enum es o1 = None \<longleftrightarrow> (\<exists>e \<in> set es. \<not> enum_ok e)"
    "for_each swift_enum es o1 = None \<longleftrightarrow> (\<exists>e \<in> set es. \<not> enum_ok e)" "for_each cpp_enum es o1 = None \<longleftrightarrow> (\<exists>e \<in> set es. \<not> enum_ok e)"
  using assms by (auto intro!: for_each_None enum_None simp only: list_all_iff)

lemma names_None:
  assumes "list_all valid_name_template ns" "splittable ts"
  shows "for_each (rust_name ts) ns o1 = None \<longleftrightarrow> (\<exists>n \<in> set ns. \<not> golden_ok ts n)"
    "for_each (zig_name ts) ns o1 = None \<longleftrightarrow> (\<exists>n \<in> set ns. \<not> golden_ok ts n)"
    "for_each (swift_name ts) ns o1 = None \<longleftrightarrow> (\<exists>n \<in> set ns. \<not> golden_ok ts n)"
    "for_each (cpp_name ts) ns o1 = None \<longleftrightarrow> (\<exists>n \<in> set ns. \<not> golden_ok ts n)"
  using assms(1) by (auto intro!: for_each_None name_None assms(2) simp only: list_all_iff)

lemma generators_None:
  assumes v: "valid_abi abi" and chk: "check_struct_targets abi = Some True" and t: "targets abi = Some [apple, x]" "x \<noteq> apple"
  shows "gen_rust abi = None \<longleftrightarrow> \<not> renderable [apple, x] abi" "gen_zig abi = None \<longleftrightarrow> \<not> renderable [apple, x] abi"
    "gen_swift abi = None \<longleftrightarrow> \<not> renderable [apple, x] abi" "gen_cpp abi = None \<longleftrightarrow> \<not> renderable [apple, x] abi"
    "gen_protocols abi \<noteq> None"
proof -
  obtain version cs ss where a: "idx abi ''version'' = JStr version" "idx abi ''constants'' = JArr cs" "list_all valid_constant cs"
    "idx abi ''structs'' = JArr ss" "list_all valid_struct ss" "list_all valid_enum (array_or_empty (idx abi ''enums''))"
    "list_all valid_name_template (array_or_empty (idx abi ''names''))" using abiE [OF v] .
  have spl: "splittable [apple, x]" using t(2) by (simp add: splittable_def)
  have st: "splittable (struct_targets s [apple, x])" "struct_ok [apple, x] s" "valid_struct s" if "s \<in> set ss" for s
    using struct_checked [OF chk a(4) that _ t] a(5) that by (auto simp: list_all_iff)
  have s: "for_each (rust_struct [apple, x]) ss o1 \<noteq> None" "for_each (zig_struct [apple, x]) ss o1 \<noteq> None"
    "for_each (swift_struct [apple, x]) ss o1 \<noteq> None" "for_each (cpp_struct [apple, x]) ss o1 \<noteq> None"
    "for_each protocol_struct ss o1 \<noteq> None" for o1
    by (rule for_each_Some, simp only: struct_None st protocol_struct_Some simp_thms not_True_eq_False not_False_eq_True)+
  have r: "renderable [apple, x] abi \<longleftrightarrow> \<not> (\<exists>c \<in> set cs. \<not> constant_ok [apple, x] c)
      \<and> \<not> (\<exists>y \<in> set (array_or_empty (idx abi ''enums'')). \<not> enum_ok y)
      \<and> \<not> (\<exists>y \<in> set (array_or_empty (idx abi ''names'')). \<not> golden_ok [apple, x] y)"
    by (simp add: renderable_def a(2) array_or_empty_def [of "JArr cs"] list_all_iff)
  note d = bind_eq_None_conv option.sel option.distinct a(1,2,4) as_str.simps as_array.simps t(1) Let_def constants_None [OF a(3) spl] enums_None [OF a(6)]
    names_None [OF a(7) spl] s r
  show "gen_rust abi = None \<longleftrightarrow> \<not> renderable [apple, x] abi" unfolding gen_rust_def by (simp only: d simp_thms de_Morgan_conj)
  show "gen_zig abi = None \<longleftrightarrow> \<not> renderable [apple, x] abi" unfolding gen_zig_def by (simp only: d simp_thms de_Morgan_conj)
  show "gen_swift abi = None \<longleftrightarrow> \<not> renderable [apple, x] abi" unfolding gen_swift_def by (simp only: d simp_thms de_Morgan_conj)
  show "gen_cpp abi = None \<longleftrightarrow> \<not> renderable [apple, x] abi" unfolding gen_cpp_def by (simp only: d simp_thms de_Morgan_conj)
  show "gen_protocols abi \<noteq> None" unfolding gen_protocols_def by (simp only: d simp_thms de_Morgan_conj)
qed

text \<open>
  C26. On a document that is valid against the schema and passes the struct check, with the align-8 target and one other, the four module generators panic exactly
  when the document has a value they cannot render, and the protocol listing never does: checked documents do not go wrong at the members the checks cover.
\<close>

theorem generators_panic_iff:
  assumes "valid_abi abi" and "check_struct_targets abi = Some True" and "targets abi = Some [apple, x]" and "x \<noteq> apple"
  shows "(lang \<in> {''zig'', ''rust'', ''swift'', ''cpp''} \<longrightarrow>
      (run_generate abi file [''--lang'', lang] = Panicked \<longleftrightarrow> \<not> renderable [apple, x] abi))
    \<and> run_generate abi file [''--lang'', ''protocols''] \<noteq> Panicked"
proof -
  have run: "run_generate abi file [''--lang'', l] = Panicked \<longleftrightarrow> gen abi = None" if "generator l = Some gen" for l gen
    using that by (auto simp: run_generate_def split: option.split)
  have g: "generator ''zig'' = Some gen_zig" "generator ''rust'' = Some gen_rust" "generator ''swift'' = Some gen_swift"
    "generator ''cpp'' = Some gen_cpp" "generator ''protocols'' = Some gen_protocols" by (simp_all add: generator_def)
  show ?thesis using generators_None [OF assms] by (auto simp only: run [OF g(1)] run [OF g(2)] run [OF g(3)] run [OF g(4)] run [OF g(5)])
qed

theorem generators_panic_iff_witness:
  "run_generate sample_abi None [''--lang'', ''cpp''] \<noteq> Panicked \<and> run_generate sample_abi None [''--lang'', ''rust''] \<noteq> Panicked"
proof -
  have v: "valid_abi sample_abi" "check_struct_targets sample_abi = Some True" by code_simp+
  have t: "targets sample_abi = Some [apple, ''x86_64'']" "''x86_64'' \<noteq> apple" "renderable [apple, ''x86_64''] sample_abi" by code_simp+
  show ?thesis
    using generators_panic_iff [OF v t(1,2), of "''cpp''" None] generators_panic_iff [OF v t(1,2), of "''rust''" None] t(3) by simp
qed

definition partial_abi :: json where
  "partial_abi = JObj [(''version'', JStr ''1.3.0''), (''targets'', sample_targets),
     (''constants'', JArr [sample_data_length, sample_notify_hash,
        JObj [(''name'', JStr ''chunk_header_size''), (''type'', JStr ''usize''), (''value'', JObj [(''apple_arm64'', JNum 8)])]]),
     (''structs'', JArr [])]"
text \<open>
  \<open>check\<close> accepts documents the generators panic on: a constant with a value of one target only passes it, and every module generator stops at the
  other target.
\<close>

theorem checked_document_panics:
  "run_check ''x86_64'' partial_abi (\<lambda>_. Some (JObj [])) [] = Done
   \<and> run_check ''x86_64'' partial_abi (\<lambda>_. Some (JObj [])) [''--target'', ''apple_arm64''] = Done
   \<and> run_generate partial_abi file [''--lang'', ''rust''] = Panicked \<and> run_generate partial_abi file [''--lang'', ''cpp''] = Panicked"
proof (intro conjI)
  show "run_check ''x86_64'' partial_abi (\<lambda>_. Some (JObj [])) [] = Done" by code_simp
  show "run_check ''x86_64'' partial_abi (\<lambda>_. Some (JObj [])) [''--target'', ''apple_arm64''] = Done" by code_simp
  have v: "valid_abi partial_abi" "check_struct_targets partial_abi = Some True" by code_simp+
  have t: "targets partial_abi = Some [apple, ''x86_64'']" "''x86_64'' \<noteq> apple" "\<not> renderable [apple, ''x86_64''] partial_abi" by code_simp+
  show "run_generate partial_abi file [''--lang'', ''rust''] = Panicked" "run_generate partial_abi file [''--lang'', ''cpp''] = Panicked"
    using generators_None [OF v t(1,2)] t(3) by (simp_all add: run_generate_def generator_def)
qed


section \<open>The generated C++ header selects by target\<close>

text \<open>The preprocessor on the lines of the header, where \<open>align8\<close> is the value of the conditions; conditionals are not nested.\<close>

datatype branch = Always | Taken | Skipped

fun preprocess :: "bool \<Rightarrow> branch \<Rightarrow> string list \<Rightarrow> string list" where
  "preprocess align8 b [] = []"
| "preprocess align8 b (l # ls) =
     (if take 3 l = ''#if'' then preprocess align8 (if align8 then Taken else Skipped) ls
      else if l = ''#else'' then preprocess align8 (if b = Taken then Skipped else Taken) ls
      else if l = ''#endif'' then preprocess align8 Always ls
      else if b = Skipped then preprocess align8 b ls else l # preprocess align8 b ls)"

text \<open>The lines of a text, each of which ends with a newline.\<close>

fun lines :: "string \<Rightarrow> string \<Rightarrow> string list" where
  "lines acc [] = (if acc = [] then [] else [acc])"
| "lines acc (c # cs) = (if [c] = nl then acc # lines [] cs else lines (acc @ [c]) cs)"

lemma lines_cons: "CHR 0x0A \<notin> set a \<Longrightarrow> lines acc (a @ CHR 0x0A # b) = (acc @ a) # lines [] b"
  by (induction a arbitrary: acc) (auto simp: nl_def)

lemma preprocess_plain:
  "take 1 l \<noteq> ''#'' \<Longrightarrow> preprocess align8 b (l # ls) = (if b = Skipped then preprocess align8 b ls else l # preprocess align8 b ls)"
  by (cases l) auto

lemma preprocess_if:
  "preprocess align8 b (''#if (defined(__APPLE__) && defined(__aarch64__)) || defined(_MSC_VER)'' # ls)
     = preprocess align8 (if align8 then Taken else Skipped) ls"
  "preprocess align8 b (''#else'' # ls) = preprocess align8 (if b = Taken then Skipped else Taken) ls"
  "preprocess align8 b (''#endif'' # ls) = preprocess align8 Always ls"
  by simp_all



end
