(* ===== verification/Spec2Isabelle.thy ===== *)
theory Spec2Isabelle
  imports Locks Conn_Head Message Liveness Route Channel_Ring Chunk_Storage Shm_Ring Secure_Codec
    Service_Group Sync_Abi Linux_Mutex Delivery Lifecycle
    Waiter Shm_Cache Async_Recv Apple_Mutex
    Semaphore Posix_Semaphore Condition Abi_Generate
begin

text \<open>
  \<^bold>\<open>Verification of thoth-ipc\<close>

  thoth-ipc is an inter-process messaging library: routes (one sender, many receivers) and channels (many senders and receivers) over rings in shared memory, the
  named locks, condition variables and semaphores they wait with, and a layer of typed and encrypted messages, service discovery and supervised processes on top.
  The Rust crate under \<open>src/rust/thoth-ipc\<close> is the implementation verified here, with the C functions of \<open>src/secure-crypto-c\<close> and the tool of \<open>src/tools/abi\<close> that
  keeps the layouts of the ports in step.

  \<^bold>\<open>How the parts fit.\<close> A message given to \<open>send\<close> is cut into fragments (Message) that are pushed into the ring of a route (Route) or a channel
  (Channel_Ring); a large one is put into a chunk of shared memory first (Chunk_Storage). Receivers hold a bit of the ring's connection mask (Conn_Head), the process
  behind each bit is recorded in an owner table (Liveness), and a sender reaps the bits of dead processes and evicts receivers that do not read. Endpoint
  composes these into \<open>open\<close>, \<open>send\<close>, \<open>recv\<close>, \<open>disconnect\<close>, \<open>reconnect\<close>, \<open>clone\<close> and \<open>drop\<close>. Sleeping uses a waiter (Waiter) on a mutex and a condition variable of the platform
  (Linux_Mutex, Apple_Mutex, Condition), each stamped with its layout (Sync_Abi) and kept in named segments (Names, Posix_Shm, Shm_Cache); reactors are woken through
  FIFOs (Notify, Async_Recv).

  \<^bold>\<open>How code is modelled.\<close> Machine integers are words of their width, structs records, enums datatypes, byte buffers lists of bytes, strings the lists of their UTF-8 bytes.
  Sequential code is a function; a panic, an error or an early return is a value. Code that runs against other processes is a step machine: a program
  counter per thread, one step per access to shared memory or system call, and \<open>rtranclp\<close> of the step relation for what can be reached. Memory is sequentially
  consistent; the orderings of the atomics are not modelled. The kernel, OpenSSL, the wire formats, the clock and tokio are parameters or are given by their
  documented behaviour; where a theorem relies on it, the assumption is in its statement and a witness shows that it can hold.

  \<^bold>\<open>Theories, sources and results.\<close>

  \<^item> Prelude: word types, byte codecs, blits, connection-mask bit tricks, wrapping comparison, counting of threads; the locales \<open>invariant_system\<close> (an
    invariant of a step relation holds at every reachable state) and \<open>data_refinement\<close>, interpreted by the components. Abi: the constants of \<open>abi_generated.rs\<close>.
  \<^item> Locks: \<open>spin_lock.rs\<close>, \<open>rw_lock.rs\<close> and the double-checked construction of a header; mutual exclusion for any number of threads (fewer than \<open>2^31\<close> for the
    read-write lock) and one construction.
  \<^item> Conn_Head: \<open>circ.rs\<close>. Message: \<open>msg_t\<close> records, fragmentation and reassembly of \<open>channel.rs\<close>; reassembling the fragments of any message gives it back.
  \<^item> Liveness: \<open>liveness.rs\<close>; a live process keeps its marks, and at most one live process holds the sole-sender record of a route.
  \<^item> Route: \<open>push_fragment\<close>, the slot loop of \<open>recv\<close> and \<open>release_slot\<close>; in every interleaving of a sender and its receivers each receiver reads a prefix of what
    was pushed, the sender waits exactly for a lapped slot that a live receiver has not read, and a forced push evicts those that hold it.
  \<^item> Channel_Ring: \<open>push_fragment_multi\<close>, \<open>commit_multi\<close>, \<open>recv_multi\<close>, \<open>release_mark\<close>, \<open>release_stale\<close>, \<open>adopt_cursor\<close>; the packing of the reader word, and the
    interleavings in which a channel loses its guarantees.
  \<^item> Chunk_Storage: \<open>chunk_storage.rs\<close>; the free list threaded through bytes is an allocator of ids (locale with the allocator's contract, interpreted on it).
  \<^item> Delivery, Endpoint, Lifecycle: the rest of \<open>channel.rs\<close>; the connection mask, the owner table and the sender count stay consistent under any sequence of calls.
  \<^item> Shm_Ring: \<open>proto/shm_ring.rs\<close>; a bounded queue (locale), and the access-by-access ring of a producer and a consumer.
  \<^item> Names: \<open>shm_name.rs\<close> and the name builders; names fit the limit of macOS and those of different objects differ.
  \<^item> Codec, Secure_Codec: \<open>buffer.rs\<close>, \<open>proto/codec.rs\<close>, \<open>proto/codecs\<close> and \<open>secure_crypto_c.c\<close>; a decoded envelope is the encoded message,
    and bytes parse as an envelope exactly when they were built as one.
  \<^item> Service_Registry, Service_Group: \<open>service_registry.rs\<close>, \<open>process_manager.rs\<close>, \<open>service_group.rs\<close>; the table refines a directory, a group has at most one primary, fails
    over, and its calls return.
  \<^item> Sync_Abi: \<open>sync_abi.rs\<close>; openers of different layouts never both proceed, whoever is killed when.
  \<^item> Linux_Mutex: \<open>platform/linux.rs\<close>; exclusion of the robust mutex with dying owners, a robust list the kernel can walk after every single store. Apple_Mutex:
    \<open>platform/apple.rs\<close>; exclusion, and no sleeper is left behind. Condition, Semaphore, Posix_Semaphore: \<open>condition.rs\<close> and \<open>semaphore.rs\<close>. Waiter: \<open>waiter.rs\<close>; no wake is lost.
  \<^item> Posix_Shm, Shm_Cache: \<open>platform/posix.rs\<close> and \<open>shm.rs\<close>; the counter in a segment counts its users, and a process maps a name once.
  \<^item> Notify, Async_Recv: \<open>notify.rs\<close> and \<open>async_recv.rs\<close>; an asynchronous receiver that waits with a message in the ring is going to be woken.
  \<^item> Abi_Tool, Abi_Generate: \<open>tools/abi/src/main.rs\<close> and \<open>abi/abi.schema.json\<close>; the naming check accepts only the names the crate computes, the generators panic exactly on
    values they cannot render, a generated conditional gives every target its own value.
  \<^item> This theory: from \<open>send\<close> to \<open>recv\<close>.

  \<^bold>\<open>Bounds and schedules.\<close> The cursors of a route are 32 bits wide and compared with wrap-around; the delivery theorems hold while fewer than \<open>2^31 + 256\<close>
  fragments have been published, the range in which the wrapping comparison still orders all cursors in use. Loops that wait for other processes are functions of a
  finite schedule of what they see; \<open>None\<close> means that the schedule ended inside the loop, and the theorems on such calls either say that they return on a long enough schedule or
  speak of every state on the way. No other fuel is used: all other recursions terminate.

  \<^bold>\<open>What goes wrong.\<close> Several theories end with a concrete run in which the code breaks its promise, found while an invariant failed: the recovery of a dead holder on
  macOS, the first opening of a semaphore, a stolen broadcast on Windows, the wrap of a channel's cursor, the tool started without a subcommand.

  \<^bold>\<open>Not modelled.\<close> Memory orderings weaker than sequential consistency. The Windows back ends, the libnotify back end of macOS, the pthread mutex and condition of other Unix
  systems, priorities and clocks: calls of the system with nothing around them. The queue of condition waiters and the fork handling of \<open>linux.rs\<close>, the segment caches of
  \<open>chunk_storage.rs\<close>, the process queries of macOS and Windows in \<open>liveness.rs\<close>. Wrappers without state (\<open>mutex.rs\<close>, \<open>scoped_access.rs\<close>, the typed channels and routes, the
  public \<open>Route\<close> and \<open>Channel\<close>), \<open>mem.rs\<close> (wrappers of two libraries), \<open>build.rs\<close>. Test programs and their runner (\<open>bin/xlang.rs\<close>, the demos and benchmarks,
  \<open>tools/xlang-runner\<close>): processes, input and output. The C++ and Swift ports, which are other implementations of the same layouts. That several writers
  of a channel deliver every message once is not proved: it does not hold.
\<close>

section \<open>From send to recv\<close>

text \<open>
  C1. End to end on a route: whatever the interleaving of a sender that sends one message after
  the other and its connected receivers, as long as no wait of the sender times out and
  fewer than \<open>2^31 + 256\<close> fragments have been published, reassembling the slots a receiver
  has read never panics and yields a prefix of the messages sent, in order and byte for
  byte, empty ones left out; and all of them once the sender is done and the receiver has
  read what was published.
\<close>

theorem route_end_to_end:
  assumes "rtranclp (delivery_step cc_id (set_bits_of cc)) (route_init cc, send_stream 0 ms) (s, todo)"
    and "length (rs_hist s) < 2 ^ 31 + 256" "bit cc r" "my_cc_id \<noteq> cc_id" "\<forall>m \<in> set ms. length m < 2 ^ 31"
  shows "\<exists>cache outs. recv_slots my_cc_id Map.empty (rv_log (rs_recv s r)) = Inr (cache, outs)
    \<and> prefix (map snd outs) (filter (\<lambda>m. m \<noteq> []) ms)
    \<and> (rv_log (rs_recv s r) = rs_hist s \<longrightarrow> rs_pc s = PReturn True \<longrightarrow> todo = []
        \<longrightarrow> map snd outs = filter (\<lambda>m. m \<noteq> []) ms)"
proof -
  have "rtranclp (route_step cc_id (set_bits_of cc)) (route_init cc) s"
    using delivery_route_steps [OF assms(1)] by simp
  then have "route_ok cc s" by (rule route_reachable_ok [OF _ assms(2)])
  then have "receiver_ok (rs_hist s) (rs_recv s r)" using assms(3) by (simp add: route_ok_def)
  then have log: "rv_log (rs_recv s r) = take (length (rv_log (rs_recv s r))) (rs_hist s)"
    unfolding receiver_ok_def by blast
  show ?thesis by (rule delivered_prefix [OF delivery_published [OF assms(1)] log assms(5,4)])
qed

text \<open>Three messages, the second of them empty, to one receiver that reads everything.\<close>

definition three_messages :: "u8 list list" where
  "three_messages = [replicate 70 7, [], [1, 2, 3]]"

definition three_messages_run :: "delivery_event list" where
  "three_messages_run =
     concat (replicate 3 (DCall # replicate 7 (DSend Proceed))) @ replicate 15 (DRecv Proceed 0)"

lemma three_messages_delivered:
  "case delivery_run 1 9 (route_init 1, send_stream 0 three_messages) three_messages_run of None \<Rightarrow> False
   | Some (s, todo) \<Rightarrow> length (rs_hist s) = 3 \<and> length (rv_log (rs_recv s 0)) = 3 \<and> rs_pc s = PReturn True \<and> todo = []"
  by code_simp

theorem route_end_to_end_witness:
  "\<exists>s outs cache. delivery_run 1 9 (route_init 1, send_stream 0 three_messages) three_messages_run = Some (s, [])
     \<and> recv_slots 4 Map.empty (rv_log (rs_recv s 0)) = Inr (cache, outs)
     \<and> map snd outs = [replicate 70 7, [1, 2, 3]]"
proof -
  obtain s todo where s: "delivery_run 1 9 (route_init 1, send_stream 0 three_messages) three_messages_run = Some (s, todo)"
    "length (rs_hist s) = 3" "length (rv_log (rs_recv s 0)) = 3" "rs_pc s = PReturn True" "todo = []"
    using three_messages_delivered by (auto split: option.splits)
  note run = delivery_run_steps [OF s(1)]
  have "route_ok 1 s" using route_reachable_ok [of 9 1 s] delivery_route_steps [OF run] s(2) by simp
  then have "rv_log (rs_recv s 0) = take 3 (rs_hist s)"
    unfolding route_ok_def receiver_ok_def s(3) [symmetric] by simp
  then have "rv_log (rs_recv s 0) = rs_hist s" using s(2) by simp
  moreover have "filter (\<lambda>m. m \<noteq> []) three_messages = [replicate 70 7, [1, 2, 3]]" by (simp add: three_messages_def)
  moreover have "\<forall>m \<in> set three_messages. length m < 2 ^ 31" by (simp add: three_messages_def)
  ultimately show ?thesis
    using route_end_to_end [OF run, of 0 4] s by auto
qed

end
